(* ===== verification/Prelude.thy ===== *)
theory Prelude
  imports Main "HOL-Library.Word"
begin

text \<open>
  Shared vocabulary of the development: the C integer types as machine words, memory
  addresses, the result type of C code that can go wrong, checked array access, errno
  values, and the generic list and word lemmas the component theories use.

  A C function that runs to its end yields \<open>Inr\<close> of its result. Anything the C
  language or the kernel gives no result for (a dereference of NULL, an access outside
  an array, a second \<open>kfree\<close> of one block, waiting for a mutex that nobody will
  release) is \<open>Inl\<close> of a \<open>trap\<close>, so a theorem that a call yields \<open>Inr\<close>
  says that it is memory safe and returns.
\<close>

section \<open>C types\<close>

type_synonym byte = char
type_synonym uint8_t = "8 word"
type_synonym uint32_t = "32 word"
type_synonym size_t = "64 word"
type_synonym ssize_t = "64 word"
type_synonym loff_t = "64 word"
type_synonym ptr = nat

text \<open>Address 0 is the null pointer.\<close>

abbreviation (input) NULL :: ptr where "NULL \<equiv> 0"

section \<open>Results of C code\<close>

datatype trap =
    NullDeref
  | OutOfBounds
  | UseAfterFree
  | BadFree
  | Deadlock
  | SignedOverflow

type_synonym 'a cres = "trap + 'a"

fun cbind :: "'a cres \<Rightarrow> ('a \<Rightarrow> 'b cres) \<Rightarrow> 'b cres" where
  "cbind (Inl t) f = Inl t"
| "cbind (Inr x) f = f x"

named_theorems cres_simps \<open>rules that take apart or evaluate results of C code\<close>

lemma cbind_eq_Inr [cres_simps]:
  "cbind m f = Inr y \<longleftrightarrow> (\<exists>x. m = Inr x \<and> f x = Inr y)"
  by (cases m) auto

lemma cbind_eq_Inl [cres_simps]:
  "cbind m f = Inl t \<longleftrightarrow> m = Inl t \<or> (\<exists>x. m = Inr x \<and> f x = Inl t)"
  by (cases m) auto

lemma cbind_cong [fundef_cong]:
  "m = m' \<Longrightarrow> (\<And>x. m' = Inr x \<Longrightarrow> f x = g x) \<Longrightarrow> cbind m f = cbind m' g"
  by (cases m') auto

text \<open>The result of a call is fine, or it waits for a mutex; it does not corrupt memory.\<close>

definition memory_safe :: "'a cres \<Rightarrow> bool" where
  "memory_safe m \<longleftrightarrow> (case m of Inl t \<Rightarrow> t = Deadlock | Inr _ \<Rightarrow> True)"

lemma memory_safe_simps [simp]:
  "memory_safe (Inr x)"
  "memory_safe (Inl t) \<longleftrightarrow> t = Deadlock"
  by (simp_all add: memory_safe_def)

lemma memory_safe_cbind:
  "memory_safe m \<Longrightarrow> (\<And>x. m = Inr x \<Longrightarrow> memory_safe (f x)) \<Longrightarrow> memory_safe (cbind m f)"
  by (cases m) auto

text \<open>Running a body over a list of arguments, stopping at the first trap.\<close>

fun cfold :: "('a \<Rightarrow> 's \<Rightarrow> 's cres) \<Rightarrow> 'a list \<Rightarrow> 's \<Rightarrow> 's cres" where
  "cfold f [] s = Inr s"
| "cfold f (x # xs) s = cbind (f x s) (cfold f xs)"

lemma cfold_pure: "cfold (\<lambda>x s. Inr (f x s)) xs s = Inr (fold f xs s)"
  by (induction xs arbitrary: s) auto

section \<open>Checked array access\<close>

definition c_nth :: "'a list \<Rightarrow> nat \<Rightarrow> 'a cres" where
  "c_nth xs i = (if i < length xs then Inr (xs ! i) else Inl OutOfBounds)"

definition c_upd :: "'a list \<Rightarrow> nat \<Rightarrow> 'a \<Rightarrow> 'a list cres" where
  "c_upd xs i x = (if i < length xs then Inr (xs[i := x]) else Inl OutOfBounds)"

lemma c_nth_in [simp]: "i < length xs \<Longrightarrow> c_nth xs i = Inr (xs ! i)"
  by (simp add: c_nth_def)

lemma c_upd_in [simp]: "i < length xs \<Longrightarrow> c_upd xs i x = Inr (xs[i := x])"
  by (simp add: c_upd_def)

section \<open>Error numbers\<close>

text \<open>The kernel returns an error as the negated errno value in a signed 64-bit word.\<close>

definition EINVAL :: "64 word" where "EINVAL = 22"
definition EFAULT :: "64 word" where "EFAULT = 14"
definition ENOMEM :: "64 word" where "ENOMEM = 12"
definition ENOTTY :: "64 word" where "ENOTTY = 25"
definition ERESTARTSYS :: "64 word" where "ERESTARTSYS = 512"

lemmas errno_defs = EINVAL_def EFAULT_def ENOMEM_def ENOTTY_def ERESTARTSYS_def

section \<open>Lists\<close>

lemma take_update_snoc: "n < length xs \<Longrightarrow> take (Suc n) (xs[n := x]) = take n xs @ [x]"
  by (simp add: take_Suc_conv_app_nth)

lemma rotate_overwrite:
  assumes "k < length xs"
  shows "rotate (Suc k mod length xs) (xs[k := x]) = tl (rotate k xs) @ [x]"
proof (rule nth_equalityI)
  show "length (rotate (Suc k mod length xs) (xs[k := x])) = length (tl (rotate k xs) @ [x])"
    using assms by simp
next
  fix i
  assume "i < length (rotate (Suc k mod length xs) (xs[k := x]))"
  then have i: "i < length xs" by simp
  have l: "rotate (Suc k mod length xs) (xs[k := x]) ! i = xs[k := x] ! ((k + Suc i) mod length xs)"
    using i by (simp add: nth_rotate mod_simps)
  show "rotate (Suc k mod length xs) (xs[k := x]) ! i = (tl (rotate k xs) @ [x]) ! i"
  proof (cases "Suc i < length xs")
    case True
    have "(k + Suc i) mod length xs \<noteq> k"
      using assms True by (auto simp: mod_if split: if_splits)
    moreover have "i < length xs - 1" using True by linarith
    ultimately show ?thesis
      using True l by (simp add: nth_append nth_tl nth_rotate)
  next
    case False
    with i have "Suc i = length xs" by simp
    then have "i = length xs - 1" "(k + Suc i) mod length xs = k"
      using assms by simp_all
    then show ?thesis
      using l assms by (simp add: nth_append)
  qed
qed

lemma sum_list_take_le: "sum_list (take k (ns :: nat list)) \<le> sum_list ns"
  by (metis append_take_drop_id le_add1 sum_list_append)

lemma sum_list_nth_le: "k < length ns \<Longrightarrow> (ns :: nat list) ! k \<le> sum_list ns"
  by (simp add: member_le_sum_list)

lemma sum_list_bound:
  assumes "\<And>n. n \<in> set ns \<Longrightarrow> (n::nat) \<le> m"
  shows "sum_list ns \<le> length ns * m"
  using assms by (induction ns) (auto simp: add_mono)

text \<open>Summing round and round a list.\<close>

lemma sum_list_cyclic:
  assumes "xs \<noteq> []"
  shows "sum_list (map (\<lambda>j. (xs :: nat list) ! (j mod length xs)) [0..<k]) =
    (k div length xs) * sum_list xs + sum_list (take (k mod length xs) xs)"
proof (induction k)
  case 0
  then show ?case by simp
next
  case (Suc k)
  let ?m = "length xs" and ?r = "k mod length xs"
  have r: "?r < ?m" using assms by simp
  then have step: "sum_list (take (Suc ?r) xs) = sum_list (take ?r xs) + xs ! ?r"
    by (simp add: take_Suc_conv_app_nth)
  show ?case
  proof (cases "Suc ?r = ?m")
    case True
    then have "Suc k mod ?m = 0" "Suc k div ?m = Suc (k div ?m)"
      by (simp_all add: mod_Suc div_Suc)
    moreover have "sum_list (take (Suc ?r) xs) = sum_list xs" using True by simp
    ultimately show ?thesis using Suc step by simp
  next
    case False
    then have "Suc k mod ?m = Suc ?r" "Suc k div ?m = k div ?m"
      by (simp_all add: mod_Suc div_Suc)
    then show ?thesis using Suc step by simp
  qed
qed

section \<open>Words\<close>

lemma unat_add_no_overflow:
  "unat (x :: 'a::len word) + unat y < 2 ^ LENGTH('a) \<Longrightarrow> unat (x + y) = unat x + unat y"
  by (simp add: unat_word_ariths take_bit_nat_eq_self)

lemma unat_of_nat64: "n < 2 ^ 64 \<Longrightarrow> unat (word_of_nat n :: 64 word) = n"
  by (simp add: unat_of_nat take_bit_nat_eq_self)

text \<open>A 64-bit word is negative as a signed value iff its top bit is set.\<close>

lemma int_div_once: "(m::int) \<le> k \<Longrightarrow> k < 2 * m \<Longrightarrow> 0 < m \<Longrightarrow> k div m = 1"
  using int_div_pos_eq [of k m 1 "k - m"] by simp

lemma sless_zero_iff: "(x :: 64 word) <s 0 \<longleftrightarrow> 2 ^ 63 \<le> unat x"
proof -
  have "x <s 0 \<longleftrightarrow> sint x < 0"
    by (simp add: word_sless_alt)
  also have "sint x = signed_take_bit 63 (uint x)"
    by (simp add: sint_uint)
  also have "signed_take_bit 63 (uint x) < 0 \<longleftrightarrow> odd (uint x div 2 ^ 63)"
    unfolding signed_take_bit_negative_iff by (rule bit_iff_odd)
  also have "\<dots> \<longleftrightarrow> 2 ^ 63 \<le> uint x"
  proof (cases "2 ^ 63 \<le> uint x")
    case True
    have "uint x < 2 * 2 ^ 63"
      using uint_lt2p [of x] by simp
    from int_div_once [OF True this] True show ?thesis by simp
  next
    case False
    then have "uint x div 2 ^ 63 = 0"
      by (intro div_pos_pos_trivial) simp_all
    with False show ?thesis by simp
  qed
  also have "\<dots> \<longleftrightarrow> int (2 ^ 63) \<le> int (unat x)"
    by simp
  also have "\<dots> \<longleftrightarrow> 2 ^ 63 \<le> unat x"
    by (rule of_nat_le_iff)
  finally show ?thesis .
qed

end
