(* ===== verification/Bounded_Log.thy ===== *)
theory Bounded_Log
  imports Prelude
begin

text \<open>
  What the circular buffer promises to the driver, stated without rings and offsets: a
  log that keeps the last \<open>cap\<close> items pushed, and a lookup that finds the item and the
  offset inside it for a position in the concatenation of all items. The two locales are
  the interface between \<open>aesd-circular-buffer.c\<close> and \<open>main.c\<close>; the theory
  \<open>Circular_Buffer\<close> interprets them on the model of the C functions.
\<close>

section \<open>The last n items\<close>

definition keep_last :: "nat \<Rightarrow> 'a list \<Rightarrow> 'a list" where
  "keep_last n xs = drop (length xs - n) xs"

lemma length_keep_last [simp]: "length (keep_last n xs) = min n (length xs)"
  by (auto simp: keep_last_def)

lemma keep_last_short: "length xs \<le> n \<Longrightarrow> keep_last n xs = xs"
  by (simp add: keep_last_def)

lemma keep_last_full: "length xs = n \<Longrightarrow> n \<noteq> 0 \<Longrightarrow> keep_last n (xs @ [x]) = tl xs @ [x]"
  by (cases xs) (auto simp: keep_last_def)

lemma keep_last_absorb: "keep_last n (keep_last n xs @ ys) = keep_last n (xs @ ys)"
proof (cases "length xs \<le> n")
  case True
  then show ?thesis by (simp add: keep_last_short)
next
  case False
  then show ?thesis by (auto simp: keep_last_def add.commute)
qed

lemma keep_last_map: "keep_last n (map f xs) = map f (keep_last n xs)"
  by (simp add: keep_last_def drop_map)

lemma set_keep_last: "set (keep_last n xs) \<subseteq> set xs"
  by (simp add: keep_last_def set_drop_subset)

section \<open>Positions in a concatenation\<close>

text \<open>
  \<open>locate ss n\<close> finds the piece that holds position \<open>n\<close> when pieces of the sizes
  \<open>ss\<close> stand end to end, and the offset inside it.
\<close>

fun locate :: "nat list \<Rightarrow> nat \<Rightarrow> (nat \<times> nat) option" where
  "locate [] n = None"
| "locate (s # ss) n =
     (if n < s then Some (0, n) else map_option (apfst Suc) (locate ss (n - s)))"

lemma locate_None_iff: "locate ss n = None \<longleftrightarrow> sum_list ss \<le> n"
  by (induction ss n rule: locate.induct) auto

lemma locate_SomeD:
  "locate ss n = Some (k, d) \<Longrightarrow> k < length ss \<and> d < ss ! k \<and> n = sum_list (take k ss) + d"
proof (induction ss n arbitrary: k rule: locate.induct)
  case (1 n)
  then show ?case by simp
next
  case (2 s ss n)
  show ?case
  proof (cases "n < s")
    case True
    with "2.prems" show ?thesis by auto
  next
    case False
    with "2.prems" obtain j where "locate ss (n - s) = Some (j, d)" "k = Suc j"
      by auto
    with "2.IH" [OF False] False show ?thesis by auto
  qed
qed

lemma locate_append_zeros: "locate (ss @ replicate m 0) n = locate ss n"
proof (induction ss n rule: locate.induct)
  case (1 n)
  then show ?case by (induction m) auto
qed auto

lemma locate_concat:
  assumes "locate (map length xss) n = Some (k, d)"
  shows "drop n (concat xss) = drop d (xss ! k) @ concat (drop (Suc k) xss)"
  using assms
proof (induction xss arbitrary: n k)
  case Nil
  then show ?case by simp
next
  case (Cons xs xss)
  show ?case
  proof (cases "n < length xs")
    case True
    with Cons.prems show ?thesis by auto
  next
    case False
    with Cons.prems obtain j where "locate (map length xss) (n - length xs) = Some (j, d)"
      "k = Suc j"
      by auto
    with Cons.IH [of "n - length xs" j] False show ?thesis by simp
  qed
qed

section \<open>The interface: pushing\<close>

fun push_all :: "('b \<Rightarrow> 'a \<Rightarrow> ('r \<times> 'b) cres) \<Rightarrow> 'b \<Rightarrow> 'a list \<Rightarrow> 'b cres" where
  "push_all push b [] = Inr b"
| "push_all push b (x # xs) = cbind (push b x) (\<lambda>(r, b'). push_all push b' xs)"

lemma push_all_append:
  "push_all push b (xs @ ys) = cbind (push_all push b xs) (\<lambda>b'. push_all push b' ys)"
proof (induction xs arbitrary: b)
  case (Cons x xs)
  then show ?case by (cases "push b x") auto
qed simp

locale bounded_log =
  fixes empty :: "'b"
    and push :: "'b \<Rightarrow> 'a \<Rightarrow> ('r \<times> 'b) cres"
    and items :: "'b \<Rightarrow> 'a list"
    and invar :: "'b \<Rightarrow> bool"
    and okay :: "'a \<Rightarrow> bool"
    and cap :: nat
  assumes items_empty: "items empty = []"
    and invar_empty: "invar empty"
    and items_bound: "invar b \<Longrightarrow> length (items b) \<le> cap"
    and items_okay: "invar b \<Longrightarrow> x \<in> set (items b) \<Longrightarrow> okay x"
    and push_law: "invar b \<Longrightarrow> okay x \<Longrightarrow>
      \<exists>r b'. push b x = Inr (r, b') \<and> invar b' \<and> items b' = keep_last cap (items b @ [x])"
begin

lemma push_all_keeps_last:
  assumes "invar b" and "\<And>x. x \<in> set xs \<Longrightarrow> okay x"
  shows "\<exists>b'. push_all push b xs = Inr b' \<and> invar b' \<and> items b' = keep_last cap (items b @ xs)"
  using assms
proof (induction xs arbitrary: b)
  case Nil
  then show ?case by (simp add: keep_last_short items_bound)
next
  case (Cons x xs)
  from push_law [of b x] Cons.prems obtain r b1 where b1: "push b x = Inr (r, b1)" "invar b1"
    "items b1 = keep_last cap (items b @ [x])"
    by auto
  from Cons.IH [OF b1(2)] Cons.prems obtain b' where "push_all push b1 xs = Inr b'" "invar b'"
    "items b' = keep_last cap (items b1 @ xs)"
    by auto
  with b1 show ?case by (auto simp: keep_last_absorb)
qed

lemma push_all_from_empty:
  "(\<And>x. x \<in> set xs \<Longrightarrow> okay x) \<Longrightarrow>
     \<exists>b. push_all push empty xs = Inr b \<and> invar b \<and> items b = keep_last cap xs"
  using push_all_keeps_last [OF invar_empty, of xs] by (simp add: items_empty)

end

section \<open>The interface: lookup by position\<close>

locale indexed_log = bounded_log +
  fixes width :: "'a \<Rightarrow> nat"
    and find_pos :: "'b \<Rightarrow> size_t \<Rightarrow> ('i \<times> size_t) option cres"
    and slot :: "'b \<Rightarrow> nat \<Rightarrow> 'i"
    and fetch :: "'b \<Rightarrow> 'i \<Rightarrow> 'a cres"
  assumes find_law: "invar b \<Longrightarrow> sum_list (map width (items b)) < 2 ^ 64 \<Longrightarrow>
      find_pos b off = Inr (map_option (\<lambda>(k, d). (slot b k, word_of_nat d))
                             (locate (map width (items b)) (unat off)))"
    and fetch_law: "invar b \<Longrightarrow> k < length (items b) \<Longrightarrow> fetch b (slot b k) = Inr (items b ! k)"
begin

lemma find_end:
  assumes "invar b" "sum_list (map width (items b)) < 2 ^ 64"
  shows "find_pos b off = Inr None \<longleftrightarrow> sum_list (map width (items b)) \<le> unat off"
  using find_law [OF assms, of off] by (simp add: locate_None_iff)

text \<open>
  What a client that reads through the interface gets: the item found holds the byte at the
  position, and what follows it in the item is a prefix of everything from the position on.
\<close>

lemma find_content:
  assumes inv: "invar b" "sum_list (map width (items b)) < 2 ^ 64"
    and content: "\<And>x. x \<in> set (items b) \<Longrightarrow> length (content x) = width x"
    and more: "unat off < sum_list (map width (items b))"
  shows "\<exists>i d x k. find_pos b off = Inr (Some (i, d)) \<and> fetch b i = Inr x \<and> x \<in> set (items b)
     \<and> unat d < width x
     \<and> drop (unat off) (concat (map content (items b))) =
         drop (unat d) (content x) @ concat (map content (drop (Suc k) (items b)))"
proof -
  from more obtain k d where kd: "locate (map width (items b)) (unat off) = Some (k, d)"
    using locate_None_iff [of "map width (items b)" "unat off"]
    by (cases "locate (map width (items b)) (unat off)") auto
  then have k: "k < length (items b)" and d: "d < width (items b ! k)"
    using locate_SomeD [OF kd] by auto
  have ws: "map length (map content (items b)) = map width (items b)"
    using content by simp
  have "width (items b ! k) \<le> sum_list (map width (items b))"
    using k sum_list_nth_le [of k "map width (items b)"] by simp
  with inv(2) d have "unat (word_of_nat d :: size_t) = d"
    by (simp add: unat_of_nat64)
  moreover have "drop (unat off) (concat (map content (items b))) =
      drop d (content (items b ! k)) @ concat (map content (drop (Suc k) (items b)))"
    using locate_concat [of "map content (items b)" "unat off" k d] k
    unfolding ws by (simp add: kd drop_map)
  ultimately show ?thesis
    using kd k d find_law [OF inv, of off] fetch_law [OF inv(1) k]
    by (intro exI [of _ "slot b k"] exI [of _ "word_of_nat d"] exI [of _ "items b ! k"] exI [of _ k])
      simp
qed

end

end
