(* ===== verification/Circular_Buffer.thy ===== *)
theory Circular_Buffer
  imports Bounded_Log
begin

text \<open>
  \<open>aesd-char-driver/aesd-circular-buffer.h\<close> and \<open>aesd-circular-buffer.c\<close>: the ring of
  the last ten write commands. The structs are records, the ring array a list of ten
  entries whose every access is checked, \<open>uint8_t\<close> and \<open>size_t\<close> are words of their
  width. A pointer argument that the code compares with NULL is an \<open>option\<close>.

  The invariant \<open>cb_inv\<close> and the abstraction \<open>cb_items\<close> (the stored entries, oldest
  first) carry the proofs; the interpretation at the end shows that the three functions
  keep the promises of \<^verbatim>\<open>indexed_log\<close>.
\<close>

section \<open>Data\<close>

abbreviation (input) AESDCHAR_MAX_WRITE_OPERATIONS_SUPPORTED :: nat where
  "AESDCHAR_MAX_WRITE_OPERATIONS_SUPPORTED \<equiv> 10"

record aesd_buffer_entry =
  buffptr :: ptr
  esize :: size_t

record aesd_circular_buffer =
  entry :: "aesd_buffer_entry list"
  in_offs :: uint8_t
  out_offs :: uint8_t
  full :: bool

definition zero_entry :: aesd_buffer_entry where
  "zero_entry = \<lparr>buffptr = NULL, esize = 0\<rparr>"

section \<open>Operations\<close>

text \<open>
  \<open>(offs + i) % 10\<close> is computed in \<open>int\<close> after the promotion of the \<open>uint8_t\<close>, so the
  sum does not wrap at 256; the result is stored in a \<open>uint8_t\<close>.
\<close>

definition ring_index :: "uint8_t \<Rightarrow> nat \<Rightarrow> uint8_t" where
  "ring_index offs i = word_of_nat ((unat offs + i) mod AESDCHAR_MAX_WRITE_OPERATIONS_SUPPORTED)"

function find_loop :: "aesd_circular_buffer \<Rightarrow> size_t \<Rightarrow> nat \<Rightarrow> size_t \<Rightarrow> (uint8_t \<times> size_t) option cres" where
  "find_loop buffer char_offset i cumulative_size =
     (if i < AESDCHAR_MAX_WRITE_OPERATIONS_SUPPORTED then
        let index = ring_index (out_offs buffer) i in
        cbind (c_nth (entry buffer) (unat index)) (\<lambda>e.
        let cumulative_size' = cumulative_size + esize e in
        if char_offset < cumulative_size'
        then Inr (Some (index, char_offset - (cumulative_size' - esize e)))
        else find_loop buffer char_offset (Suc i) cumulative_size')
      else Inr None)"
  by pat_completeness auto
termination
  by (relation "measure (\<lambda>(b, off, i, c). AESDCHAR_MAX_WRITE_OPERATIONS_SUPPORTED - i)") auto

declare find_loop.simps [simp del]

text \<open>
  The returned pointer \<open>&buffer->entry[index]\<close> is the index; the out parameter
  \<open>entry_offset_byte_rtn\<close> is the second component, set only when an entry is found.
\<close>

definition aesd_circular_buffer_find_entry_offset_for_fpos ::
    "aesd_circular_buffer option \<Rightarrow> size_t \<Rightarrow> (uint8_t \<times> size_t) option cres" where
  "aesd_circular_buffer_find_entry_offset_for_fpos buffer char_offset =
     (case buffer of None \<Rightarrow> Inl NullDeref
      | Some b \<Rightarrow>
          if in_offs b = out_offs b \<and> \<not> full b then Inr None
          else find_loop b char_offset 0 0)"

definition aesd_circular_buffer_add_entry ::
    "aesd_circular_buffer option \<Rightarrow> aesd_buffer_entry option \<Rightarrow> (ptr \<times> aesd_circular_buffer option) cres" where
  "aesd_circular_buffer_add_entry buffer add_entry =
     (case (buffer, add_entry) of
        (Some b, Some e) \<Rightarrow>
          cbind (if full b
                 then cbind (c_nth (entry b) (unat (in_offs b))) (\<lambda>old.
                      Inr (buffptr old, b\<lparr>out_offs := ring_index (out_offs b) 1\<rparr>))
                 else Inr (NULL, b)) (\<lambda>(ret_ptr, b1).
          cbind (c_upd (entry b1) (unat (in_offs b1)) e) (\<lambda>entries.
          let b2 = b1\<lparr>entry := entries, in_offs := ring_index (in_offs b1) 1\<rparr> in
          cbind (if in_offs b2 = out_offs b2
                 then cbind (c_nth (entry b2) (unat (in_offs b2))) (\<lambda>e'. Inr (esize e' \<noteq> 0))
                 else Inr False) (\<lambda>wrapped.
          Inr (ret_ptr, Some (if wrapped then b2\<lparr>full := True\<rparr> else b2)))))
      | _ \<Rightarrow> Inr (NULL, buffer))"

definition aesd_circular_buffer_init :: "aesd_circular_buffer \<Rightarrow> aesd_circular_buffer" where
  "aesd_circular_buffer_init buffer = buffer
     \<lparr>entry := replicate AESDCHAR_MAX_WRITE_OPERATIONS_SUPPORTED zero_entry,
      in_offs := 0, out_offs := 0, full := False\<rparr>"

text \<open>
  The macro \<open>AESD_CIRCULAR_BUFFER_FOREACH\<close>: the loop runs its body on every slot of the
  array, used or not, in array order.
\<close>

function foreach_loop ::
    "(aesd_buffer_entry \<Rightarrow> 's \<Rightarrow> 's cres) \<Rightarrow> aesd_circular_buffer \<Rightarrow> nat \<Rightarrow> 's \<Rightarrow> 's cres" where
  "foreach_loop body buffer index s =
     (if index < AESDCHAR_MAX_WRITE_OPERATIONS_SUPPORTED
      then cbind (c_nth (entry buffer) index) (\<lambda>e.
           cbind (body e s) (\<lambda>s'. foreach_loop body buffer (Suc index) s'))
      else Inr s)"
  by pat_completeness auto
termination
  by (relation "measure (\<lambda>(f, b, i, s). AESDCHAR_MAX_WRITE_OPERATIONS_SUPPORTED - i)") auto

declare foreach_loop.simps [simp del]

definition AESD_CIRCULAR_BUFFER_FOREACH ::
    "(aesd_buffer_entry \<Rightarrow> 's \<Rightarrow> 's cres) \<Rightarrow> aesd_circular_buffer \<Rightarrow> 's \<Rightarrow> 's cres" where
  "AESD_CIRCULAR_BUFFER_FOREACH body buffer s = foreach_loop body buffer 0 s"

section \<open>Invariant and abstraction\<close>

definition cb_inv :: "aesd_circular_buffer \<Rightarrow> bool" where
  "cb_inv b \<longleftrightarrow>
     length (entry b) = AESDCHAR_MAX_WRITE_OPERATIONS_SUPPORTED \<and>
     unat (in_offs b) < AESDCHAR_MAX_WRITE_OPERATIONS_SUPPORTED \<and>
     (if full b then out_offs b = in_offs b \<and> (\<forall>e \<in> set (entry b). esize e \<noteq> 0)
      else out_offs b = 0 \<and> (\<forall>e \<in> set (take (unat (in_offs b)) (entry b)). esize e \<noteq> 0) \<and>
        drop (unat (in_offs b)) (entry b) =
          replicate (AESDCHAR_MAX_WRITE_OPERATIONS_SUPPORTED - unat (in_offs b)) zero_entry)"

definition cb_items :: "aesd_circular_buffer \<Rightarrow> aesd_buffer_entry list" where
  "cb_items b = (if full b then rotate (unat (out_offs b)) (entry b)
                 else take (unat (in_offs b)) (entry b))"

definition esize_ok :: "aesd_buffer_entry \<Rightarrow> bool" where
  "esize_ok e \<longleftrightarrow> esize e \<noteq> 0"

definition esizes :: "aesd_buffer_entry list \<Rightarrow> nat list" where
  "esizes es = map (\<lambda>e. unat (esize e)) es"

section \<open>Ring arithmetic\<close>

lemma unat_ring_index [simp]: "unat (ring_index offs i) = (unat offs + i) mod 10"
proof -
  have "(unat offs + i) mod 10 < 2 ^ 8"
    by (rule less_trans [of _ 10]) simp_all
  then show ?thesis
    by (simp add: ring_index_def unat_of_nat take_bit_nat_eq_self)
qed

lemma ring_index_eq: "ring_index x i = ring_index y j \<longleftrightarrow> (unat x + i) mod 10 = (unat y + j) mod 10"
  by (metis unat_ring_index word_unat_eq_iff)

lemma ring_index_0: "unat x < 10 \<Longrightarrow> ring_index x 0 = x"
  by (simp add: word_unat_eq_iff)

lemma cb_inv_length: "cb_inv b \<Longrightarrow> length (entry b) = 10"
  by (simp add: cb_inv_def)

lemma cb_inv_out: "cb_inv b \<Longrightarrow> unat (out_offs b) < 10"
  by (auto simp: cb_inv_def split: if_splits)

lemma length_cb_items:
  "cb_inv b \<Longrightarrow> length (cb_items b) = (if full b then 10 else unat (in_offs b))"
  by (auto simp: cb_inv_def cb_items_def)

lemma cb_items_ok: "cb_inv b \<Longrightarrow> e \<in> set (cb_items b) \<Longrightarrow> esize_ok e"
  by (auto simp: cb_inv_def cb_items_def esize_ok_def split: if_splits)

text \<open>All ten slots in ring order are the stored entries, then zeroed slots.\<close>

lemma rotate_entry_items:
  assumes "cb_inv b"
  shows "rotate (unat (out_offs b)) (entry b) =
    cb_items b @ replicate (10 - length (cb_items b)) zero_entry"
proof (cases "full b")
  case True
  with assms show ?thesis by (simp add: length_cb_items cb_items_def cb_inv_def)
next
  case False
  with assms have "out_offs b = 0" "length (entry b) = 10" "unat (in_offs b) < 10"
    and "drop (unat (in_offs b)) (entry b) = replicate (10 - unat (in_offs b)) zero_entry"
    by (auto simp: cb_inv_def)
  with False show ?thesis
    using append_take_drop_id [of "unat (in_offs b)" "entry b"]
    by (simp add: cb_items_def del: append_take_drop_id)
qed

lemma entry_ring_index:
  assumes "cb_inv b" "k < length (cb_items b)"
  shows "c_nth (entry b) (unat (ring_index (out_offs b) k)) = Inr (cb_items b ! k)"
proof -
  have k: "k < 10"
    using assms by (auto simp: length_cb_items cb_inv_def split: if_splits)
  have "entry b ! ((unat (out_offs b) + k) mod 10) = rotate (unat (out_offs b)) (entry b) ! k"
    using k assms(1) by (simp add: nth_rotate cb_inv_length)
  also have "\<dots> = cb_items b ! k"
    using assms by (simp add: rotate_entry_items nth_append)
  finally show ?thesis
    using assms(1) by (simp add: cb_inv_length)
qed

section \<open>Adding an entry\<close>

lemma init_inv: "cb_inv (aesd_circular_buffer_init b)"
  by (simp add: cb_inv_def aesd_circular_buffer_init_def)

lemma init_items: "cb_items (aesd_circular_buffer_init b) = []"
  by (simp add: cb_items_def aesd_circular_buffer_init_def)

lemma set_update_all:
  "\<forall>e \<in> set xs. P e \<Longrightarrow> P x \<Longrightarrow> \<forall>e \<in> set (xs[i := x]). P e"
  by (metis insertE set_update_subset_insert subsetD)

lemma add_entry_full:
  assumes inv: "cb_inv b" and full: "full b" and ok: "esize_ok e"
  obtains b' where "aesd_circular_buffer_add_entry (Some b) (Some e) =
      Inr (buffptr (hd (cb_items b)), Some b')"
    and "cb_inv b'" and "full b'" and "cb_items b' = tl (cb_items b) @ [e]"
proof -
  let ?k = "unat (in_offs b)"
  let ?b = "b\<lparr>entry := (entry b)[?k := e], in_offs := ring_index (in_offs b) 1,
              out_offs := ring_index (out_offs b) 1\<rparr>"
  have len: "length (entry b) = 10" and k: "?k < 10" and out: "out_offs b = in_offs b"
    and ok_all: "\<forall>e \<in> set (entry b). esize e \<noteq> 0"
    using inv full by (auto simp: cb_inv_def)
  have new_ok: "\<forall>e \<in> set ((entry b)[?k := e]). esize e \<noteq> 0"
    using ok_all ok unfolding esize_ok_def by (rule set_update_all)
  have "esize ((entry b)[?k := e] ! (Suc ?k mod 10)) \<noteq> 0"
    using new_ok len by (metis length_list_update mod_less_divisor nth_mem zero_less_numeral)
  moreover have "hd (cb_items b) = entry b ! ?k"
    using full out len k hd_rotate_conv_nth [of "entry b" ?k] by (force simp: cb_items_def)
  ultimately have "aesd_circular_buffer_add_entry (Some b) (Some e) =
      Inr (buffptr (hd (cb_items b)), Some ?b)"
    using full out len k by (simp add: aesd_circular_buffer_add_entry_def Let_def)
  moreover have "cb_inv ?b"
    using full out len new_ok by (simp add: cb_inv_def)
  moreover have "cb_items ?b = tl (cb_items b) @ [e]"
    using full out len k rotate_overwrite [of ?k "entry b" e] by (simp add: cb_items_def)
  ultimately show thesis
    using full by (intro that [of ?b]) simp_all
qed

text \<open>The array of a ring that is not full after the next slot was filled.\<close>

lemma filled_slot:
  assumes inv: "cb_inv b" and full: "\<not> full b" and ok: "esize_ok e"
    and k: "k = unat (in_offs b)" and es: "es = (entry b)[k := e]"
  shows "length es = 10" and "take (Suc k) es = take k (entry b) @ [e]"
    and "drop (Suc k) es = replicate (10 - Suc k) zero_entry"
    and "\<forall>x \<in> set (take (Suc k) es). esize x \<noteq> 0" and "esize (es ! 0) \<noteq> 0"
proof -
  have len: "length (entry b) = 10" and k10: "k < 10"
    and ok_all: "\<forall>e \<in> set (take k (entry b)). esize e \<noteq> 0"
    and rest: "drop k (entry b) = replicate (10 - k) zero_entry"
    using inv full by (auto simp: cb_inv_def k)
  show "length es = 10" by (simp add: es len)
  show take_new: "take (Suc k) es = take k (entry b) @ [e]"
    using len k10 by (simp add: es take_update_snoc)
  have "drop (Suc k) (entry b) = tl (drop k (entry b))"
    by (simp add: drop_Suc tl_drop)
  then show "drop (Suc k) es = replicate (10 - Suc k) zero_entry"
    by (simp add: es rest)
  show ok_new: "\<forall>x \<in> set (take (Suc k) es). esize x \<noteq> 0"
    unfolding take_new using ok_all ok by (auto simp: esize_ok_def)
  show "esize (es ! 0) \<noteq> 0"
    using nth_mem [of 0 "take (Suc k) es"] ok_new len by (simp add: es)
qed

lemma add_entry_not_full:
  assumes inv: "cb_inv b" and full: "\<not> full b" and ok: "esize_ok e"
  obtains b' where "aesd_circular_buffer_add_entry (Some b) (Some e) = Inr (NULL, Some b')"
    and "cb_inv b'" and "full b' \<longleftrightarrow> length (cb_items b) = 9" and "cb_items b' = cb_items b @ [e]"
proof -
  let ?k = "unat (in_offs b)"
  let ?w = "Suc ?k = 10"
  let ?es = "(entry b)[?k := e]"
  let ?b = "b\<lparr>entry := ?es, in_offs := ring_index (in_offs b) 1, full := ?w\<rparr>"
  note new = filled_slot [OF inv full ok refl refl]
  have len: "length (entry b) = 10" and k: "?k < 10" and out: "out_offs b = 0"
    using inv full by (auto simp: cb_inv_def)
  have wrap: "ring_index (in_offs b) 1 = out_offs b \<longleftrightarrow> ?w"
    using k out by (auto simp: word_unat_eq_iff mod_if)
  have run: "aesd_circular_buffer_add_entry (Some b) (Some e) = Inr (NULL, Some ?b)"
  proof (cases ?w)
    case True
    then have "?k = 9" by simp
    with full out len wrap new(5) show ?thesis
      by (simp add: aesd_circular_buffer_add_entry_def Let_def)
  next
    case False
    with full out len k wrap show ?thesis
      by (cases b) (simp add: aesd_circular_buffer_add_entry_def Let_def)
  qed
  have "cb_inv ?b \<and> cb_items ?b = cb_items b @ [e]"
  proof (cases ?w)
    case True
    with len k out wrap new show ?thesis
      using full by (simp add: cb_inv_def cb_items_def)
  next
    case False
    then have "Suc ?k mod 10 = Suc ?k" using k by simp
    with False len k out new full show ?thesis
      by (simp add: cb_inv_def cb_items_def)
  qed
  moreover have "length (cb_items b) = ?k"
    using full len k by (simp add: cb_items_def)
  ultimately show thesis
    using run by (intro that [of ?b]) auto
qed

section \<open>Finding a position\<close>

lemma find_loop_locate:
  assumes len: "length (entry b) = 10"
  shows "i \<le> 10 \<Longrightarrow> unat cum \<le> unat off \<Longrightarrow>
    unat cum + sum_list (drop i (esizes (rotate (unat (out_offs b)) (entry b)))) < 2 ^ 64 \<Longrightarrow>
    find_loop b off i cum = Inr (map_option (\<lambda>(k, d). (ring_index (out_offs b) (i + k), word_of_nat d))
      (locate (drop i (esizes (rotate (unat (out_offs b)) (entry b)))) (unat off - unat cum)))"
proof (induction "10 - i" arbitrary: i cum)
  case 0
  then show ?case using len by (simp add: find_loop.simps [of b off 10] esizes_def)
next
  case (Suc n)
  let ?xs = "rotate (unat (out_offs b)) (entry b)"
  let ?e = "entry b ! ((unat (out_offs b) + i) mod 10)"
  from Suc.hyps(2) have i: "i < 10" by simp
  have drop_i: "drop i (esizes ?xs) = unat (esize ?e) # drop (Suc i) (esizes ?xs)"
    using i len by (simp add: esizes_def Cons_nth_drop_Suc [symmetric] nth_rotate)
  have cum: "unat (cum + esize ?e) = unat cum + unat (esize ?e)"
    using Suc.prems(3) by (intro unat_add_no_overflow) (simp add: drop_i)
  show ?case
  proof (cases "off < cum + esize ?e")
    case True
    then have "unat off - unat cum < unat (esize ?e)"
      using cum Suc.prems(2) by (simp add: word_less_nat_alt)
    moreover have "off - cum = word_of_nat (unat off - unat cum)"
      using Suc.prems(2) by (simp add: of_nat_diff)
    ultimately show ?thesis
      using True i len by (simp add: find_loop.simps [of b off i] drop_i Let_def)
  next
    case False
    then have le: "unat (cum + esize ?e) \<le> unat off" 
      by (simp add: word_le_nat_alt not_less)
    have "find_loop b off i cum = find_loop b off (Suc i) (cum + esize ?e)"
      using False i len by (simp add: find_loop.simps [of b off i] Let_def)
    also have "\<dots> = Inr (map_option (\<lambda>(k, d). (ring_index (out_offs b) (Suc i + k), word_of_nat d))
        (locate (drop (Suc i) (esizes ?xs)) (unat off - unat (cum + esize ?e))))"
      using Suc.hyps i le Suc.prems(3) by (intro Suc.hyps(1)) (simp_all add: cum drop_i)
    finally show ?thesis
      using le by (simp add: drop_i cum option.map_comp comp_def case_prod_unfold apfst_def)
  qed
qed

lemma find_locate:
  assumes inv: "cb_inv b" and small: "sum_list (esizes (cb_items b)) < 2 ^ 64"
  shows "aesd_circular_buffer_find_entry_offset_for_fpos (Some b) off =
    Inr (map_option (\<lambda>(k, d). (ring_index (out_offs b) k, word_of_nat d))
      (locate (esizes (cb_items b)) (unat off)))"
proof (cases "in_offs b = out_offs b \<and> \<not> full b")
  case True
  with inv have "cb_items b = []" by (simp add: cb_inv_def cb_items_def)
  with True show ?thesis
    by (simp add: aesd_circular_buffer_find_entry_offset_for_fpos_def esizes_def)
next
  case False
  have "esizes (rotate (unat (out_offs b)) (entry b)) =
      esizes (cb_items b) @ replicate (10 - length (cb_items b)) 0"
    using inv by (simp add: rotate_entry_items esizes_def zero_entry_def)
  with False show ?thesis
    using find_loop_locate [of b 0 0 off] inv small
    by (auto simp: aesd_circular_buffer_find_entry_offset_for_fpos_def cb_inv_length
        sum_list_replicate locate_append_zeros)
qed

section \<open>Iterating over the slots\<close>

lemma foreach_loop_cfold:
  "length (entry b) = 10 \<Longrightarrow> i \<le> 10 \<Longrightarrow> foreach_loop body b i s = cfold body (drop i (entry b)) s"
proof (induction "10 - i" arbitrary: i s)
  case 0
  then show ?case by (simp add: foreach_loop.simps [of body b 10])
next
  case (Suc n)
  then have i: "i < 10" by simp
  with Suc.prems(1) have "drop i (entry b) = entry b ! i # drop (Suc i) (entry b)"
    by (simp add: Cons_nth_drop_Suc)
  moreover have "foreach_loop body b (Suc i) = cfold body (drop (Suc i) (entry b))"
    using Suc i by auto
  ultimately show ?case
    using i Suc.prems by (simp add: foreach_loop.simps [of body b i])
qed

lemma foreach_cfold:
  "cb_inv b \<Longrightarrow> AESD_CIRCULAR_BUFFER_FOREACH body b s = cfold body (entry b) s"
  by (simp add: AESD_CIRCULAR_BUFFER_FOREACH_def foreach_loop_cfold cb_inv_length)

section \<open>The promises to the driver\<close>

text \<open>The calls as \<open>main.c\<close> makes them, on a buffer and an entry that exist.\<close>

definition cb_push :: "aesd_circular_buffer \<Rightarrow> aesd_buffer_entry \<Rightarrow> (ptr \<times> aesd_circular_buffer) cres" where
  "cb_push b e = cbind (aesd_circular_buffer_add_entry (Some b) (Some e)) (\<lambda>(r, b').
     case b' of None \<Rightarrow> Inl NullDeref | Some b2 \<Rightarrow> Inr (r, b2))"

definition empty_buffer :: aesd_circular_buffer where
  "empty_buffer = \<lparr>entry = replicate AESDCHAR_MAX_WRITE_OPERATIONS_SUPPORTED zero_entry,
     in_offs = 0, out_offs = 0, full = False\<rparr>"

lemma init_empty: "aesd_circular_buffer_init b = empty_buffer"
  by (cases b) (simp add: aesd_circular_buffer_init_def empty_buffer_def)

lemma cb_push_law:
  assumes "cb_inv b" "esize_ok e"
  shows "\<exists>b'. aesd_circular_buffer_add_entry (Some b) (Some e) =
        Inr (if full b then buffptr (hd (cb_items b)) else NULL, Some b') \<and>
      cb_inv b' \<and> cb_items b' = keep_last 10 (cb_items b @ [e]) \<and>
      (full b' \<longleftrightarrow> length (cb_items b') = 10)"
proof (cases "full b")
  case True
  obtain b' where b': "aesd_circular_buffer_add_entry (Some b) (Some e) =
      Inr (buffptr (hd (cb_items b)), Some b')" "cb_inv b'" "full b'"
      "cb_items b' = tl (cb_items b) @ [e]"
    using add_entry_full [OF assms(1) True assms(2)] .
  have "length (cb_items b) = 10"
    using True assms(1) by (simp add: length_cb_items)
  then have "keep_last 10 (cb_items b @ [e]) = tl (cb_items b) @ [e]"
    by (simp add: keep_last_full)
  with b' True length_cb_items [OF b'(2)] show ?thesis by auto
next
  case False
  obtain b' where b': "aesd_circular_buffer_add_entry (Some b) (Some e) = Inr (NULL, Some b')"
      "cb_inv b'" "full b' \<longleftrightarrow> length (cb_items b) = 9" "cb_items b' = cb_items b @ [e]"
    using add_entry_not_full [OF assms(1) False assms(2)] .
  have "length (cb_items b) < 10"
    using False assms(1) by (simp add: length_cb_items cb_inv_def)
  with b' False show ?thesis by (auto simp: keep_last_short)
qed

interpretation cb: indexed_log empty_buffer cb_push cb_items cb_inv esize_ok 10
    "\<lambda>e. unat (esize e)" "\<lambda>b. aesd_circular_buffer_find_entry_offset_for_fpos (Some b)"
    "\<lambda>b. ring_index (out_offs b)" "\<lambda>b i. c_nth (entry b) (unat i)"
proof (unfold_locales, goal_cases)
  case 1
  show ?case using init_items by (simp add: init_empty)
next
  case 2
  show ?case using init_inv by (simp add: init_empty)
next
  case (3 b)
  then show ?case by (auto simp: length_cb_items cb_inv_def)
next
  case (4 b e)
  then show ?case by (rule cb_items_ok)
next
  case (5 b e)
  from cb_push_law [OF this] show ?case by (auto simp: cb_push_def)
next
  case (6 b off)
  then show ?case using find_locate [of b off] by (simp add: esizes_def)
next
  case (7 b k)
  then show ?case by (rule entry_ring_index)
qed

section \<open>Properties\<close>

text \<open>C6: Adding an entry of non-zero size to a well-formed buffer keeps it well formed, makes
  the stored entries the last ten of the old ones and the new one, and returns the memory of the
  entry it displaced when the buffer was full, NULL otherwise.\<close>

theorem add_entry_keeps_last_ten:
  assumes "cb_inv b" and "esize e \<noteq> 0"
  shows "\<exists>b'. aesd_circular_buffer_add_entry (Some b) (Some e) =
      Inr (if length (cb_items b) = 10 then buffptr (hd (cb_items b)) else NULL, Some b') \<and>
    cb_inv b' \<and> cb_items b' = drop (length (cb_items b) - 9) (cb_items b @ [e])"
  using cb_push_law [OF assms(1), of e] assms length_cb_items [OF assms(1)]
  by (cases "full b") (auto simp: esize_ok_def keep_last_def cb_inv_def)

definition sample_entry :: "nat \<Rightarrow> aesd_buffer_entry" where
  "sample_entry k = \<lparr>buffptr = k, esize = word_of_nat k\<rparr>"

lemma empty_inv: "cb_inv empty_buffer"
  by (rule cb.invar_empty)

theorem add_entry_keeps_last_ten_witness:
  "\<exists>b'. aesd_circular_buffer_add_entry (Some empty_buffer) (Some (sample_entry 3)) = Inr (NULL, Some b') \<and>
    cb_inv b' \<and> cb_items b' = [sample_entry 3]"
  using add_entry_keeps_last_ten [OF empty_inv, of "sample_entry 3"] cb.items_empty
  by (simp add: sample_entry_def)

text \<open>C11: A lookup in a well-formed buffer whose sizes add up to less than 2^64 returns NULL
  exactly for positions at or beyond the total size, and otherwise the slot and the offset inside
  its entry: the sizes of the entries before it and the offset add up to the position.\<close>

theorem find_entry_offset_correct:
  assumes "cb_inv b" and "sum_list (esizes (cb_items b)) < 2 ^ 64"
  shows "case aesd_circular_buffer_find_entry_offset_for_fpos (Some b) off of
      Inl t \<Rightarrow> False
    | Inr None \<Rightarrow> sum_list (esizes (cb_items b)) \<le> unat off
    | Inr (Some (index, offset)) \<Rightarrow> \<exists>k < length (cb_items b).
        c_nth (entry b) (unat index) = Inr (cb_items b ! k) \<and>
        offset < esize (cb_items b ! k) \<and>
        unat off = sum_list (take k (esizes (cb_items b))) + unat offset"
proof (cases "locate (esizes (cb_items b)) (unat off)")
  case None
  then have "sum_list (esizes (cb_items b)) \<le> unat off"
    by (simp add: locate_None_iff)
  with None show ?thesis using find_locate [OF assms, of off] by simp
next
  case (Some kd)
  then obtain k d where kd: "locate (esizes (cb_items b)) (unat off) = Some (k, d)"
    by (cases kd) auto
  from locate_SomeD [OF kd] have k: "k < length (cb_items b)" "d < unat (esize (cb_items b ! k))"
    "unat off = sum_list (take k (esizes (cb_items b))) + d"
    by (auto simp: esizes_def)
  then have "unat (word_of_nat d :: size_t) = d"
    using unsigned_less [of "esize (cb_items b ! k)", where ?'a = nat]
    by (intro unat_of_nat64) simp
  with k kd show ?thesis
    using find_locate [OF assms, of off] entry_ring_index [OF assms(1) k(1)]
    by (auto simp: word_less_nat_alt)
qed

definition sample_buffer :: aesd_circular_buffer where
  "sample_buffer = \<lparr>entry = sample_entry 3 # replicate 9 zero_entry, in_offs = 1, out_offs = 0, full = False\<rparr>"

lemma sample_buffer_items: "cb_inv sample_buffer" "cb_items sample_buffer = [sample_entry 3]"
  by (simp_all add: cb_inv_def cb_items_def sample_buffer_def sample_entry_def)

theorem find_entry_offset_correct_witness:
  "case aesd_circular_buffer_find_entry_offset_for_fpos (Some sample_buffer) 2 of
     Inl t \<Rightarrow> False
   | Inr None \<Rightarrow> 3 \<le> (2::nat)
   | Inr (Some (index, offset)) \<Rightarrow> offset < 3 \<and> unat offset = 2"
proof -
  have small: "sum_list (esizes (cb_items sample_buffer)) < 2 ^ 64"
    by (simp add: sample_buffer_items esizes_def sample_entry_def)
  show ?thesis
    using find_entry_offset_correct [OF sample_buffer_items(1) small, of 2]
    by (auto simp: sample_buffer_items esizes_def sample_entry_def split: sum.splits option.splits)
qed

text \<open>After initialisation and any sequence of additions of non-empty entries the buffer
  holds exactly the last ten, oldest first.\<close>

theorem init_then_adds_keep_last_ten:
  assumes "\<And>e. e \<in> set es \<Longrightarrow> esize e \<noteq> 0"
  shows "\<exists>b'. push_all cb_push (aesd_circular_buffer_init b) es = Inr b' \<and> cb_inv b' \<and>
    cb_items b' = drop (length es - 10) es"
  using cb.push_all_from_empty [of es] assms
  by (auto simp: init_empty esize_ok_def keep_last_def)

theorem init_then_adds_keep_last_ten_witness:
  "\<exists>b'. push_all cb_push (aesd_circular_buffer_init empty_buffer) (map sample_entry [1..<13]) = Inr b' \<and>
    cb_items b' = map sample_entry [3..<13]"
proof -
  have "esize (sample_entry k) \<noteq> 0" if "0 < k" "k < 13" for k
    using that unat_of_nat64 [of k] by (auto simp: sample_entry_def)
  then have "\<And>e. e \<in> set (map sample_entry [1..<13]) \<Longrightarrow> esize e \<noteq> 0"
    by (auto simp del: upt_rec_numeral)
  from init_then_adds_keep_last_ten [of "map sample_entry [1..<13]", where b = empty_buffer, OF this]
  show ?thesis
    by (auto simp: drop_map numeral_3_eq_3 simp del: upt_rec_numeral)
qed

text \<open>Filling the ring for the first time stores the entries in array order, whatever their sizes.\<close>

lemma fill_ring:
  "length es < 10 \<Longrightarrow> push_all cb_push empty_buffer es = Inr
     \<lparr>entry = es @ replicate (10 - length es) zero_entry, in_offs = word_of_nat (length es),
      out_offs = 0, full = False\<rparr>"
proof (induction es rule: rev_induct)
  case Nil
  then show ?case by (simp add: empty_buffer_def)
next
  case (snoc e es)
  let ?n = "length es"
  have n: "?n < 9" using snoc.prems by simp
  have u: "unat (word_of_nat ?n :: uint8_t) = ?n"
    using n by (simp add: unat_of_nat take_bit_nat_eq_self)
  have r: "ring_index (word_of_nat ?n) 1 = word_of_nat (Suc ?n)"
    using n u by (simp add: ring_index_def)
  have "unat (ring_index (word_of_nat ?n) 1) = Suc ?n"
    using n u by simp
  then have nz: "ring_index (word_of_nat ?n) 1 \<noteq> 0"
    by (metis Zero_not_Suc unat_0)
  have rest: "replicate (10 - ?n) zero_entry = zero_entry # replicate (9 - ?n) zero_entry"
    using n by (simp add: Suc_diff_le flip: replicate_Suc)
  show ?case
    using snoc.IH n u r nz
    by (simp add: push_all_append cb_push_def aesd_circular_buffer_add_entry_def Let_def rest)
qed

text \<open>The wrap-around test of \<open>aesd_circular_buffer_add_entry\<close> asks for a non-zero size, so
  a ring whose first entry is empty is not marked full after ten additions: it then reports no
  entry at any position although ten are stored.\<close>

theorem empty_first_entry_hides_ring:
  assumes "esize e = 0" and "length es = 9"
  shows "\<exists>b'. push_all cb_push (aesd_circular_buffer_init b) (e # es) = Inr b' \<and>
    entry b' = e # es \<and> \<not> full b' \<and>
    (\<forall>off. aesd_circular_buffer_find_entry_offset_for_fpos (Some b') off = Inr None)"
proof -
  obtain xs x where es: "es = xs @ [x]" "length xs = 8"
    using assms(2) by (cases es rule: rev_cases) auto
  let ?b = "\<lparr>entry = e # xs @ [zero_entry], in_offs = 9, out_offs = 0, full = False\<rparr>"
  have nine: "push_all cb_push empty_buffer (e # xs) = Inr ?b"
    using fill_ring [of "e # xs"] es(2) by (simp del: push_all.simps)
  have "push_all cb_push (aesd_circular_buffer_init b) (e # es) =
      cbind (push_all cb_push empty_buffer (e # xs)) (\<lambda>b'. push_all cb_push b' [x])"
    unfolding init_empty push_all_append [symmetric] by (simp add: es)
  also have "\<dots> = Inr (?b\<lparr>entry := e # xs @ [x], in_offs := 0\<rparr>)"
    unfolding nine using es(2) assms(1) list_update_length [of xs zero_entry "[]" x]
    by (simp add: cb_push_def aesd_circular_buffer_add_entry_def Let_def ring_index_def)
  finally show ?thesis
    by (simp add: aesd_circular_buffer_find_entry_offset_for_fpos_def es)
qed

theorem empty_first_entry_hides_ring_witness:
  "\<exists>b'. push_all cb_push (aesd_circular_buffer_init empty_buffer)
      (sample_entry 0 # replicate 9 (sample_entry 5)) = Inr b' \<and>
    aesd_circular_buffer_find_entry_offset_for_fpos (Some b') 7 = Inr None"
  using empty_first_entry_hides_ring [of "sample_entry 0" "replicate 9 (sample_entry 5)"]
  by (force simp: sample_entry_def)

end
