(* ===== verification/Kernel_Services.thy ===== *)
theory Kernel_Services
  imports Prelude
begin

text \<open>
  The kernel services the driver calls: the slab allocator, copies to and from user space,
  and the mutex. Their code is not part of the repository, so what they decide is a
  parameter of the model, the record \<open>kernel_env\<close>: where the allocator places a block (or
  NULL when it fails) and whether the wait for the mutex is interrupted by a signal. What a
  successful call does to memory is the documented effect, written over an explicit heap.

  A heap maps the address of a live block to its cells; \<open>None\<close> in a cell is a byte that
  was allocated and never written.
\<close>

section \<open>Memory\<close>

type_synonym cells = "byte option list"
type_synonym heap = "ptr \<rightharpoonup> cells"

definition load :: "heap \<Rightarrow> ptr \<Rightarrow> nat \<Rightarrow> nat \<Rightarrow> cells cres" where
  "load h p i n =
     (if p = NULL then Inl NullDeref
      else case h p of None \<Rightarrow> Inl UseAfterFree
      | Some blk \<Rightarrow> if i + n \<le> length blk then Inr (take n (drop i blk)) else Inl OutOfBounds)"

definition store :: "heap \<Rightarrow> ptr \<Rightarrow> nat \<Rightarrow> cells \<Rightarrow> heap cres" where
  "store h p i cs =
     (if p = NULL then Inl NullDeref
      else case h p of None \<Rightarrow> Inl UseAfterFree
      | Some blk \<Rightarrow>
          if i + length cs \<le> length blk
          then Inr (h(p \<mapsto> take i blk @ cs @ drop (i + length cs) blk)) else Inl OutOfBounds)"

definition memcpy :: "heap \<Rightarrow> ptr \<Rightarrow> nat \<Rightarrow> ptr \<Rightarrow> nat \<Rightarrow> nat \<Rightarrow> heap cres" where
  "memcpy h dst i src j n = cbind (load h src j n) (store h dst i)"

text \<open>The index of the first cell that holds the byte \<open>c\<close>.\<close>

fun memchr :: "byte \<Rightarrow> cells \<Rightarrow> nat option" where
  "memchr c [] = None"
| "memchr c (x # xs) = (if x = Some c then Some 0 else map_option Suc (memchr c xs))"

section \<open>What the kernel decides\<close>

record kernel_env =
  interrupted :: bool
  kmalloc_at :: "heap \<Rightarrow> size_t \<Rightarrow> ptr"
  krealloc_at :: "heap \<Rightarrow> ptr \<Rightarrow> size_t \<Rightarrow> ptr"

text \<open>
  The documented behaviour the driver relies on: a block is placed where nothing is live
  (\<open>krealloc\<close> may also keep the block where it is), and a request above the largest slab
  size fails. \<open>KMALLOC_MAX\<close> is above that size in every kernel configuration.
\<close>

abbreviation (input) KMALLOC_MAX :: nat where "KMALLOC_MAX \<equiv> 2 ^ 32"

definition allocator_ok :: "kernel_env \<Rightarrow> bool" where
  "allocator_ok env \<longleftrightarrow>
     (\<forall>h n. kmalloc_at env h n \<noteq> NULL \<longrightarrow> h (kmalloc_at env h n) = None \<and> unat n \<le> KMALLOC_MAX) \<and>
     (\<forall>h p n. krealloc_at env h p n \<noteq> NULL \<longrightarrow>
        (krealloc_at env h p n = p \<or> h (krealloc_at env h p n) = None) \<and> unat n \<le> KMALLOC_MAX)"

lemma kmalloc_at_fresh:
  "allocator_ok env \<Longrightarrow> kmalloc_at env h n \<noteq> NULL \<Longrightarrow> h (kmalloc_at env h n) = None"
  unfolding allocator_ok_def by blast

lemma kmalloc_at_bound:
  "allocator_ok env \<Longrightarrow> kmalloc_at env h n \<noteq> NULL \<Longrightarrow> unat n \<le> KMALLOC_MAX"
  unfolding allocator_ok_def by blast

lemma krealloc_at_fresh:
  "allocator_ok env \<Longrightarrow> krealloc_at env h p n \<noteq> NULL \<Longrightarrow>
     krealloc_at env h p n = p \<or> h (krealloc_at env h p n) = None"
  unfolding allocator_ok_def by presburger

lemma krealloc_at_bound:
  "allocator_ok env \<Longrightarrow> krealloc_at env h p n \<noteq> NULL \<Longrightarrow> unat n \<le> KMALLOC_MAX"
  unfolding allocator_ok_def by blast

text \<open>Memory is available when requests within the slab limit succeed on a small heap.\<close>

definition memory_available :: "kernel_env \<Rightarrow> bool" where
  "memory_available env \<longleftrightarrow> (\<forall>h n. finite (dom h) \<and> card (dom h) \<le> 32 \<and> unat n \<le> KMALLOC_MAX \<longrightarrow>
     kmalloc_at env h n \<noteq> NULL \<and> (\<forall>p. krealloc_at env h p n \<noteq> NULL))"

lemma available_kmalloc:
  "memory_available env \<Longrightarrow> finite (dom h) \<Longrightarrow> card (dom h) \<le> 32 \<Longrightarrow> unat n \<le> KMALLOC_MAX \<Longrightarrow>
     kmalloc_at env h n \<noteq> 0"
  unfolding memory_available_def by blast

lemma available_krealloc:
  "memory_available env \<Longrightarrow> finite (dom h) \<Longrightarrow> card (dom h) \<le> 32 \<Longrightarrow> unat n \<le> KMALLOC_MAX \<Longrightarrow>
     krealloc_at env h p n \<noteq> 0"
  unfolding memory_available_def by blast

section \<open>The services\<close>

definition kmalloc :: "kernel_env \<Rightarrow> heap \<Rightarrow> size_t \<Rightarrow> ptr \<times> heap" where
  "kmalloc env h n =
     (let p = kmalloc_at env h n
      in if p = NULL then (NULL, h) else (p, h(p \<mapsto> replicate (unat n) None)))"

text \<open>A failed \<open>krealloc\<close> returns NULL and leaves the old block alone.\<close>

definition krealloc :: "kernel_env \<Rightarrow> heap \<Rightarrow> ptr \<Rightarrow> size_t \<Rightarrow> (ptr \<times> heap) cres" where
  "krealloc env h p n =
     (let q = krealloc_at env h p n in
      if p = NULL then
        Inr (if q = NULL then (NULL, h) else (q, h(q \<mapsto> replicate (unat n) None)))
      else case h p of None \<Rightarrow> Inl UseAfterFree
      | Some blk \<Rightarrow>
          Inr (if q = NULL then (NULL, h)
               else (q, (h(p := None))(q \<mapsto> take (unat n) blk @ replicate (unat n - length blk) None))))"

definition kfree :: "heap \<Rightarrow> ptr \<Rightarrow> heap cres" where
  "kfree h p =
     (if p = NULL then Inr h
      else case h p of None \<Rightarrow> Inl BadFree | Some _ \<Rightarrow> Inr (h(p := None)))"

text \<open>
  \<open>copy_from_user\<close> and \<open>copy_to_user\<close> return the number of bytes they could not copy.
  User memory is the run of bytes that can be read at the user address (\<open>ubuf\<close>), or the
  number of bytes that can be written there (\<open>room\<close>). A short \<open>copy_from_user\<close> pads
  with zeros. The second result of \<open>copy_to_user\<close> is what user space then sees.
\<close>

definition copy_from_user :: "heap \<Rightarrow> ptr \<Rightarrow> byte list \<Rightarrow> size_t \<Rightarrow> (size_t \<times> heap) cres" where
  "copy_from_user h p ubuf n =
     (let got = take (unat n) ubuf in
      cbind (store h p 0 (map Some got @ replicate (unat n - length got) (Some (CHR 0x00)))) (\<lambda>h'.
      Inr (word_of_nat (unat n - length got), h')))"

definition copy_to_user :: "heap \<Rightarrow> nat \<Rightarrow> ptr \<Rightarrow> nat \<Rightarrow> size_t \<Rightarrow> (size_t \<times> cells) cres" where
  "copy_to_user h room p i n =
     cbind (load h p i (unat n)) (\<lambda>cs.
     Inr (word_of_nat (unat n - room), take room cs))"

datatype mutex = Unlocked | Locked

text \<open>
  A handler runs to its end before the next starts as far as the mutex is concerned, so a
  mutex found locked was left locked by an earlier call and nobody will release it.
\<close>

definition mutex_lock_interruptible :: "kernel_env \<Rightarrow> mutex \<Rightarrow> (int \<times> mutex) cres" where
  "mutex_lock_interruptible env m =
     (if interrupted env then Inr (-4, m)
      else case m of Unlocked \<Rightarrow> Inr (0, Locked) | Locked \<Rightarrow> Inl Deadlock)"

definition mutex_unlock :: "mutex \<Rightarrow> mutex" where
  "mutex_unlock m = Unlocked"

section \<open>Facts about the services\<close>

named_theorems heap_simps \<open>evaluation of the memory services on a live block\<close>

lemma load_live [heap_simps]:
  "h p = Some blk \<Longrightarrow> p \<noteq> 0 \<Longrightarrow> i + n \<le> length blk \<Longrightarrow> load h p i n = Inr (take n (drop i blk))"
  by (simp add: load_def)

lemma store_live [heap_simps]:
  "h p = Some blk \<Longrightarrow> p \<noteq> 0 \<Longrightarrow> i + length cs \<le> length blk \<Longrightarrow>
     store h p i cs = Inr (h(p \<mapsto> take i blk @ cs @ drop (i + length cs) blk))"
  by (simp add: store_def)

lemma kfree_live [heap_simps]: "h p = Some blk \<Longrightarrow> p \<noteq> 0 \<Longrightarrow> kfree h p = Inr (h(p := None))"
  by (simp add: kfree_def)

lemma kfree_NULL [simp]: "kfree h 0 = Inr h"
  by (simp add: kfree_def)

lemma memchr_SomeD: "memchr c cs = Some k \<Longrightarrow> k < length cs \<and> cs ! k = Some c"
  by (induction c cs arbitrary: k rule: memchr.induct) (auto split: if_splits)

lemma memchr_None_iff: "memchr c cs = None \<longleftrightarrow> Some c \<notin> set cs"
  by (induction c cs rule: memchr.induct) auto

lemma memchr_first: "memchr c cs = Some k \<Longrightarrow> Some c \<notin> set (take k cs)"
  by (induction c cs arbitrary: k rule: memchr.induct) (auto split: if_splits)

section \<open>A kernel that exists\<close>

text \<open>
  An allocator with room for a few blocks that satisfies \<open>allocator_ok\<close>: it takes the
  first free address below 64.
\<close>

definition sample_addresses :: "ptr list" where
  "sample_addresses = [1..<64]"

definition first_free :: "heap \<Rightarrow> size_t \<Rightarrow> ptr" where
  "first_free h n =
     (if unat n \<le> KMALLOC_MAX
      then (case List.find (\<lambda>a. h a = None) sample_addresses of None \<Rightarrow> NULL | Some a \<Rightarrow> a) else NULL)"

definition sample_env :: kernel_env where
  "sample_env = \<lparr>interrupted = False, kmalloc_at = first_free, krealloc_at = (\<lambda>h p n. first_free h n)\<rparr>"

lemma find_SomeD: "List.find P xs = Some a \<Longrightarrow> P a"
  by (metis find_Some_iff)

lemma first_free_fresh: "first_free h n \<noteq> 0 \<Longrightarrow> h (first_free h n) = None \<and> unat n \<le> KMALLOC_MAX"
proof (cases "List.find (\<lambda>a. h a = None) sample_addresses")
  case None
  show "first_free h n \<noteq> 0 \<Longrightarrow> ?thesis"
    unfolding first_free_def None by (simp split: if_splits)
next
  case (Some a)
  have "h a = None" using find_SomeD [OF Some] by simp
  then show "first_free h n \<noteq> 0 \<Longrightarrow> ?thesis"
    unfolding first_free_def Some by (simp split: if_splits)
qed

lemma sample_env_ok: "allocator_ok sample_env"
  using first_free_fresh by (simp add: allocator_ok_def sample_env_def)

lemma first_free_finds:
  assumes "finite (dom h)" "card (dom h) \<le> 32" "unat n \<le> KMALLOC_MAX"
  shows "first_free h n \<noteq> 0"
proof (cases "List.find (\<lambda>a. h a = None) sample_addresses")
  case None
  then have "set sample_addresses \<subseteq> dom h"
    unfolding find_None_iff by auto
  then have "card (set sample_addresses) \<le> card (dom h)"
    using assms(1) by (simp add: card_mono)
  with assms(2) show ?thesis by (simp add: sample_addresses_def)
next
  case (Some a)
  then obtain i where "i < length sample_addresses" "a = sample_addresses ! i"
    unfolding find_Some_iff by blast
  then have "a \<in> set sample_addresses" by simp
  then have "a \<noteq> 0" by (auto simp: sample_addresses_def)
  with assms(3) show ?thesis unfolding first_free_def Some by simp
qed

lemma sample_env_available: "memory_available sample_env"
  using first_free_finds by (simp add: memory_available_def sample_env_def)

end
