(* ===== verification/Char_Driver.thy ===== *)
theory Char_Driver
  imports Circular_Buffer Kernel_Services "HOL-Library.Signed_Division"
begin

unbundle bit_operations_syntax

text \<open>
  \<open>aesd-char-driver/aesdchar.h\<close>, \<open>aesd_ioctl.h\<close> and \<open>main.c\<close>: the character device.
  The one \<open>struct aesd_dev\<close> and the kernel heap are the state \<open>driver\<close>; an open file
  is a record with its position and its \<open>private_data\<close>. Each file operation is a function
  from the kernel's decisions, the state and the arguments of the call to the returned value
  and the new state, with the labels of the C code as its last steps. The \<open>PDEBUG\<close> lines
  are compiled in (\<open>AESD_DEBUG\<close> is defined), so the pointers they dereference are
  dereferenced here; what they print is not modelled.
\<close>

section \<open>Data\<close>

record aesd_dev =
  current_entry :: aesd_buffer_entry
  c_buffer :: aesd_circular_buffer
  buffer_lock :: mutex

record driver =
  aesd_device :: aesd_dev
  kheap :: heap

text \<open>The pointer to the device that \<open>container_of\<close> computes, or NULL.\<close>

datatype devptr = Null_dev | Aesd_dev

record open_file =
  f_pos :: loff_t
  private_data :: devptr

record inode =
  i_cdev :: devptr

record aesd_seekto =
  write_cmd :: uint32_t
  write_cmd_offset :: uint32_t

text \<open>\<open>_IOWR\<close> packs direction, argument size, type and number into a command.\<close>

definition IOWR :: "uint32_t \<Rightarrow> uint32_t \<Rightarrow> uint32_t \<Rightarrow> uint32_t" where
  "IOWR typ nr sz = push_bit 30 3 OR push_bit 16 sz OR push_bit 8 typ OR nr"

definition AESDCHAR_IOCSEEKTO :: uint32_t where
  "AESDCHAR_IOCSEEKTO = IOWR 0x16 1 8"

section \<open>Access to the device\<close>

definition set_lock :: "mutex \<Rightarrow> driver \<Rightarrow> driver" where
  "set_lock m s = s\<lparr>aesd_device := (aesd_device s)\<lparr>buffer_lock := m\<rparr>\<rparr>"

definition unlock :: "driver \<Rightarrow> driver" where
  "unlock s = set_lock (mutex_unlock (buffer_lock (aesd_device s))) s"

definition set_current :: "ptr \<Rightarrow> size_t \<Rightarrow> driver \<Rightarrow> driver" where
  "set_current p n s =
     s\<lparr>aesd_device := (aesd_device s)\<lparr>current_entry := \<lparr>buffptr = p, esize = n\<rparr>\<rparr>\<rparr>"

text \<open>\<open>struct aesd_dev *driver = filp->private_data\<close>, whose fields are read later.\<close>

definition device_of :: "open_file \<Rightarrow> driver \<Rightarrow> aesd_dev cres" where
  "device_of fp s = (case private_data fp of Null_dev \<Rightarrow> Inl NullDeref | Aesd_dev \<Rightarrow> Inr (aesd_device s))"

section \<open>open and release\<close>

definition aesd_open :: "inode \<Rightarrow> open_file \<Rightarrow> 32 word \<times> open_file" where
  "aesd_open i filp = (0, filp\<lparr>private_data := i_cdev i\<rparr>)"

definition aesd_release :: "inode \<Rightarrow> open_file \<Rightarrow> 32 word \<times> open_file" where
  "aesd_release i filp = (0, filp)"

section \<open>read\<close>

text \<open>
  The result is the returned value, what user space sees in its buffer, the value of
  \<open>*f_pos\<close> and the state. \<open>buf\<close> is \<open>None\<close> for NULL, else the writable room there.
\<close>

definition aesd_read ::
    "kernel_env \<Rightarrow> driver \<Rightarrow> open_file option \<Rightarrow> nat option \<Rightarrow> size_t \<Rightarrow> loff_t option
     \<Rightarrow> (ssize_t \<times> cells \<times> loff_t \<times> driver) cres" where
  "aesd_read env s filp buf count pos_ptr =
     (case pos_ptr of None \<Rightarrow> Inl NullDeref
      | Some pos \<Rightarrow>
     (case (filp, buf) of
        (Some fp, Some room) \<Rightarrow>
          if pos <s 0 \<or> count = 0 then Inr (- EINVAL, [], pos, s)
          else
          cbind (device_of fp s) (\<lambda>dev.
          cbind (mutex_lock_interruptible env (buffer_lock dev)) (\<lambda>(rc, m).
          if rc \<noteq> 0 then Inr (- ERESTARTSYS, [], pos, s)
          else
          let s1 = set_lock m s in
          cbind (aesd_circular_buffer_find_entry_offset_for_fpos (Some (c_buffer dev)) pos) (\<lambda>found.
          case found of
            None \<Rightarrow> Inr (0, [], pos, unlock s1)
          | Some (index, entry_offset) \<Rightarrow>
              cbind (c_nth (entry (c_buffer dev)) (unat index)) (\<lambda>e.
              let bytes_to_copy = esize e - entry_offset;
                  bytes_to_copy = (if count < bytes_to_copy then count else bytes_to_copy) in
              cbind (copy_to_user (kheap s1) room (buffptr e) (unat entry_offset) bytes_to_copy) (\<lambda>(left, seen).
              if left \<noteq> 0 then Inr (- EFAULT, seen, pos, unlock s1)
              else Inr (bytes_to_copy, seen, pos + bytes_to_copy, unlock s1))))))
      | _ \<Rightarrow> Inr (- EINVAL, [], pos, s)))"

section \<open>write\<close>

text \<open>The label \<open>free_mutex\<close>, which falls through to \<open>free_kbuf\<close>.\<close>

definition free_kbuf :: "ssize_t \<Rightarrow> ptr \<Rightarrow> driver \<Rightarrow> (ssize_t \<times> driver) cres" where
  "free_kbuf retval kbuf s = cbind (kfree (kheap s) kbuf) (\<lambda>h. Inr (retval, s\<lparr>kheap := h\<rparr>))"

definition free_mutex :: "ssize_t \<Rightarrow> ptr \<Rightarrow> driver \<Rightarrow> (ssize_t \<times> driver) cres" where
  "free_mutex retval kbuf s = free_kbuf retval kbuf (unlock s)"

text \<open>
  Appending the bytes of the current command to the pending entry. A failed \<open>krealloc\<close>
  stores NULL in \<open>current_entry.buffptr\<close> (first component \<open>False\<close>).
\<close>

definition append_current :: "kernel_env \<Rightarrow> driver \<Rightarrow> ptr \<Rightarrow> size_t \<Rightarrow> (bool \<times> driver) cres" where
  "append_current env s kbuf current_cmd_bytes =
     (let cur = current_entry (aesd_device s) in
      cbind (krealloc env (kheap s) (buffptr cur) (esize cur + current_cmd_bytes)) (\<lambda>(p, h).
      if p = NULL then Inr (False, set_current NULL (esize cur) (s\<lparr>kheap := h\<rparr>))
      else
      cbind (memcpy h p (unat (esize cur)) kbuf 0 (unat current_cmd_bytes)) (\<lambda>h'.
      Inr (True, set_current p (esize cur + current_cmd_bytes) (s\<lparr>kheap := h'\<rparr>)))))"

text \<open>
  The block under \<open>if(newline_found)\<close>: push the pending entry, free what it displaced, keep
  the bytes behind the newline as the new pending entry.
\<close>

definition commit_current ::
    "kernel_env \<Rightarrow> driver \<Rightarrow> ptr \<Rightarrow> size_t \<Rightarrow> size_t \<Rightarrow> size_t \<Rightarrow> (ssize_t \<times> driver) cres" where
  "commit_current env s kbuf current_cmd_bytes next_cmd_bytes count =
     (let dev = aesd_device s in
      cbind (cb_push (c_buffer dev) (current_entry dev)) (\<lambda>(overwritten_buffptr, cb).
      cbind (if overwritten_buffptr \<noteq> NULL then kfree (kheap s) overwritten_buffptr else Inr (kheap s)) (\<lambda>h.
      let s1 = set_current NULL 0 (s\<lparr>aesd_device := dev\<lparr>c_buffer := cb\<rparr>, kheap := h\<rparr>) in
      if 0 < next_cmd_bytes then
        let (p, h1) = kmalloc env (kheap s1) next_cmd_bytes in
        if p = NULL then Inr (current_cmd_bytes, set_current NULL 0 (s1\<lparr>kheap := h1\<rparr>))
        else
        cbind (memcpy h1 p 0 kbuf (unat current_cmd_bytes) (unat next_cmd_bytes)) (\<lambda>h2.
        Inr (count, set_current p next_cmd_bytes (s1\<lparr>kheap := h2\<rparr>)))
      else Inr (current_cmd_bytes, s1))))"

text \<open>\<open>buf\<close> is \<open>None\<close> for NULL, else the bytes that can be read there.\<close>

definition aesd_write ::
    "kernel_env \<Rightarrow> driver \<Rightarrow> open_file option \<Rightarrow> byte list option \<Rightarrow> size_t \<Rightarrow> loff_t option
     \<Rightarrow> (ssize_t \<times> driver) cres" where
  "aesd_write env s filp buf count pos_ptr =
     (case (filp, pos_ptr) of
        (Some fp, Some pos) \<Rightarrow>
     (case buf of None \<Rightarrow> Inr (- EINVAL, s)
      | Some ubuf \<Rightarrow>
          if pos <s 0 \<or> count = 0 then Inr (- EINVAL, s)
          else
          cbind (device_of fp s) (\<lambda>dev.
          cbind (mutex_lock_interruptible env (buffer_lock dev)) (\<lambda>(rc, m).
          if rc \<noteq> 0 then Inr (- ERESTARTSYS, s)
          else
          let s1 = set_lock m s;
              (kbuf, h1) = kmalloc env (kheap s1) count;
              s2 = s1\<lparr>kheap := h1\<rparr> in
          if kbuf = NULL then free_mutex (- ENOMEM) kbuf s2
          else
          cbind (copy_from_user (kheap s2) kbuf ubuf count) (\<lambda>(left, h2).
          let s3 = s2\<lparr>kheap := h2\<rparr> in
          if left \<noteq> 0 then free_kbuf (- EFAULT) kbuf s3
          else
          cbind (load (kheap s3) kbuf 0 (unat count)) (\<lambda>cs.
          let newline_pos = memchr (CHR 0x0A) cs;
              current_cmd_bytes = (case newline_pos of Some k \<Rightarrow> word_of_nat (Suc k) | None \<Rightarrow> count);
              next_cmd_bytes = (case newline_pos of Some k \<Rightarrow> count - current_cmd_bytes | None \<Rightarrow> 0) in
          cbind (append_current env s3 kbuf current_cmd_bytes) (\<lambda>(ok, s4).
          if \<not> ok then free_mutex (- ENOMEM) kbuf s4
          else if newline_pos \<noteq> None then
            cbind (commit_current env s4 kbuf current_cmd_bytes next_cmd_bytes count) (\<lambda>(retval, s5).
            free_mutex retval kbuf s5)
          else free_mutex current_cmd_bytes kbuf s4))))))
      | _ \<Rightarrow> Inl NullDeref)"

section \<open>llseek\<close>

abbreviation (input) SEEK_SET :: int where "SEEK_SET \<equiv> 0"
abbreviation (input) SEEK_CUR :: int where "SEEK_CUR \<equiv> 1"
abbreviation (input) SEEK_END :: int where "SEEK_END \<equiv> 2"

definition total_size :: "aesd_circular_buffer \<Rightarrow> size_t cres" where
  "total_size b = AESD_CIRCULAR_BUFFER_FOREACH (\<lambda>e total. Inr (total + esize e)) b 0"

definition aesd_llseek ::
    "kernel_env \<Rightarrow> driver \<Rightarrow> open_file \<Rightarrow> loff_t \<Rightarrow> int \<Rightarrow> (loff_t \<times> open_file \<times> driver) cres" where
  "aesd_llseek env s filp off whence =
     cbind (device_of filp s) (\<lambda>dev.
     cbind (mutex_lock_interruptible env (buffer_lock dev)) (\<lambda>(rc, m).
     if rc \<noteq> 0 then Inr (- EINVAL, filp, s)
     else
     let s1 = set_lock m s in
     cbind (if whence = SEEK_SET then Inr (Some off)
            else if whence = SEEK_CUR then Inr (Some (f_pos filp + off))
            else if whence = SEEK_END then cbind (total_size (c_buffer dev)) (\<lambda>total. Inr (Some (total + off)))
            else Inr None) (\<lambda>newpos.
     case newpos of
       None \<Rightarrow> Inr (- EINVAL, filp, s1)
     | Some p \<Rightarrow>
         if p <s 0 then Inr (- EINVAL, filp, s1)
         else Inr (p, filp\<lparr>f_pos := p\<rparr>, unlock s1))))"

section \<open>ioctl\<close>

text \<open>
  The loop counter is an \<open>int\<close> compared with an \<open>unsigned\<close>. The kernel is compiled with
  wrapping signed arithmetic, so the sum \<open>out_offs + i\<close> is a signed 32-bit one, and its remainder
  has the sign of the sum: a negative one is an index before the array.
\<close>

function ioctl_loop :: "aesd_circular_buffer \<Rightarrow> uint32_t \<Rightarrow> nat \<Rightarrow> 64 word \<Rightarrow> 64 word cres" where
  "ioctl_loop b cmd i retval =
     (if i < unat cmd then
        let k = sint (ucast (out_offs b) + word_of_nat i :: 32 word)
                  smod int AESDCHAR_MAX_WRITE_OPERATIONS_SUPPORTED in
        if k < 0 then Inl OutOfBounds
        else cbind (c_nth (entry b) (nat k)) (\<lambda>e. ioctl_loop b cmd (Suc i) (retval + esize e))
      else Inr retval)"
  by pat_completeness auto
termination
  by (relation "measure (\<lambda>(b, cmd, i, r). unat cmd - i)") auto

declare ioctl_loop.simps [simp del]

text \<open>
  \<open>arg\<close> is the user's \<open>struct aesd_seekto\<close>, or \<open>None\<close> where its eight bytes cannot
  all be read.
\<close>

definition aesd_ioctl ::
    "kernel_env \<Rightarrow> driver \<Rightarrow> open_file \<Rightarrow> uint32_t \<Rightarrow> aesd_seekto option \<Rightarrow> (64 word \<times> open_file \<times> driver) cres" where
  "aesd_ioctl env s filp cmd arg =
     (if cmd \<noteq> AESDCHAR_IOCSEEKTO then Inr (- ENOTTY, filp, s)
      else case arg of None \<Rightarrow> Inr (- EFAULT, filp, s)
      | Some seek_cmd \<Rightarrow>
          cbind (device_of filp s) (\<lambda>dev.
          cbind (mutex_lock_interruptible env (buffer_lock dev)) (\<lambda>(rc, m).
          if rc \<noteq> 0 then Inr (- EINVAL, filp, s)
          else
          let s1 = set_lock m s;
              b = c_buffer dev;
              num_entries = (if full b then 10 else in_offs b - out_offs b :: uint8_t) in
          if \<not> full b \<and> unat num_entries \<le> unat (write_cmd seek_cmd)
          then Inr (- EINVAL, filp, unlock s1)
          else
          cbind (ioctl_loop b (write_cmd seek_cmd) 0 0) (\<lambda>retval.
          cbind (c_nth (entry b) (unat (ucast (out_offs b) + write_cmd seek_cmd)
                   mod AESDCHAR_MAX_WRITE_OPERATIONS_SUPPORTED)) (\<lambda>e.
          if esize e < ucast (write_cmd_offset seek_cmd)
          then Inr (- EINVAL, filp, unlock s1)
          else
          let retval' = retval + ucast (write_cmd_offset seek_cmd) in
          Inr (retval', filp\<lparr>f_pos := retval'\<rparr>, unlock s1))))))"

section \<open>Loading and unloading the module\<close>

text \<open>
  The module's globals and what is registered with the kernel: the device number region
  and the number the \<open>cdev\<close> was added under.
\<close>

record module_state =
  aesd_major :: "32 word"
  aesd_minor :: "32 word"
  chrdev_region :: "32 word option"
  cdev_number :: "32 word option"
  drv :: driver

definition MKDEV :: "32 word \<Rightarrow> 32 word \<Rightarrow> 32 word" where
  "MKDEV ma mi = push_bit 20 ma OR mi"

definition MAJOR :: "32 word \<Rightarrow> 32 word" where
  "MAJOR dev = drop_bit 20 dev"

text \<open>\<open>add_result\<close> is what \<open>cdev_add\<close> returns: 0, or a negative error.\<close>

definition aesd_setup_cdev :: "int \<Rightarrow> module_state \<Rightarrow> int \<times> module_state" where
  "aesd_setup_cdev add_result ms =
     (let devno = MKDEV (aesd_major ms) (aesd_minor ms) in
      (add_result, if add_result = 0 then ms\<lparr>cdev_number := Some devno\<rparr> else ms))"

definition unregister_chrdev_region :: "32 word \<Rightarrow> module_state \<Rightarrow> module_state" where
  "unregister_chrdev_region dev ms =
     (if chrdev_region ms = Some dev then ms\<lparr>chrdev_region := None\<rparr> else ms)"

text \<open>
  \<open>alloc_chrdev_region\<close> returns \<open>alloc_result\<close> and stores \<open>new_dev\<close> unless it failed;
  \<open>memset\<close> clears the device, then the mutex and the ring are initialised.
\<close>

definition zero_dev :: aesd_dev where
  "zero_dev = \<lparr>current_entry = zero_entry, c_buffer = empty_buffer, buffer_lock = Unlocked\<rparr>"

definition aesd_init_module :: "int \<Rightarrow> 32 word \<Rightarrow> int \<Rightarrow> module_state \<Rightarrow> int \<times> module_state" where
  "aesd_init_module alloc_result new_dev add_result ms =
     (let dev = (if alloc_result < 0 then 0 else new_dev);
          ms1 = (if alloc_result < 0 then ms else ms\<lparr>chrdev_region := Some dev\<rparr>)\<lparr>aesd_major := MAJOR dev\<rparr> in
      if alloc_result < 0 then (alloc_result, ms1)
      else
      let dev1 = zero_dev\<lparr>buffer_lock := Unlocked\<rparr>;
          dev2 = dev1\<lparr>c_buffer := aesd_circular_buffer_init (c_buffer dev1)\<rparr>;
          ms2 = ms1\<lparr>drv := (drv ms1)\<lparr>aesd_device := dev2\<rparr>\<rparr>;
          (result, ms3) = aesd_setup_cdev add_result ms2 in
      if result \<noteq> 0 then (result, unregister_chrdev_region dev ms3) else (result, ms3))"

definition aesd_cleanup_module :: "module_state \<Rightarrow> module_state cres" where
  "aesd_cleanup_module ms =
     (let devno = MKDEV (aesd_major ms) (aesd_minor ms);
          ms1 = ms\<lparr>cdev_number := None\<rparr> in
      cbind (AESD_CIRCULAR_BUFFER_FOREACH
               (\<lambda>e h. if buffptr e \<noteq> NULL then kfree h (buffptr e) else Inr h)
               (c_buffer (aesd_device (drv ms1))) (kheap (drv ms1))) (\<lambda>h.
      Inr (unregister_chrdev_region devno (ms1\<lparr>drv := (drv ms1)\<lparr>kheap := h\<rparr>\<rparr>))))"

end
