(* ===== verification/Driver_Memory.thy ===== *)
theory Driver_Memory
  imports Char_Driver
begin

text \<open>
  The memory of the driver: which blocks it owns, the invariant \<open>mem_inv\<close> that every owned
  entry is a live block of its recorded size and no block is owned twice, and what the three
  stages of \<open>aesd_write\<close> (append to the pending entry, commit it, release the temporary
  buffer) do to the heap. The view of a state is the list of stored commands and the pending
  bytes as memory cells, so that it is also defined when a cell was never written.
\<close>

section \<open>Ownership\<close>

abbreviation dev_items :: "driver \<Rightarrow> aesd_buffer_entry list" where
  "dev_items s \<equiv> cb_items (c_buffer (aesd_device s))"

abbreviation cur :: "driver \<Rightarrow> aesd_buffer_entry" where
  "cur s \<equiv> current_entry (aesd_device s)"

definition live_entries :: "driver \<Rightarrow> aesd_buffer_entry list" where
  "live_entries s = dev_items s @ (if buffptr (cur s) = NULL then [] else [cur s])"

definition owned :: "driver \<Rightarrow> ptr set" where
  "owned s = buffptr ` set (live_entries s)"

definition entry_ok :: "heap \<Rightarrow> aesd_buffer_entry \<Rightarrow> bool" where
  "entry_ok h e \<longleftrightarrow> buffptr e \<noteq> NULL \<and> esize e \<noteq> 0 \<and> unat (esize e) \<le> KMALLOC_MAX \<and>
     (case h (buffptr e) of None \<Rightarrow> False | Some blk \<Rightarrow> length blk = unat (esize e))"

definition mem_inv :: "driver \<Rightarrow> bool" where
  "mem_inv s \<longleftrightarrow>
     cb_inv (c_buffer (aesd_device s)) \<and>
     list_all (entry_ok (kheap s)) (live_entries s) \<and>
     distinct (map buffptr (live_entries s)) \<and>
     unat (esize (cur s)) \<le> KMALLOC_MAX \<and>
     kheap s NULL = None"

text \<open>Live blocks that no entry points to.\<close>

definition garbage :: "driver \<Rightarrow> ptr set" where
  "garbage s = dom (kheap s) - owned s"

section \<open>The view\<close>

definition cells_of :: "heap \<Rightarrow> aesd_buffer_entry \<Rightarrow> cells" where
  "cells_of h e = (case h (buffptr e) of None \<Rightarrow> [] | Some blk \<Rightarrow> blk)"

definition cur_cells :: "driver \<Rightarrow> cells" where
  "cur_cells s = (if buffptr (cur s) = NULL then replicate (unat (esize (cur s))) None
                  else cells_of (kheap s) (cur s))"

record view =
  cmds :: "cells list"
  pending :: cells

definition view_of :: "driver \<Rightarrow> view" where
  "view_of s = \<lparr>cmds = map (cells_of (kheap s)) (dev_items s), pending = cur_cells s\<rparr>"

section \<open>Framing\<close>

lemma entry_ok_upd: "p \<noteq> buffptr e \<Longrightarrow> entry_ok (h(p := x)) e = entry_ok h e"
  by (simp add: entry_ok_def)

lemma cells_of_upd: "p \<noteq> buffptr e \<Longrightarrow> cells_of (h(p := x)) e = cells_of h e"
  by (simp add: cells_of_def)

lemma entry_ok_cells: "entry_ok h e \<Longrightarrow> h (buffptr e) = Some (cells_of h e) \<and> length (cells_of h e) = unat (esize e)"
  by (auto simp: entry_ok_def cells_of_def split: option.splits)

lemma entry_okI:
  "h p = Some blk \<Longrightarrow> length blk = unat n \<Longrightarrow> p \<noteq> 0 \<Longrightarrow> n \<noteq> 0 \<Longrightarrow> unat n \<le> KMALLOC_MAX \<Longrightarrow>
     entry_ok h \<lparr>buffptr = p, esize = n\<rparr>"
  by (simp add: entry_ok_def)

lemma list_all_entry_ok_upd:
  "p \<notin> buffptr ` set es \<Longrightarrow> list_all (entry_ok (h(p := x))) es = list_all (entry_ok h) es"
  unfolding list_all_iff by (rule ball_cong) (auto simp: entry_ok_upd image_iff)

lemma map_cells_of_upd:
  "p \<notin> buffptr ` set es \<Longrightarrow> map (cells_of (h(p := x))) es = map (cells_of h) es"
  by (auto simp: cells_of_upd image_iff)

lemma live_entries_heap [simp]: "live_entries (s\<lparr>kheap := h\<rparr>) = live_entries s"
  by (simp add: live_entries_def)

lemma owned_heap [simp]: "owned (s\<lparr>kheap := h\<rparr>) = owned s"
  by (simp add: owned_def)

lemma set_lock_sel [simp]:
  "kheap (set_lock m s) = kheap s"
  "c_buffer (aesd_device (set_lock m s)) = c_buffer (aesd_device s)"
  "cur (set_lock m s) = cur s"
  "buffer_lock (aesd_device (set_lock m s)) = m"
  by (simp_all add: set_lock_def)

lemma unlock_set_lock: "unlock s = set_lock Unlocked s"
  by (simp add: unlock_def mutex_unlock_def)

lemma set_lock_view [simp]:
  "live_entries (set_lock m s) = live_entries s"
  "owned (set_lock m s) = owned s"
  "view_of (set_lock m s) = view_of s"
  "mem_inv (set_lock m s) = mem_inv s"
  by (simp_all add: live_entries_def owned_def view_of_def cur_cells_def mem_inv_def)

lemma set_lock_twice [simp]: "set_lock m (set_lock m' s) = set_lock m s"
  by (simp add: set_lock_def)

lemma set_lock_same: "buffer_lock (aesd_device s) = m \<Longrightarrow> set_lock m s = s"
  by (auto simp: set_lock_def)

lemma mem_inv_heap_other:
  assumes "mem_inv s" "p \<notin> owned s" "p \<noteq> 0"
  shows "mem_inv (s\<lparr>kheap := (kheap s)(p := x)\<rparr>)"
  using assms list_all_entry_ok_upd [of p "live_entries s" "kheap s" x]
  by (simp add: mem_inv_def owned_def)

lemma view_of_heap_other:
  assumes "mem_inv s" "p \<notin> owned s"
  shows "view_of (s\<lparr>kheap := (kheap s)(p := x)\<rparr>) = view_of s"
  using assms by (auto simp: view_of_def owned_def live_entries_def cur_cells_def cells_of_upd image_iff)

lemma mem_inv_items:
  "mem_inv s \<Longrightarrow> e \<in> set (dev_items s) \<Longrightarrow> entry_ok (kheap s) e"
  by (simp add: mem_inv_def live_entries_def list_all_iff)

lemma items_ptr:
  assumes "mem_inv s" "e \<in> set (dev_items s)"
  shows "buffptr e \<noteq> 0" and "buffptr (cur s) \<noteq> buffptr e"
proof -
  show ne: "buffptr e \<noteq> 0"
    using mem_inv_items [OF assms] by (simp add: entry_ok_def)
  show "buffptr (cur s) \<noteq> buffptr e"
    using assms ne by (cases "buffptr (cur s) = 0") (auto simp: mem_inv_def live_entries_def)
qed

lemma length_cur_cells: "mem_inv s \<Longrightarrow> length (cur_cells s) = unat (esize (cur s))"
  using entry_ok_cells [of "kheap s" "cur s"]
  by (auto simp: mem_inv_def live_entries_def cur_cells_def)

lemma owned_live: "mem_inv s \<Longrightarrow> p \<in> owned s \<Longrightarrow> kheap s p \<noteq> None"
  using entry_ok_cells [of "kheap s"] by (auto simp: mem_inv_def owned_def list_all_iff)

section \<open>Appending to the pending entry\<close>

lemma set_current_sel [simp]:
  "kheap (set_current p n s) = kheap s"
  "c_buffer (aesd_device (set_current p n s)) = c_buffer (aesd_device s)"
  "cur (set_current p n s) = \<lparr>buffptr = p, esize = n\<rparr>"
  "buffer_lock (aesd_device (set_current p n s)) = buffer_lock (aesd_device s)"
  by (simp_all add: set_current_def)

text \<open>A temporary block: live, not owned by any entry, of at most the slab limit.\<close>

definition temp_block :: "driver \<Rightarrow> ptr \<Rightarrow> cells \<Rightarrow> bool" where
  "temp_block s p blk \<longleftrightarrow> kheap s p = Some blk \<and> p \<noteq> NULL \<and> p \<notin> owned s \<and> length blk \<le> KMALLOC_MAX"

lemma append_size:
  assumes "mem_inv s" "temp_block s kbuf kb" "unat n \<le> length kb"
  shows "unat (esize (cur s) + n) = unat (esize (cur s)) + unat n"
  using assms by (intro unat_add_no_overflow) (simp add: mem_inv_def temp_block_def)

lemma append_current_eq:
  assumes inv: "mem_inv s" and alloc: "allocator_ok env"
    and kb: "temp_block s kbuf kb" and n: "unat n \<le> length kb"
    and q: "q = krealloc_at env (kheap s) (buffptr (cur s)) (esize (cur s) + n)"
  shows "append_current env s kbuf n = Inr
    (if q = 0 then (False, set_current NULL (esize (cur s)) s)
     else (True, set_current q (esize (cur s) + n)
       (s\<lparr>kheap := (kheap s)(buffptr (cur s) := None, q \<mapsto> cur_cells s @ take (unat n) kb)\<rparr>)))"
proof (cases "buffptr (cur s) = 0")
  case True
  have q0: "krealloc_at env (kheap s) 0 (esize (cur s) + n) = q"
    using q True by simp
  have h0: "(kheap s)(0 := None) = kheap s"
    using inv by (simp add: mem_inv_def fun_upd_idem)
  have "q \<noteq> 0 \<Longrightarrow> q \<noteq> kbuf"
    using krealloc_at_fresh [OF alloc, of "kheap s" 0 "esize (cur s) + n"] kb
    by (auto simp: q0 temp_block_def)
  with True h0 kb n append_size [OF inv kb n] show ?thesis
    by (cases "q = 0") (simp_all add: append_current_def krealloc_def Let_def q0 memcpy_def heap_simps
        temp_block_def cur_cells_def)
next
  case False
  let ?p = "buffptr (cur s)"
  let ?blk = "cells_of (kheap s) (cur s)"
  have live: "kheap s ?p = Some ?blk" and len: "length ?blk = unat (esize (cur s))"
    using False inv entry_ok_cells [of "kheap s" "cur s"] by (auto simp: mem_inv_def live_entries_def)
  have "?p \<noteq> kbuf"
    using False kb by (auto simp: temp_block_def owned_def live_entries_def)
  moreover from this have "q \<noteq> 0 \<Longrightarrow> q \<noteq> kbuf"
    using krealloc_at_fresh [OF alloc, of "kheap s" ?p "esize (cur s) + n"] kb
    by (auto simp: q temp_block_def)
  ultimately show ?thesis
    using False live len kb n append_size [OF inv kb n]
    by (cases "q = 0") (simp_all add: append_current_def krealloc_def Let_def q [symmetric] memcpy_def heap_simps
        temp_block_def cur_cells_def)
qed

lemma append_current_ok:
  assumes inv: "mem_inv s" and alloc: "allocator_ok env"
    and kb: "temp_block s kbuf kb" and n: "unat n \<le> length kb" "n \<noteq> 0"
    and q: "q = krealloc_at env (kheap s) (buffptr (cur s)) (esize (cur s) + n)" "q \<noteq> 0"
    and s': "s' = set_current q (esize (cur s) + n)
       (s\<lparr>kheap := (kheap s)(buffptr (cur s) := None, q \<mapsto> cur_cells s @ take (unat n) kb)\<rparr>)"
  shows "mem_inv s'" and "temp_block s' kbuf kb" and "buffptr (cur s') \<noteq> 0"
    and "view_of s' = view_of s\<lparr>pending := pending (view_of s) @ take (unat n) kb\<rparr>"
    and "dev_items s' = dev_items s"
proof -
  let ?p = "buffptr (cur s)" and ?n = "esize (cur s) + n"
  have size: "unat ?n = unat (esize (cur s)) + unat n"
    by (rule append_size [OF inv kb n(1)])
  have bound: "unat ?n \<le> KMALLOC_MAX"
    using krealloc_at_bound [OF alloc] q by simp
  have q_or: "q = ?p \<or> kheap s q = None"
    using krealloc_at_fresh [OF alloc, of "kheap s" ?p ?n] q by simp
  have items: "\<forall>e \<in> set (dev_items s). ?p \<noteq> buffptr e \<and> q \<noteq> buffptr e"
  proof
    fix e
    assume e: "e \<in> set (dev_items s)"
    from items_ptr [OF inv e] have ne: "?p \<noteq> buffptr e" by simp
    from entry_ok_cells [OF mem_inv_items [OF inv e]] have "kheap s (buffptr e) \<noteq> None" by simp
    with ne q_or show "?p \<noteq> buffptr e \<and> q \<noteq> buffptr e" by auto
  qed
  have kb_ne: "kbuf \<noteq> ?p" "kbuf \<noteq> q"
    using kb q_or q(2) by (auto simp: temp_block_def owned_def live_entries_def split: if_splits)
  have live': "live_entries s' = dev_items s @ [\<lparr>buffptr = q, esize = ?n\<rparr>]"
    using q(2) by (simp add: s' live_entries_def)
  have frame: "list_all (entry_ok (kheap s')) (dev_items s)"
    using inv items by (auto simp: s' list_all_iff entry_ok_upd dest: mem_inv_items)
  have "entry_ok (kheap s') \<lparr>buffptr = q, esize = ?n\<rparr>"
    using q(2) bound size n length_cur_cells [OF inv]
    by (intro entry_okI [where blk = "cur_cells s @ take (unat n) kb"])
      (auto simp: s' word_unat_eq_iff)
  moreover have "kheap s' 0 = None"
    using inv q(2) by (simp add: s' mem_inv_def)
  ultimately show "mem_inv s'"
    using inv frame live' items bound
    by (auto simp: mem_inv_def s' image_iff live_entries_def split: if_splits)
  show "temp_block s' kbuf kb"
    using kb kb_ne by (auto simp: temp_block_def owned_def live' s' live_entries_def split: if_splits)
  show "buffptr (cur s') \<noteq> 0" "dev_items s' = dev_items s"
    using q(2) by (simp_all add: s')
  have "map (cells_of (kheap s')) (dev_items s) = map (cells_of (kheap s)) (dev_items s)"
    using items by (auto simp: s' cells_of_upd)
  then show "view_of s' = view_of s\<lparr>pending := pending (view_of s) @ take (unat n) kb\<rparr>"
    using q(2) by (simp add: view_of_def s' cur_cells_def [of "set_current _ _ _"] cells_of_def [of _ "\<lparr>buffptr = _, esize = _\<rparr>"])
qed

lemma append_current_failed:
  assumes "mem_inv s"
  shows "mem_inv (set_current NULL (esize (cur s)) s)"
    and "view_of (set_current NULL (esize (cur s)) s) =
      view_of s\<lparr>pending := replicate (length (pending (view_of s))) None\<rparr>"
    and "owned (set_current NULL (esize (cur s)) s) = owned s - {buffptr (cur s)}"
proof -
  show "mem_inv (set_current NULL (esize (cur s)) s)"
    using assms by (simp add: mem_inv_def live_entries_def)
  show "view_of (set_current NULL (esize (cur s)) s) =
      view_of s\<lparr>pending := replicate (length (pending (view_of s))) None\<rparr>"
    using length_cur_cells [OF assms] by (simp add: view_of_def cur_cells_def)
  have "buffptr (cur s) \<notin> buffptr ` set (dev_items s)"
    using items_ptr [OF assms] by auto
  then show "owned (set_current NULL (esize (cur s)) s) = owned s - {buffptr (cur s)}"
    by (auto simp: owned_def live_entries_def)
qed

lemma append_current_garbage:
  assumes inv: "mem_inv s"
    and "q \<noteq> 0" "q = buffptr (cur s) \<or> kheap s q = None"
    and s': "s' = set_current q n (s\<lparr>kheap := (kheap s)(buffptr (cur s) := None, q \<mapsto> cs)\<rparr>)"
  shows "garbage s' = garbage s"
proof -
  have "owned s = buffptr ` set (dev_items s) \<union> ({buffptr (cur s)} - {0})"
    "owned s' = buffptr ` set (dev_items s) \<union> {q}"
    using assms(2) by (auto simp: s' owned_def live_entries_def)
  moreover have "kheap s 0 = None"
    using inv by (simp add: mem_inv_def)
  ultimately show ?thesis
    using assms(3) by (auto simp: garbage_def s' split: if_splits)
qed

section \<open>Committing the pending entry\<close>

definition after_push :: "aesd_circular_buffer \<Rightarrow> heap \<Rightarrow> driver \<Rightarrow> driver" where
  "after_push cb h s =
     set_current NULL 0 (s\<lparr>aesd_device := (aesd_device s)\<lparr>c_buffer := cb\<rparr>, kheap := h\<rparr>)"

lemma after_push_sel [simp]:
  "kheap (after_push cb h s) = h"
  "c_buffer (aesd_device (after_push cb h s)) = cb"
  "cur (after_push cb h s) = \<lparr>buffptr = 0, esize = 0\<rparr>"
  "buffer_lock (aesd_device (after_push cb h s)) = buffer_lock (aesd_device s)"
  "live_entries (after_push cb h s) = cb_items cb"
  by (simp_all add: after_push_def live_entries_def)

lemma push_stage:
  assumes inv: "mem_inv s" and cur: "buffptr (cur s) \<noteq> 0"
  shows "\<exists>r cb h. cb_push (c_buffer (aesd_device s)) (cur s) = Inr (r, cb) \<and>
     (if r \<noteq> NULL then kfree (kheap s) r else Inr (kheap s)) = Inr h \<and>
     mem_inv (after_push cb h s) \<and>
     view_of (after_push cb h s) =
       \<lparr>cmds = keep_last 10 (cmds (view_of s) @ [pending (view_of s)]), pending = []\<rparr> \<and>
     garbage (after_push cb h s) = garbage s \<and>
     owned (after_push cb h s) \<subseteq> owned s \<and> (\<forall>p. p \<notin> owned s \<longrightarrow> h p = kheap s p) \<and>
     dom h \<subseteq> dom (kheap s)"
proof -
  let ?b = "c_buffer (aesd_device s)" and ?L = "live_entries s"
  have L: "?L = dev_items s @ [cur s]"
    using cur by (simp add: live_entries_def)
  have cb: "cb_inv ?b" and ok: "list_all (entry_ok (kheap s)) ?L"
    and dist: "distinct (map buffptr ?L)" and h0: "kheap s 0 = None"
    using inv by (simp_all add: mem_inv_def)
  have cells: "cmds (view_of s) @ [pending (view_of s)] = map (cells_of (kheap s)) ?L"
    using cur by (simp add: view_of_def cur_cells_def L)
  from ok have "esize_ok (cur s)"
    by (simp add: L entry_ok_def esize_ok_def)
  from cb_push_law [OF cb this] obtain b' where b': "cb_push ?b (cur s) =
      Inr (if full ?b then buffptr (hd (dev_items s)) else 0, b')" "cb_inv b'"
      "cb_items b' = keep_last 10 ?L"
    by (auto simp: cb_push_def L)
  show ?thesis
  proof (cases "full ?b")
    case True
    with cb have len: "length (dev_items s) = 10" by (simp add: length_cb_items)
    then obtain e es where es: "dev_items s = e # es" by (cases "dev_items s") auto
    with len have len9: "length es = 9" by simp
    from es len have items': "cb_items b' = es @ [cur s]" "?L = e # es @ [cur s]"
      by (simp_all add: b'(3) L keep_last_def)
    let ?h = "(kheap s)(buffptr e := None)"
    have e: "entry_ok (kheap s) e" "buffptr e \<notin> buffptr ` set (es @ [cur s])"
      using ok dist by (simp_all add: items')
    then have h: "kheap s (buffptr e) = Some (cells_of (kheap s) e)" "buffptr e \<noteq> 0"
      using entry_ok_cells [OF e(1)] by (simp_all add: entry_ok_def)
    have "mem_inv (after_push b' ?h s)"
      using ok dist b'(2) h0 list_all_entry_ok_upd [OF e(2)] by (simp add: mem_inv_def items')
    moreover have "view_of (after_push b' ?h s) =
        \<lparr>cmds = keep_last 10 (cmds (view_of s) @ [pending (view_of s)]), pending = []\<rparr>"
      unfolding cells using map_cells_of_upd [OF e(2)] b'(3)
      by (simp add: view_of_def cur_cells_def items' keep_last_def len9)
    moreover have "garbage (after_push b' ?h s) = garbage s"
      using e(2) h by (auto simp: garbage_def owned_def items')
    ultimately show ?thesis
      using b'(1) True h es by (intro exI [of _ "buffptr e"] exI [of _ b'] exI [of _ ?h])
        (auto simp: kfree_live owned_def items')
  next
    case False
    then have items': "cb_items b' = ?L"
      using cb by (simp add: b'(3) L keep_last_short length_cb_items cb_inv_def)
    have "mem_inv (after_push b' (kheap s) s)"
      using ok dist b'(2) h0 by (simp add: mem_inv_def items')
    moreover have "view_of (after_push b' (kheap s) s) =
        \<lparr>cmds = keep_last 10 (cmds (view_of s) @ [pending (view_of s)]), pending = []\<rparr>"
      unfolding cells by (simp add: view_of_def cur_cells_def b'(3) keep_last_map)
    ultimately show ?thesis
      using b'(1) False
      by (intro exI [of _ 0] exI [of _ b'] exI [of _ "kheap s"])
        (auto simp: garbage_def owned_def items')
  qed
qed

lemma adopt_block:
  assumes inv: "mem_inv s" and cur0: "buffptr (cur s) = 0"
    and q: "kheap s q = None" "q \<noteq> 0" and n: "n \<noteq> 0" "unat n \<le> KMALLOC_MAX" "length cs = unat n"
    and s': "s' = set_current q n (s\<lparr>kheap := (kheap s)(q \<mapsto> cs)\<rparr>)"
  shows "mem_inv s'" and "view_of s' = view_of s\<lparr>pending := cs\<rparr>"
    and "owned s' = insert q (owned s)" and "garbage s' = garbage s"
proof -
  have live: "live_entries s = dev_items s" "live_entries s' = dev_items s @ [\<lparr>buffptr = q, esize = n\<rparr>]"
    using q(2) cur0 by (simp_all add: s' live_entries_def)
  have fresh: "q \<notin> buffptr ` set (dev_items s)"
    using owned_live [OF inv, of q] q(1) by (auto simp: owned_def live)
  have "entry_ok (kheap s') \<lparr>buffptr = q, esize = n\<rparr>"
    using q n by (intro entry_okI [where blk = cs]) (simp_all add: s')
  then show "mem_inv s'"
    using inv q n fresh list_all_entry_ok_upd [OF fresh]
    unfolding mem_inv_def live by (auto simp: s')
  show "view_of s' = view_of s\<lparr>pending := cs\<rparr>"
    using q(2) map_cells_of_upd [OF fresh]
    by (simp add: view_of_def s' cur_cells_def cells_of_def [of _ "\<lparr>buffptr = _, esize = _\<rparr>"])
  show own: "owned s' = insert q (owned s)"
    by (auto simp: owned_def live)
  show "garbage s' = garbage s"
    unfolding garbage_def own using q(1) by (auto simp: s')
qed

lemma commit_current_ok:
  assumes inv: "mem_inv s" and cur: "buffptr (cur s) \<noteq> 0" and alloc: "allocator_ok env"
    and kb: "temp_block s kbuf kb" and len: "unat cmd + unat nxt \<le> length kb"
  shows "\<exists>r s' h'. commit_current env s kbuf cmd nxt count = Inr (r, s') \<and> dom h' \<subseteq> dom (kheap s) \<and>
     mem_inv s' \<and> temp_block s' kbuf kb \<and> garbage s' = garbage s \<and>
     buffer_lock (aesd_device s') = buffer_lock (aesd_device s) \<and>
     cmds (view_of s') = keep_last 10 (cmds (view_of s) @ [pending (view_of s)]) \<and>
     (if nxt = 0 \<or> kmalloc_at env h' nxt = NULL then r = cmd \<and> pending (view_of s') = []
      else r = count \<and> pending (view_of s') = take (unat nxt) (drop (unat cmd) kb))"
proof -
  from push_stage [OF inv cur] obtain r cb h where push:
      "cb_push (c_buffer (aesd_device s)) (current_entry (aesd_device s)) = Inr (r, cb)"
      "(if r \<noteq> NULL then kfree (kheap s) r else Inr (kheap s)) = Inr h"
    and inv1: "mem_inv (after_push cb h s)"
    and view1: "view_of (after_push cb h s) =
        \<lparr>cmds = keep_last 10 (cmds (view_of s) @ [pending (view_of s)]), pending = []\<rparr>"
    and garb1: "garbage (after_push cb h s) = garbage s"
    and own1: "owned (after_push cb h s) \<subseteq> owned s" "\<forall>p. p \<notin> owned s \<longrightarrow> h p = kheap s p"
    and dom1: "dom h \<subseteq> dom (kheap s)"
    by blast
  let ?s1 = "after_push cb h s" and ?q = "kmalloc_at env h nxt" and ?cs = "take (unat nxt) (drop (unat cmd) kb)"
  have kb1: "temp_block ?s1 kbuf kb"
    using kb own1 by (auto simp: temp_block_def)
  show ?thesis
  proof (cases "nxt = 0 \<or> ?q = 0")
    case True
    have "commit_current env s kbuf cmd nxt count = Inr (cmd, ?s1)"
      using True push by (auto simp: commit_current_def Let_def kmalloc_def after_push_def
          set_current_def word_neq_0_conv)
    with True inv1 view1 garb1 kb1 show ?thesis
      by (intro exI [of _ cmd] exI [of _ ?s1] exI [of _ h]) (auto simp: dom1)
  next
    case False
    let ?s2 = "set_current ?q nxt (?s1\<lparr>kheap := h(?q \<mapsto> ?cs)\<rparr>)"
    have q: "h ?q = None" "unat nxt \<le> KMALLOC_MAX"
      using False kmalloc_at_fresh [OF alloc] kmalloc_at_bound [OF alloc] by blast+
    have cs: "length ?cs = unat nxt"
      using len by simp
    have "?q \<noteq> kbuf" "h kbuf = Some kb"
      using q(1) kb1 by (auto simp: temp_block_def)
    then have "commit_current env s kbuf cmd nxt count = Inr (count, ?s2)"
      using False push kb1 len
      by (auto simp: commit_current_def Let_def kmalloc_def after_push_def [symmetric]
          word_neq_0_conv memcpy_def heap_simps temp_block_def)
    moreover note adopt = adopt_block [OF inv1 _ _ _ _ q(2) cs, of ?q, simplified]
    moreover have "temp_block ?s2 kbuf kb"
      using adopt(3) False q kb1 \<open>?q \<noteq> kbuf\<close> by (simp add: temp_block_def)
    ultimately show ?thesis
      using False q garb1 view1
      by (intro exI [of _ count] exI [of _ ?s2] exI [of _ h]) (simp add: dom1)
  qed
qed

end
