(* ===== verification/Driver_Write.thy ===== *)
theory Driver_Write
  imports Driver_Memory
begin

text \<open>
  What \<open>aesd_write\<close> does to the view of the device: the specification \<open>write_spec\<close>, the
  simulation theorem, the branches that fail, and the refinement of the byte-level log
  \<open>log_write\<close> when memory is available.
\<close>

abbreviation newline :: byte where "newline \<equiv> CHR 0x0A"

abbreviation dev_lock :: "driver \<Rightarrow> mutex" where
  "dev_lock s \<equiv> buffer_lock (aesd_device s)"

section \<open>Specification\<close>

text \<open>
  The outcomes of a write of the bytes \<open>d\<close> when the mutex was obtained and the user's
  bytes could be read: no memory for the temporary buffer; no memory to extend the pending
  command, whose bytes are then lost (their count is kept); the bytes extend the pending
  command; the bytes up to the first newline complete it and the rest is the new pending
  command; or the rest could not be kept and only the first part counts as written.
\<close>

inductive write_spec :: "view \<Rightarrow> byte list \<Rightarrow> ssize_t \<Rightarrow> view \<Rightarrow> bool" where
  no_buffer: "write_spec v d (- ENOMEM) v"
| lost: "write_spec v d (- ENOMEM) (v\<lparr>pending := replicate (length (pending v)) None\<rparr>)"
| appended: "memchr newline (map Some d) = None \<Longrightarrow>
    write_spec v d (word_of_nat (length d)) (v\<lparr>pending := pending v @ map Some d\<rparr>)"
| committed: "memchr newline (map Some d) = Some k \<Longrightarrow>
    write_spec v d (word_of_nat (length d))
      \<lparr>cmds = keep_last 10 (cmds v @ [pending v @ map Some (take (Suc k) d)]),
       pending = map Some (drop (Suc k) d)\<rparr>"
| committed_short: "memchr newline (map Some d) = Some k \<Longrightarrow> Suc k < length d \<Longrightarrow>
    write_spec v d (word_of_nat (Suc k))
      \<lparr>cmds = keep_last 10 (cmds v @ [pending v @ map Some (take (Suc k) d)]), pending = []\<rparr>"

section \<open>The temporary buffer\<close>

lemma copy_from_user_all:
  assumes "h p = Some blk" "p \<noteq> 0" "length blk = unat n" "unat n \<le> length ubuf"
  shows "copy_from_user h p ubuf n = Inr (0, h(p \<mapsto> map Some (take (unat n) ubuf)))"
  using assms by (simp add: copy_from_user_def store_live)

lemma copy_from_user_short:
  assumes "h p = Some blk" "p \<noteq> 0" "length blk = unat n" "length ubuf < unat n"
  shows "\<exists>left cs. copy_from_user h p ubuf n = Inr (left, h(p \<mapsto> cs)) \<and> left \<noteq> 0"
proof -
  have "unat n < 2 ^ 64"
    using unsigned_less [of n, where ?'a = nat] by simp
  then have "unat (word_of_nat (unat n - length ubuf) :: size_t) = unat n - length ubuf"
    by (intro unat_of_nat64) simp
  with assms(4) have "unat (word_of_nat (unat n - length ubuf) :: size_t) \<noteq> 0"
    by linarith
  then have "(word_of_nat (unat n - length ubuf) :: size_t) \<noteq> 0"
    by auto
  with assms show ?thesis
    by (intro exI [of _ "word_of_nat (unat n - length ubuf)"]
        exI [of _ "map Some ubuf @ replicate (unat n - length ubuf) (Some (CHR 0x00))"])
      (simp add: copy_from_user_def store_live)
qed

text \<open>The state in which \<open>append_current\<close> starts: locked, with the user's bytes in a temporary block.\<close>

definition with_temp :: "ptr \<Rightarrow> cells \<Rightarrow> driver \<Rightarrow> driver" where
  "with_temp kbuf cs s = (set_lock Locked s)\<lparr>kheap := (kheap s)(kbuf \<mapsto> cs)\<rparr>"

lemma with_temp_ok:
  assumes "mem_inv s" "kheap s kbuf = None" "kbuf \<noteq> 0" "length cs \<le> KMALLOC_MAX"
  shows "mem_inv (with_temp kbuf cs s)" and "temp_block (with_temp kbuf cs s) kbuf cs"
    and "view_of (with_temp kbuf cs s) = view_of s"
    and "garbage (with_temp kbuf cs s) = insert kbuf (garbage s)"
    and "dev_lock (with_temp kbuf cs s) = Locked"
    and "cur (with_temp kbuf cs s) = cur s"
proof -
  let ?s = "set_lock Locked s"
  have own: "kbuf \<notin> owned s"
    using owned_live [OF assms(1), of kbuf] assms(2) by blast
  then show "mem_inv (with_temp kbuf cs s)" "view_of (with_temp kbuf cs s) = view_of s"
    using mem_inv_heap_other [of ?s kbuf "Some cs"] view_of_heap_other [of ?s kbuf "Some cs"] assms
    by (simp_all add: with_temp_def)
  show "temp_block (with_temp kbuf cs s) kbuf cs"
    using own assms by (simp add: temp_block_def with_temp_def)
  show "garbage (with_temp kbuf cs s) = insert kbuf (garbage s)"
    using own by (auto simp: garbage_def with_temp_def)
  show "dev_lock (with_temp kbuf cs s) = Locked" "cur (with_temp kbuf cs s) = cur s"
    by (simp_all add: with_temp_def set_lock_def)
qed

text \<open>The exit at \<open>free_mutex\<close> gives the temporary block back and releases the mutex.\<close>

lemma free_mutex_ok:
  assumes "mem_inv s" "temp_block s kbuf kb"
  shows "\<exists>s'. free_mutex r kbuf s = Inr (r, s') \<and> mem_inv s' \<and> dev_lock s' = Unlocked \<and>
    view_of s' = view_of s \<and> garbage s' = garbage s - {kbuf}"
proof -
  let ?s = "unlock s"
  let ?s' = "?s\<lparr>kheap := (kheap ?s)(kbuf := None)\<rparr>"
  have "free_mutex r kbuf s = Inr (r, ?s')"
    using assms(2) by (simp add: free_mutex_def free_kbuf_def unlock_set_lock kfree_live temp_block_def)
  moreover have "mem_inv ?s'" "view_of ?s' = view_of s"
    using mem_inv_heap_other [of ?s kbuf None] view_of_heap_other [of ?s kbuf None] assms
    by (simp_all add: unlock_set_lock temp_block_def)
  moreover have "garbage ?s' = garbage s - {kbuf}"
    by (auto simp: garbage_def unlock_set_lock)
  ultimately show ?thesis
    by (intro exI [of _ ?s']) (simp add: unlock_set_lock set_lock_def)
qed

lemma lock_free: "\<not> interrupted env \<Longrightarrow> mutex_lock_interruptible env Unlocked = Inr (0, Locked)"
  by (simp add: mutex_lock_interruptible_def)

section \<open>Early exits\<close>

lemma aesd_write_no_buffer:
  assumes "dev_lock s = Unlocked" "\<not> interrupted env" "private_data fp = Aesd_dev"
    and "\<not> pos <s 0" "count \<noteq> 0" "kmalloc_at env (kheap s) count = 0"
  shows "aesd_write env s (Some fp) (Some ubuf) count (Some pos) = Inr (- ENOMEM, s)"
  using assms
  by (simp add: aesd_write_def device_of_def lock_free kmalloc_def Let_def free_mutex_def free_kbuf_def
      unlock_set_lock set_lock_same)

lemma aesd_write_copies:
  assumes "dev_lock s = Unlocked" "\<not> interrupted env" "private_data fp = Aesd_dev"
    and "\<not> pos <s 0" "count \<noteq> 0"
    and kbuf: "kbuf = kmalloc_at env (kheap s) count" "kbuf \<noteq> 0"
    and len: "unat count \<le> length ubuf" and d: "d = take (unat count) ubuf"
    and nl: "nl = memchr newline (map Some d)"
    and c: "c = (case nl of Some k \<Rightarrow> word_of_nat (Suc k) | None \<Rightarrow> count)"
  shows "aesd_write env s (Some fp) (Some ubuf) count (Some pos) =
    cbind (append_current env (with_temp kbuf (map Some d) s) kbuf c) (\<lambda>(ok, s4).
      if \<not> ok then free_mutex (- ENOMEM) kbuf s4
      else if nl \<noteq> None then
        cbind (commit_current env s4 kbuf c (case nl of Some k \<Rightarrow> count - c | None \<Rightarrow> 0) count)
          (\<lambda>(retval, s5). free_mutex retval kbuf s5)
      else free_mutex c kbuf s4)"
proof -
  have dl: "length d = unat count" using len by (simp add: d)
  let ?s1 = "set_lock Locked s"
  have "copy_from_user ((kheap s)(kbuf \<mapsto> replicate (unat count) None)) kbuf ubuf count =
      Inr (0, (kheap s)(kbuf \<mapsto> map Some d))"
    using kbuf(2) len copy_from_user_all [of "(kheap s)(kbuf \<mapsto> replicate (unat count) None)" kbuf
        "replicate (unat count) None" count ubuf]
    by (simp add: d)
  moreover have "load ((kheap s)(kbuf \<mapsto> map Some d)) kbuf 0 (unat count) = Inr (map Some d)"
    using kbuf(2) dl by (simp add: load_live)
  ultimately show ?thesis
    using assms(1-5) kbuf(2) unfolding c nl kbuf(1)
    by (simp add: aesd_write_def device_of_def lock_free kmalloc_def Let_def with_temp_def)
qed

lemma aesd_write_faults:
  assumes "dev_lock s = Unlocked" "\<not> interrupted env" "private_data fp = Aesd_dev"
    and "\<not> pos <s 0" "count \<noteq> 0"
    and kbuf: "kmalloc_at env (kheap s) count \<noteq> 0" "kheap s (kmalloc_at env (kheap s) count) = None"
    and short: "length ubuf < unat count"
  shows "aesd_write env s (Some fp) (Some ubuf) count (Some pos) = Inr (- EFAULT, set_lock Locked s)"
proof -
  let ?kbuf = "kmalloc_at env (kheap s) count"
  from copy_from_user_short [of "(kheap s)(?kbuf \<mapsto> replicate (unat count) None)" ?kbuf _ count ubuf]
  obtain left cs where "copy_from_user ((kheap s)(?kbuf \<mapsto> replicate (unat count) None)) ?kbuf ubuf count =
      Inr (left, (kheap s)(?kbuf \<mapsto> cs))" and "left \<noteq> 0"
    using kbuf short by auto
  with assms(1-5) kbuf show ?thesis
    by (simp add: aesd_write_def device_of_def lock_free kmalloc_def Let_def free_kbuf_def kfree_live
        fun_upd_idem set_lock_def)
qed

section \<open>The simulation\<close>

lemma split_at_newline:
  assumes "memchr newline (map Some d) = Some k" "length d = unat (count :: size_t)"
  shows "Suc k \<le> length d" and "unat (word_of_nat (Suc k) :: size_t) = Suc k"
    and "(word_of_nat (Suc k) :: size_t) \<noteq> 0"
    and "unat (count - word_of_nat (Suc k)) = length d - Suc k"
    and "take (unat (word_of_nat (Suc k) :: size_t)) (map Some d) = map Some (take (Suc k) d)"
    and "take (unat (count - word_of_nat (Suc k)))
           (drop (unat (word_of_nat (Suc k) :: size_t)) (map Some d)) = map Some (drop (Suc k) d)"
proof -
  have "length d < 2 ^ 64"
    using unsigned_less [of count, where ?'a = nat] assms(2) by simp
  moreover show k: "Suc k \<le> length d"
    using memchr_SomeD [OF assms(1)] by simp
  ultimately show u: "unat (word_of_nat (Suc k) :: size_t) = Suc k"
    by (intro unat_of_nat64) simp
  then show "(word_of_nat (Suc k) :: size_t) \<noteq> 0" by auto
  show n: "unat (count - word_of_nat (Suc k)) = length d - Suc k"
    using u k assms(2) by (subst unat_sub) (simp_all add: word_le_nat_alt)
  show "take (unat (word_of_nat (Suc k) :: size_t)) (map Some d) = map Some (take (Suc k) d)"
    "take (unat (count - word_of_nat (Suc k)))
       (drop (unat (word_of_nat (Suc k) :: size_t)) (map Some d)) = map Some (drop (Suc k) d)"
    unfolding u n by (simp_all add: take_map drop_map)
qed

text \<open>A call that gets past the checks and the mutex, with all its bytes readable.\<close>

definition write_ready ::
    "kernel_env \<Rightarrow> driver \<Rightarrow> open_file \<Rightarrow> byte list \<Rightarrow> size_t \<Rightarrow> loff_t \<Rightarrow> bool" where
  "write_ready env s fp ubuf count pos \<longleftrightarrow>
     mem_inv s \<and> dev_lock s = Unlocked \<and> \<not> interrupted env \<and> allocator_ok env \<and>
     private_data fp = Aesd_dev \<and> \<not> pos <s 0 \<and> count \<noteq> 0 \<and> unat count \<le> length ubuf"

text \<open>The bytes written, the temporary block, the size of the first command, where it is extended.\<close>

definition first_cmd :: "byte list \<Rightarrow> size_t" where
  "first_cmd d = (case memchr newline (map Some d) of
     Some k \<Rightarrow> word_of_nat (Suc k) | None \<Rightarrow> word_of_nat (length d))"

definition grown_at :: "kernel_env \<Rightarrow> driver \<Rightarrow> ptr \<Rightarrow> byte list \<Rightarrow> ptr" where
  "grown_at env s kbuf d = krealloc_at env ((kheap s)(kbuf \<mapsto> map Some d)) (buffptr (cur s))
     (esize (cur s) + first_cmd d)"

lemma write_setup:
  assumes ready: "write_ready env s fp ubuf count pos" and d: "d = take (unat count) ubuf"
    and kbuf: "kbuf = kmalloc_at env (kheap s) count" "kbuf \<noteq> 0"
  shows "length d = unat count" and "word_of_nat (length d) = count"
    and "kheap s kbuf = None" and "length (map Some d) \<le> KMALLOC_MAX"
    and "unat (first_cmd d) \<le> length (map Some d)" and "first_cmd d \<noteq> 0"
    and "insert kbuf (garbage s) - {kbuf} = garbage s"
proof -
  show dl: "length d = unat count" and dc: "word_of_nat (length d) = count"
    using ready by (simp_all add: d write_ready_def)
  show fresh: "kheap s kbuf = None" and "length (map Some d) \<le> KMALLOC_MAX"
    using kmalloc_at_fresh kmalloc_at_bound kbuf dl ready unfolding write_ready_def by fastforce+
  show "unat (first_cmd d) \<le> length (map Some d)" "first_cmd d \<noteq> 0"
    using split_at_newline [OF _ dl] dl dc ready
    by (auto simp: first_cmd_def write_ready_def split: option.split)
  show "insert kbuf (garbage s) - {kbuf} = garbage s"
    using fresh by (auto simp: garbage_def)
qed

lemma write_unfold:
  assumes ready: "write_ready env s fp ubuf count pos" and d: "d = take (unat count) ubuf"
    and kbuf: "kbuf = kmalloc_at env (kheap s) count" "kbuf \<noteq> 0"
  shows "aesd_write env s (Some fp) (Some ubuf) count (Some pos) =
    cbind (append_current env (with_temp kbuf (map Some d) s) kbuf (first_cmd d)) (\<lambda>(ok, s4).
      if \<not> ok then free_mutex (- ENOMEM) kbuf s4
      else if memchr newline (map Some d) \<noteq> None then
        cbind (commit_current env s4 kbuf (first_cmd d)
                 (case memchr newline (map Some d) of Some k \<Rightarrow> count - first_cmd d | None \<Rightarrow> 0) count)
          (\<lambda>(retval, s5). free_mutex retval kbuf s5)
      else free_mutex (first_cmd d) kbuf s4)"
  using ready write_setup(2) [OF assms]
  by (intro aesd_write_copies [OF _ _ _ _ _ kbuf _ d refl])
    (simp_all add: write_ready_def first_cmd_def cong: option.case_cong)

lemma with_temp_sel [simp]:
  "cur (with_temp kbuf cs s) = cur s"
  "kheap (with_temp kbuf cs s) = (kheap s)(kbuf \<mapsto> cs)"
  "owned (with_temp kbuf cs s) = owned s"
  by (simp_all add: with_temp_def)

lemma write_lost:
  assumes ready: "write_ready env s fp ubuf count pos" and d: "d = take (unat count) ubuf"
    and kbuf: "kbuf = kmalloc_at env (kheap s) count" "kbuf \<noteq> 0"
    and lost: "grown_at env s kbuf d = 0"
  shows "\<exists>s'. aesd_write env s (Some fp) (Some ubuf) count (Some pos) = Inr (- ENOMEM, s') \<and>
     mem_inv s' \<and> dev_lock s' = Unlocked \<and>
     view_of s' = view_of s\<lparr>pending := replicate (length (pending (view_of s))) None\<rparr> \<and>
     garbage s' = garbage s \<union> ({buffptr (cur s)} - {0})"
proof -
  have inv: "mem_inv s" and alloc: "allocator_ok env"
    using ready by (simp_all add: write_ready_def)
  note init = write_setup [OF ready d kbuf]
  let ?s3 = "with_temp kbuf (map Some d) s"
  let ?s4 = "set_current NULL (esize (cur s)) ?s3"
  note temp = with_temp_ok [OF inv init(3) kbuf(2) init(4)]
  note failed = append_current_failed [OF temp(1), unfolded with_temp_sel]
  have tb: "temp_block ?s4 kbuf (map Some d)"
    using temp(2) failed(3) by (simp add: temp_block_def)
  have "buffptr (cur s) \<noteq> 0 \<Longrightarrow> kheap s (buffptr (cur s)) \<noteq> None \<and> buffptr (cur s) \<noteq> kbuf"
    using owned_live [OF inv, of "buffptr (cur s)"] init(3)
    by (auto simp: owned_def live_entries_def)
  moreover have "kheap s 0 = None" using inv by (simp add: mem_inv_def)
  ultimately have "garbage ?s4 - {kbuf} = garbage s \<union> ({buffptr (cur s)} - {0})"
    using init(3) owned_live [OF inv] unfolding garbage_def failed(3)
    by (auto simp: owned_def live_entries_def split: if_splits)
  with free_mutex_ok [OF failed(1) tb, of "- ENOMEM"] show ?thesis
    using append_current_eq [OF temp(1) alloc temp(2) init(5) refl] lost failed(2) temp(3)
      write_unfold [OF ready d kbuf]
    by (auto simp: grown_at_def)
qed

text \<open>The state after a successful append, and what is known of it.\<close>

lemma write_grown:
  assumes ready: "write_ready env s fp ubuf count pos" and d: "d = take (unat count) ubuf"
    and kbuf: "kbuf = kmalloc_at env (kheap s) count" "kbuf \<noteq> 0"
    and q: "q = grown_at env s kbuf d" "q \<noteq> 0"
  shows "\<exists>s4. append_current env (with_temp kbuf (map Some d) s) kbuf (first_cmd d) = Inr (True, s4) \<and>
     mem_inv s4 \<and> temp_block s4 kbuf (map Some d) \<and> buffptr (cur s4) \<noteq> 0 \<and>
     view_of s4 = view_of s\<lparr>pending := pending (view_of s) @ take (unat (first_cmd d)) (map Some d)\<rparr> \<and>
     garbage s4 = insert kbuf (garbage s) \<and> dom (kheap s4) \<subseteq> insert q (insert kbuf (dom (kheap s)))"
proof -
  have inv: "mem_inv s" and alloc: "allocator_ok env"
    using ready by (simp_all add: write_ready_def)
  note init = write_setup [OF ready d kbuf]
  let ?s3 = "with_temp kbuf (map Some d) s"
  let ?s4 = "set_current q (esize (cur s) + first_cmd d) (?s3\<lparr>kheap := ((kheap s)(kbuf \<mapsto> map Some d))
      (buffptr (cur s) := None, q \<mapsto> cur_cells ?s3 @ take (unat (first_cmd d)) (map Some d))\<rparr>)"
  note temp = with_temp_ok [OF inv init(3) kbuf(2) init(4)]
  note q' = q(1) [unfolded grown_at_def]
  have "q = buffptr (cur ?s3) \<or> kheap ?s3 q = None"
    using q(2) unfolding q' with_temp_sel by (rule krealloc_at_fresh [OF alloc])
  from append_current_garbage [OF temp(1) q(2) this, unfolded with_temp_sel, OF refl]
  have "garbage ?s4 = insert kbuf (garbage s)"
    using temp(4) by simp
  moreover have "append_current env ?s3 kbuf (first_cmd d) = Inr (True, ?s4)"
    using append_current_eq [OF temp(1) alloc temp(2) init(5), unfolded with_temp_sel, OF q'] q(2) by simp
  moreover note append_current_ok [OF temp(1) alloc temp(2) init(5,6), unfolded with_temp_sel, OF q' q(2) refl]
  moreover have "dom (kheap ?s4) \<subseteq> insert q (insert kbuf (dom (kheap s)))"
    by auto
  ultimately show ?thesis
    using temp(3) by (intro exI [of _ ?s4]) simp
qed

lemma write_appended:
  assumes ready: "write_ready env s fp ubuf count pos" and d: "d = take (unat count) ubuf"
    and kbuf: "kbuf = kmalloc_at env (kheap s) count" "kbuf \<noteq> 0"
    and q: "grown_at env s kbuf d \<noteq> 0" and nl: "memchr newline (map Some d) = None"
  shows "\<exists>s'. aesd_write env s (Some fp) (Some ubuf) count (Some pos) = Inr (count, s') \<and>
     mem_inv s' \<and> dev_lock s' = Unlocked \<and>
     view_of s' = view_of s\<lparr>pending := pending (view_of s) @ map Some d\<rparr> \<and> garbage s' = garbage s"
proof -
  note init = write_setup [OF ready d kbuf]
  from write_grown [OF ready d kbuf refl q] obtain s4 where s4:
      "append_current env (with_temp kbuf (map Some d) s) kbuf (first_cmd d) = Inr (True, s4)"
      "mem_inv s4" "temp_block s4 kbuf (map Some d)" "garbage s4 = insert kbuf (garbage s)"
      "view_of s4 = view_of s\<lparr>pending := pending (view_of s) @ take (unat (first_cmd d)) (map Some d)\<rparr>"
    by blast
  have "first_cmd d = count" "take (unat count) (map Some d) = map Some d"
    using init(1,2) nl by (simp_all add: first_cmd_def)
  with free_mutex_ok [OF s4(2,3), of count] s4 init(7) nl write_unfold [OF ready d kbuf]
  show ?thesis by auto
qed

lemma write_committed:
  assumes ready: "write_ready env s fp ubuf count pos" and d: "d = take (unat count) ubuf"
    and kbuf: "kbuf = kmalloc_at env (kheap s) count" "kbuf \<noteq> 0"
    and q: "q = grown_at env s kbuf d" "q \<noteq> 0" and nl: "memchr newline (map Some d) = Some k"
  shows "\<exists>r s' h'. aesd_write env s (Some fp) (Some ubuf) count (Some pos) = Inr (r, s') \<and>
     mem_inv s' \<and> dev_lock s' = Unlocked \<and> garbage s' = garbage s \<and>
     cmds (view_of s') = keep_last 10 (cmds (view_of s) @
       [pending (view_of s) @ map Some (take (Suc k) d)]) \<and>
     dom h' \<subseteq> insert q (insert kbuf (dom (kheap s))) \<and>
     (if Suc k = length d \<or> kmalloc_at env h' (count - first_cmd d) \<noteq> 0
      then r = count \<and> pending (view_of s') = map Some (drop (Suc k) d)
      else r = word_of_nat (Suc k) \<and> pending (view_of s') = [])"
proof -
  have alloc: "allocator_ok env"
    using ready by (simp add: write_ready_def)
  note init = write_setup [OF ready d kbuf]
  note parts = split_at_newline [OF nl init(1)]
  have c: "first_cmd d = word_of_nat (Suc k)" by (simp add: first_cmd_def nl)
  from write_grown [OF ready d kbuf q] obtain s4 where s4:
      "append_current env (with_temp kbuf (map Some d) s) kbuf (first_cmd d) = Inr (True, s4)"
      "mem_inv s4" "temp_block s4 kbuf (map Some d)" "buffptr (cur s4) \<noteq> 0"
      "view_of s4 = view_of s\<lparr>pending := pending (view_of s) @ take (unat (first_cmd d)) (map Some d)\<rparr>"
      "garbage s4 = insert kbuf (garbage s)" "dom (kheap s4) \<subseteq> insert q (insert kbuf (dom (kheap s)))"
    by blast
  have len: "unat (first_cmd d) + unat (count - first_cmd d) \<le> length (map Some d)"
    using parts unfolding c by simp
  from commit_current_ok [OF s4(2,4) alloc s4(3) len, of count] obtain r s5 h' where s5:
      "commit_current env s4 kbuf (first_cmd d) (count - first_cmd d) count = Inr (r, s5)"
      "dom h' \<subseteq> dom (kheap s4)" "mem_inv s5" "temp_block s5 kbuf (map Some d)"
      "garbage s5 = garbage s4"
      "cmds (view_of s5) = keep_last 10 (cmds (view_of s4) @ [pending (view_of s4)])"
      "if count - first_cmd d = 0 \<or> kmalloc_at env h' (count - first_cmd d) = NULL
       then r = first_cmd d \<and> pending (view_of s5) = []
       else r = count \<and> pending (view_of s5) =
         take (unat (count - first_cmd d)) (drop (unat (first_cmd d)) (map Some d))"
    by blast
  from free_mutex_ok [OF s5(3,4), of r] obtain s6 where s6:
      "free_mutex r kbuf s5 = Inr (r, s6)" "mem_inv s6" "dev_lock s6 = Unlocked"
      "view_of s6 = view_of s5" "garbage s6 = garbage s5 - {kbuf}"
    by blast
  have last: "count - first_cmd d = 0 \<longleftrightarrow> Suc k = length d" "Suc k = length d \<Longrightarrow> first_cmd d = count"
    using parts(1,4) init(2) by (auto simp: c word_unat_eq_iff)
  have "aesd_write env s (Some fp) (Some ubuf) count (Some pos) = Inr (r, s6)"
    using write_unfold [OF ready d kbuf] s4(1) s5(1) s6(1) nl by simp
  moreover have "if Suc k = length d \<or> kmalloc_at env h' (count - first_cmd d) \<noteq> 0
      then r = count \<and> pending (view_of s5) = map Some (drop (Suc k) d)
      else r = word_of_nat (Suc k) \<and> pending (view_of s5) = []"
    using s5(7) last parts(6) by (cases "Suc k = length d") (auto simp: c)
  moreover have "cmds (view_of s5) = keep_last 10 (cmds (view_of s) @
       [pending (view_of s) @ map Some (take (Suc k) d)])"
    using s5(6) s4(5) parts(5) by (simp add: c)
  moreover have "dom h' \<subseteq> insert q (insert kbuf (dom (kheap s)))"
    using s5(2) s4(7) by (rule subset_trans)
  ultimately show ?thesis
    using s6 s5(5) s4(6) init(7)
    by (intro exI [of _ r] exI [of _ s6] exI [of _ h']) simp
qed

text \<open>Every admitted call returns, with one of the specified outcomes.\<close>

lemma write_simulation:
  assumes ready: "write_ready env s fp ubuf count pos"
  shows "\<exists>r s'. aesd_write env s (Some fp) (Some ubuf) count (Some pos) = Inr (r, s') \<and>
     mem_inv s' \<and> dev_lock s' = Unlocked \<and>
     write_spec (view_of s) (take (unat count) ubuf) r (view_of s') \<and>
     (garbage s' = garbage s \<or> r = - ENOMEM \<and> garbage s' = insert (buffptr (cur s)) (garbage s))"
proof -
  let ?d = "take (unat count) ubuf" and ?kbuf = "kmalloc_at env (kheap s) count"
  consider "?kbuf = 0"
    | "?kbuf \<noteq> 0" "grown_at env s ?kbuf ?d = 0"
    | "?kbuf \<noteq> 0" "grown_at env s ?kbuf ?d \<noteq> 0" "memchr newline (map Some ?d) = None"
    | k where "?kbuf \<noteq> 0" "grown_at env s ?kbuf ?d \<noteq> 0" "memchr newline (map Some ?d) = Some k"
    by blast
  then show ?thesis
  proof cases
    case 1
    then show ?thesis
      using ready aesd_write_no_buffer by (auto simp: write_ready_def intro: write_spec.no_buffer)
  next
    case 2
    from write_lost [OF ready refl refl this] show ?thesis
      by (cases "buffptr (cur s) = 0") (auto intro: write_spec.lost)
  next
    case 3
    from write_appended [OF ready refl refl this] show ?thesis
      using write_spec.appended [OF 3(3)] write_setup(2) [OF ready refl refl 3(1)] by fastforce
  next
    case (4 k)
    note dc = write_setup(2) [OF ready refl refl 4(1)]
    note k = split_at_newline(1) [OF 4(3) write_setup(1) [OF ready refl refl 4(1)]]
    from write_committed [OF ready refl refl 4(1) refl 4(2,3)] obtain r s' h' where w:
      "aesd_write env s (Some fp) (Some ubuf) count (Some pos) = Inr (r, s')"
      "mem_inv s'" "dev_lock s' = Unlocked" "garbage s' = garbage s"
      "cmds (view_of s') = keep_last 10 (cmds (view_of s) @
         [pending (view_of s) @ map Some (take (Suc k) ?d)])"
      "if Suc k = length ?d \<or> kmalloc_at env h' (count - first_cmd ?d) \<noteq> 0
       then r = count \<and> pending (view_of s') = map Some (drop (Suc k) ?d)
       else r = word_of_nat (Suc k) \<and> pending (view_of s') = []"
      by blast
    have "view_of s' = \<lparr>cmds = cmds (view_of s'), pending = pending (view_of s')\<rparr>" by simp
    then have "write_spec (view_of s) ?d r (view_of s')"
      using w(5,6) write_spec.committed [OF 4(3)] write_spec.committed_short [OF 4(3)] dc k
      by (cases "Suc k = length ?d \<or> kmalloc_at env h' (count - first_cmd ?d) \<noteq> 0")
        (metis (no_types, lifting), metis (no_types, lifting) le_neq_implies_less)
    with w show ?thesis by blast
  qed
qed

section \<open>Refinement of a byte log\<close>

text \<open>
  The abstract device: the last ten commands and the bytes of the command being written.
  A write looks for the first newline only.
\<close>

type_synonym log = "byte list list \<times> byte list"

fun log_write :: "byte list \<Rightarrow> log \<Rightarrow> log" where
  "log_write d (cs, p) = (case memchr newline (map Some d) of
      None \<Rightarrow> (cs, p @ d)
    | Some k \<Rightarrow> (keep_last 10 (cs @ [p @ take (Suc k) d]), drop (Suc k) d))"

text \<open>The driver state stands for a log: every cell is written, nothing leaked, the mutex is free.\<close>

definition represents :: "driver \<Rightarrow> log \<Rightarrow> bool" where
  "represents s l \<longleftrightarrow> mem_inv s \<and> dev_lock s = Unlocked \<and> garbage s = {} \<and>
     view_of s = \<lparr>cmds = map (map Some) (fst l), pending = map Some (snd l)\<rparr>"

lemma owned_small:
  assumes "mem_inv s"
  shows "finite (owned s)" and "card (owned s) \<le> 11"
proof -
  show "finite (owned s)" by (simp add: owned_def)
  have "length (dev_items s) \<le> 10"
    using assms by (auto simp: mem_inv_def length_cb_items cb_inv_def)
  then have "length (live_entries s) \<le> 11"
    by (simp add: live_entries_def)
  moreover have "card (owned s) \<le> length (live_entries s)"
    unfolding owned_def by (metis card_image_le card_length finite_set le_trans)
  ultimately show "card (owned s) \<le> 11" by simp
qed

lemma dom_small:
  assumes "mem_inv s" "garbage s = {}" "dom h \<subseteq> insert x (insert y (dom (kheap s)))"
  shows "finite (dom h)" and "card (dom h) \<le> 32"
proof -
  have heap: "dom (kheap s) \<subseteq> owned s"
    using assms(2) by (auto simp: garbage_def)
  with assms(3) have sub: "dom h \<subseteq> insert x (insert y (owned s))" by blast
  then show "finite (dom h)"
    using owned_small(1) [OF assms(1)] by (meson finite_insert finite_subset)
  have "card (dom h) \<le> card (insert x (insert y (owned s)))"
    using sub owned_small(1) [OF assms(1)] by (simp add: card_mono)
  also have "\<dots> \<le> Suc (Suc (card (owned s)))"
    using owned_small(1) [OF assms(1)] by (simp add: card_insert_if)
  finally show "card (dom h) \<le> 32"
    using owned_small(2) [OF assms(1)] by simp
qed

lemma write_refines_log:
  assumes rep: "represents s (cs, p)" and ready: "write_ready env s fp ubuf count pos"
    and avail: "memory_available env" and small: "length p + unat count \<le> KMALLOC_MAX"
  shows "\<exists>s'. aesd_write env s (Some fp) (Some ubuf) count (Some pos) = Inr (count, s') \<and>
     represents s' (log_write (take (unat count) ubuf) (cs, p))"
proof -
  let ?d = "take (unat count) ubuf" and ?kbuf = "kmalloc_at env (kheap s) count"
  have inv: "mem_inv s" and garb: "garbage s = {}" and alloc: "allocator_ok env"
    and view: "cmds (view_of s) = map (map Some) cs" "pending (view_of s) = map Some p"
    using rep ready by (simp_all add: represents_def write_ready_def)
  note dom = dom_small [OF inv garb]
  have kbuf: "?kbuf \<noteq> 0"
    using dom [of "kheap s"] small by (intro available_kmalloc [OF avail]) auto
  note init = write_setup [OF ready refl refl kbuf]
  have "length (cur_cells s) = length p"
    using arg_cong [OF view(2), of length] by (simp add: view_of_def)
  then have "unat (esize (cur s)) = length p"
    using length_cur_cells [OF inv] by simp
  moreover have "unat (first_cmd ?d) \<le> unat count"
    using init(1,5) by simp
  ultimately have "unat (esize (cur s) + first_cmd ?d) \<le> KMALLOC_MAX"
    using small unat_add_no_overflow [of "esize (cur s)" "first_cmd ?d"] by simp
  then have q: "grown_at env s ?kbuf ?d \<noteq> 0"
    using dom [of "(kheap s)(?kbuf \<mapsto> map Some ?d)" ?kbuf ?kbuf] unfolding grown_at_def
    by (intro available_krealloc [OF avail]) auto
  show ?thesis
  proof (cases "memchr newline (map Some ?d)")
    case None
    from write_appended [OF ready refl refl kbuf q None] show ?thesis
      using garb view by (auto simp: None represents_def)
  next
    case (Some k)
    from write_committed [OF ready refl refl kbuf refl q Some] obtain r s' h' where w:
      "aesd_write env s (Some fp) (Some ubuf) count (Some pos) = Inr (r, s')"
      "mem_inv s'" "dev_lock s' = Unlocked" "garbage s' = garbage s"
      "cmds (view_of s') = keep_last 10 (cmds (view_of s) @
         [pending (view_of s) @ map Some (take (Suc k) ?d)])"
      "dom h' \<subseteq> insert (grown_at env s ?kbuf ?d) (insert ?kbuf (dom (kheap s)))"
      "if Suc k = length ?d \<or> kmalloc_at env h' (count - first_cmd ?d) \<noteq> 0
       then r = count \<and> pending (view_of s') = map Some (drop (Suc k) ?d)
       else r = word_of_nat (Suc k) \<and> pending (view_of s') = []"
      by blast
    have "unat (count - first_cmd ?d) \<le> KMALLOC_MAX"
      using split_at_newline(4) [OF Some init(1)] small init(1) by (simp add: first_cmd_def Some)
    then have "kmalloc_at env h' (count - first_cmd ?d) \<noteq> 0"
      using dom [OF w(6)] by (intro available_kmalloc [OF avail]) auto
    with w(7) have "r = count" "pending (view_of s') = map Some (drop (Suc k) ?d)"
      by simp_all
    moreover have "cmds (view_of s') = map (map Some) (keep_last 10 (cs @ [p @ take (Suc k) ?d]))"
      using w(5) view by (simp add: keep_last_map [symmetric])
    ultimately show ?thesis
      using w(1-4) garb by (auto simp: Some represents_def)
  qed
qed

end
