(* ===== verification/Driver_Read.thy ===== *)
theory Driver_Read
  imports Driver_Write
begin

text \<open>
  What \<open>aesd_read\<close> returns: a prefix of everything stored from the file position on, never
  across the end of a command; nothing at the end. Reading until the end returns all of it.
  The proofs use the lookup interface of the ring, interpreted as \<open>cb\<close>.
\<close>

section \<open>One call\<close>

definition read_ready :: "kernel_env \<Rightarrow> driver \<Rightarrow> open_file \<Rightarrow> size_t \<Rightarrow> loff_t \<Rightarrow> bool" where
  "read_ready env s fp count pos \<longleftrightarrow>
     mem_inv s \<and> dev_lock s = Unlocked \<and> \<not> interrupted env \<and>
     private_data fp = Aesd_dev \<and> \<not> pos <s 0 \<and> count \<noteq> 0"

text \<open>The number of bytes a read at \<open>pos\<close> transfers: up to the end of the command there.\<close>

definition read_size :: "cells list \<Rightarrow> nat \<Rightarrow> nat \<Rightarrow> nat" where
  "read_size cs pos count =
     (case locate (map length cs) pos of None \<Rightarrow> 0 | Some (k, d) \<Rightarrow> min count (length (cs ! k) - d))"

lemma cmds_sizes: "mem_inv s \<Longrightarrow> map length (cmds (view_of s)) = esizes (dev_items s)"
  using entry_ok_cells [OF mem_inv_items] by (simp add: view_of_def esizes_def)

lemma esizes_bound:
  assumes "mem_inv s"
  shows "sum_list (esizes (dev_items s)) \<le> 10 * KMALLOC_MAX"
proof -
  have "length (esizes (dev_items s)) \<le> 10"
    using assms by (auto simp: esizes_def mem_inv_def length_cb_items cb_inv_def)
  moreover have "sum_list (esizes (dev_items s)) \<le> length (esizes (dev_items s)) * KMALLOC_MAX"
    using mem_inv_items [OF assms] by (intro sum_list_bound) (auto simp: esizes_def entry_ok_def)
  ultimately show ?thesis by (meson le_trans mult_le_mono1)
qed

lemma stored_length: "mem_inv s \<Longrightarrow> length (concat (cmds (view_of s))) = sum_list (esizes (dev_items s))"
  by (simp add: length_concat cmds_sizes)

lemma read_size_zero:
  "read_size cs pos count = 0 \<longleftrightarrow> count = 0 \<or> length (concat cs) \<le> pos"
proof (cases "locate (map length cs) pos")
  case None
  then show ?thesis by (simp add: read_size_def length_concat locate_None_iff [symmetric])
next
  case (Some kd)
  then obtain k d where kd: "locate (map length cs) pos = Some (k, d)" by (cases kd) auto
  then have "\<not> length (concat cs) \<le> pos"
    using locate_None_iff [of "map length cs" pos] by (simp add: length_concat)
  with kd locate_SomeD [OF kd] show ?thesis by (auto simp: read_size_def min_def)
qed

lemma read_size_le: "read_size cs pos count \<le> count"
  by (simp add: read_size_def split: option.split)

lemma read_size_fits: "read_size cs pos count \<le> length (drop pos (concat cs))"
proof (cases "locate (map length cs) pos")
  case None
  then show ?thesis by (simp add: read_size_def)
next
  case (Some kd)
  then obtain k d where "locate (map length cs) pos = Some (k, d)" by (cases kd) auto
  with locate_concat [of cs pos k d] show ?thesis
    by (simp add: read_size_def)
qed

text \<open>The entry a position lies in, and what is stored from the position on.\<close>

lemma located_entry:
  assumes inv: "mem_inv s" and kd: "locate (esizes (dev_items s)) p = Some (k, d)"
  shows "k < length (dev_items s)" and "d < unat (esize (dev_items s ! k))"
    and "entry_ok (kheap s) (dev_items s ! k)"
    and "unat (word_of_nat d :: size_t) = d"
    and "unat (esize (dev_items s ! k) - word_of_nat d) = unat (esize (dev_items s ! k)) - d"
    and "drop p (concat (cmds (view_of s))) =
      drop d (cells_of (kheap s) (dev_items s ! k)) @ concat (drop (Suc k) (cmds (view_of s)))"
proof -
  let ?e = "dev_items s ! k"
  show k: "k < length (dev_items s)" and d: "d < unat (esize ?e)"
    using locate_SomeD [OF kd] by (auto simp: esizes_def)
  show ok: "entry_ok (kheap s) ?e"
    using inv k by (intro mem_inv_items) auto
  then show ud: "unat (word_of_nat d :: size_t) = d"
    using d by (intro unat_of_nat64) (simp add: entry_ok_def)
  then show "unat (esize ?e - word_of_nat d) = unat (esize ?e) - d"
    using d by (subst unat_sub) (simp_all add: word_le_nat_alt)
  show "drop p (concat (cmds (view_of s))) =
      drop d (cells_of (kheap s) ?e) @ concat (drop (Suc k) (cmds (view_of s)))"
    using locate_concat [of "cmds (view_of s)" p k d] kd k
    by (simp add: cmds_sizes [OF inv]) (simp add: view_of_def)
qed

lemma copy_to_user_block:
  assumes "entry_ok h e" "d + unat n \<le> unat (esize e)"
  shows "copy_to_user h room (buffptr e) d n =
      Inr (word_of_nat (unat n - room), take room (take (unat n) (drop d (cells_of h e))))"
    and "(word_of_nat (unat n - room) :: size_t) = 0 \<longleftrightarrow> unat n \<le> room"
proof -
  have "load h (buffptr e) d (unat n) = Inr (take (unat n) (drop d (cells_of h e)))"
    using entry_ok_cells [OF assms(1)] assms by (subst load_live) (simp_all add: entry_ok_def)
  then show "copy_to_user h room (buffptr e) d n =
      Inr (word_of_nat (unat n - room), take room (take (unat n) (drop d (cells_of h e))))"
    by (simp add: copy_to_user_def)
  have "unat (word_of_nat (unat n - room) :: size_t) = unat n - room"
    using unsigned_less [of n, where ?'a = nat] by (intro unat_of_nat64) simp
  then show "(word_of_nat (unat n - room) :: size_t) = 0 \<longleftrightarrow> unat n \<le> room"
    by (metis diff_is_0_eq unat_0 unat_eq_zero)
qed

lemma aesd_read_step:
  assumes ready: "read_ready env s fp count pos"
    and n: "n = read_size (cmds (view_of s)) (unat pos) (unat count)"
  shows "aesd_read env s (Some fp) (Some room) count (Some pos) =
    Inr (if n \<le> room then (word_of_nat n, take n (drop (unat pos) (concat (cmds (view_of s)))),
                           pos + word_of_nat n, s)
         else (- EFAULT, take room (drop (unat pos) (concat (cmds (view_of s)))), pos, s))"
proof -
  let ?cb = "c_buffer (aesd_device s)"
  have inv: "mem_inv s" and lock: "dev_lock s = Unlocked" and args: "\<not> interrupted env"
      "private_data fp = Aesd_dev" "\<not> pos <s 0" "count \<noteq> 0"
    using ready by (simp_all add: read_ready_def)
  have cbi: "cb_inv ?cb" using inv by (simp add: mem_inv_def)
  have small: "sum_list (esizes (dev_items s)) < 2 ^ 64"
    by (rule le_less_trans [OF esizes_bound [OF inv]]) simp
  have released: "unlock (set_lock Locked s) = s"
    using lock by (simp add: unlock_set_lock set_lock_same)
  note found = cb.find_law [OF cbi, folded esizes_def, OF small, of pos]
  show ?thesis
  proof (cases "locate (esizes (dev_items s)) (unat pos)")
    case None
    then have "n = 0"
      by (simp add: n read_size_def cmds_sizes [OF inv])
    with None found released show ?thesis
      using lock args by (simp add: aesd_read_def device_of_def lock_free Let_def)
  next
    case (Some kd)
    then obtain k d where kd: "locate (esizes (dev_items s)) (unat pos) = Some (k, d)"
      by (cases kd) auto
    note entry = located_entry [OF inv kd]
    let ?e = "dev_items s ! k"
    let ?blk = "cells_of (kheap s) ?e"
    define bytes where "bytes = (if count < esize ?e - word_of_nat d then count else esize ?e - word_of_nat d)"
    have len: "length ?blk = unat (esize ?e)"
      using entry_ok_cells [OF entry(3)] by simp
    have nn: "n = min (unat count) (unat (esize ?e) - d)"
      using entry(1) len unfolding n read_size_def cmds_sizes [OF inv] kd by (simp add: view_of_def)
    have bytes: "unat bytes = n" "word_of_nat n = bytes"
      using entry(5) unfolding nn bytes_def
      by (auto simp: word_less_nat_alt min_def of_nat_diff simp flip: entry(5))
    have fits: "d + unat bytes \<le> unat (esize ?e)"
      using entry(2) by (simp add: bytes nn)
    have "aesd_read env s (Some fp) (Some room) count (Some pos) =
        (if n \<le> room then Inr (bytes, take room (take n (drop d ?blk)), pos + bytes, s)
         else Inr (- EFAULT, take room (take n (drop d ?blk)), pos, s))"
      using lock args kd found cb.fetch_law [OF cbi entry(1)] released entry(4)
        copy_to_user_block [OF entry(3) fits, of room, unfolded bytes(1)]
      by (simp add: aesd_read_def device_of_def lock_free Let_def bytes_def [symmetric])
    moreover have "n \<le> length (drop d ?blk)"
      by (simp add: len nn)
    ultimately show ?thesis
      using bytes(2) by (simp add: entry(6) min_absorb1 min_absorb2)
  qed
qed

section \<open>Reading until the end\<close>

text \<open>
  A client that reads until a read returns 0, with room for \<open>count\<close> bytes. Fuel bounds the
  number of calls; \<open>None\<close> is running out of it. The client stops at an error, too.
\<close>

fun read_until_eof ::
    "kernel_env \<Rightarrow> nat \<Rightarrow> driver \<Rightarrow> open_file \<Rightarrow> size_t \<Rightarrow> loff_t \<Rightarrow> (cells option \<times> driver) cres" where
  "read_until_eof env 0 s fp count pos = Inr (None, s)"
| "read_until_eof env (Suc fuel) s fp count pos =
     cbind (aesd_read env s (Some fp) (Some (unat count)) count (Some pos)) (\<lambda>(r, seen, pos', s').
     if r = 0 \<or> r <s 0 then Inr (Some [], s')
     else cbind (read_until_eof env fuel s' fp count pos') (\<lambda>(rest, s'').
          Inr (map_option ((@) seen) rest, s'')))"

lemma pos_advance:
  assumes "\<not> (pos :: loff_t) <s 0" "unat pos + n \<le> 10 * KMALLOC_MAX"
  shows "unat (pos + word_of_nat n) = unat pos + n" and "\<not> pos + word_of_nat n <s 0"
    and "\<not> (word_of_nat n :: 64 word) <s 0" and "(word_of_nat n :: 64 word) = 0 \<longleftrightarrow> n = 0"
proof -
  have n: "unat (word_of_nat n :: 64 word) = n"
    using assms(2) by (intro unat_of_nat64) simp
  then show sum: "unat (pos + word_of_nat n) = unat pos + n"
    using assms(2) by (subst unat_add_no_overflow) simp_all
  show "\<not> pos + word_of_nat n <s 0" "\<not> (word_of_nat n :: 64 word) <s 0"
    using assms(2) unfolding sless_zero_iff sum n by simp_all
  show "(word_of_nat n :: 64 word) = 0 \<longleftrightarrow> n = 0"
    unfolding word_unat_eq_iff n by simp
qed

lemma read_until_eof_all:
  assumes "read_ready env s fp count pos"
    and "length (drop (unat pos) (concat (cmds (view_of s)))) < fuel"
  shows "read_until_eof env fuel s fp count pos = Inr (Some (drop (unat pos) (concat (cmds (view_of s)))), s)"
  using assms
proof (induction fuel arbitrary: pos)
  case 0
  then show ?case by simp
next
  case (Suc fuel)
  let ?all = "concat (cmds (view_of s))"
  let ?n = "read_size (cmds (view_of s)) (unat pos) (unat count)"
  have inv: "mem_inv s" and pos: "\<not> pos <s 0" and count: "count \<noteq> 0"
    using Suc.prems(1) by (simp_all add: read_ready_def)
  note step = aesd_read_step [OF Suc.prems(1) refl, of "unat count"]
  have fits: "?n \<le> length (drop (unat pos) ?all)" "?n \<le> unat count"
    by (rule read_size_fits, rule read_size_le)
  show ?case
  proof (cases "length ?all \<le> unat pos")
    case True
    then have "?n = 0" using read_size_zero by blast
    with step True show ?thesis by simp
  next
    case False
    have n: "?n \<noteq> 0"
      using False count by (simp add: read_size_zero word_unat_eq_iff)
    have "unat pos + ?n \<le> 10 * KMALLOC_MAX"
      using fits(1) False esizes_bound [OF inv] stored_length [OF inv] by simp
    note adv = pos_advance [OF pos this]
    have "read_until_eof env fuel s fp count (pos + word_of_nat ?n) =
        Inr (Some (drop (unat (pos + word_of_nat ?n)) ?all), s)"
      using Suc.prems n fits False adv by (intro Suc.IH) (simp_all add: read_ready_def)
    moreover have "take ?n (drop (unat pos) ?all) @ drop (unat pos + ?n) ?all = drop (unat pos) ?all"
      unfolding add.commute [of "unat pos"] drop_drop [symmetric] by (rule append_take_drop_id)
    ultimately show ?thesis
      using step fits(2) n adv by simp
  qed
qed

end
