(* ===== verification/Driver_Seek.thy ===== *)
theory Driver_Seek
  imports Driver_Read
begin

text \<open>
  \<open>aesd_llseek\<close> and \<open>aesd_ioctl\<close>: the position each sets, the errors, the two error exits
  of \<open>aesd_llseek\<close> that keep the mutex, and what the seek command does with a command
  number beyond the ring.
\<close>

definition seek_ready :: "kernel_env \<Rightarrow> driver \<Rightarrow> open_file \<Rightarrow> bool" where
  "seek_ready env s fp \<longleftrightarrow>
     mem_inv s \<and> dev_lock s = Unlocked \<and> \<not> interrupted env \<and> private_data fp = Aesd_dev"

abbreviation stored :: "driver \<Rightarrow> nat" where
  "stored s \<equiv> length (concat (cmds (view_of s)))"

section \<open>Sums of sizes\<close>

lemma fold_esizes:
  "fold (\<lambda>e t. t + esize e) es t = t + word_of_nat (sum_list (esizes es))"
  by (induction es arbitrary: t) (simp_all add: esizes_def add.assoc)

lemma sum_list_rotate: "sum_list (rotate k (ns :: nat list)) = sum_list ns"
  by (metis add.commute append_take_drop_id rotate_drop_take sum_list_append)

lemma sum_esizes_entry:
  assumes "cb_inv b"
  shows "sum_list (esizes (entry b)) = sum_list (esizes (cb_items b))"
proof -
  have "sum_list (esizes (entry b)) = sum_list (esizes (rotate (unat (out_offs b)) (entry b)))"
    by (simp add: esizes_def rotate_map [symmetric] sum_list_rotate)
  then show ?thesis
    using assms by (simp add: rotate_entry_items esizes_def zero_entry_def sum_list_replicate)
qed

lemma total_size_stored:
  assumes "mem_inv s"
  shows "total_size (c_buffer (aesd_device s)) = Inr (word_of_nat (stored s))"
proof -
  have "cb_inv (c_buffer (aesd_device s))" using assms by (simp add: mem_inv_def)
  then show ?thesis
    by (simp add: total_size_def foreach_cfold cfold_pure fold_esizes sum_esizes_entry
        stored_length [OF assms])
qed

section \<open>llseek\<close>

definition llseek_target :: "driver \<Rightarrow> open_file \<Rightarrow> loff_t \<Rightarrow> int \<Rightarrow> loff_t option" where
  "llseek_target s fp off whence =
     (if whence = SEEK_SET then Some off
      else if whence = SEEK_CUR then Some (f_pos fp + off)
      else if whence = SEEK_END then Some (word_of_nat (stored s) + off)
      else None)"

lemma aesd_llseek_result:
  assumes ready: "seek_ready env s fp"
  shows "aesd_llseek env s fp off whence = Inr
    (case llseek_target s fp off whence of
       None \<Rightarrow> (- EINVAL, fp, set_lock Locked s)
     | Some p \<Rightarrow> if p <s 0 then (- EINVAL, fp, set_lock Locked s) else (p, fp\<lparr>f_pos := p\<rparr>, s))"
proof -
  have "unlock (set_lock Locked s) = s"
    using ready by (simp add: seek_ready_def unlock_set_lock set_lock_same)
  then show ?thesis
    using ready total_size_stored [of s]
    by (simp add: aesd_llseek_def seek_ready_def device_of_def lock_free Let_def llseek_target_def)
qed

section \<open>The seek command\<close>

text \<open>The signed index, up to the sum that overflows: its remainder is -8.\<close>

lemma signed_index:
  assumes "unat (k :: uint8_t) + i \<le> 2 ^ 31"
  shows "sint (ucast k + word_of_nat i :: 32 word) smod 10 =
    (if unat k + i = 2 ^ 31 then -8 else int ((unat k + i) mod 10))"
proof -
  let ?w = "ucast k + word_of_nat i :: 32 word"
  have "unat (ucast k :: 32 word) = unat k"
    by (simp add: unsigned_ucast_eq take_bit_nat_eq_self unsigned_less [THEN less_le_trans])
  then have w: "?w = word_of_nat (unat k + i)" by (metis of_nat_add of_nat_unat ucast_id)
  show ?thesis
  proof (cases "unat k + i = 2 ^ 31")
    case True
    then show ?thesis unfolding w by (simp only:) simp
  next
    case False
    with assms have "unat k + i < 2 ^ 31" by simp
    then have "int (unat k + i) < int (2 ^ 31)" by (simp only: of_nat_less_iff)
    then have "int (unat k + i) < 2 ^ 31" by (simp del: of_nat_add)
    then have "sint ?w = int (unat k + i)"
      unfolding w by (simp add: signed_of_nat signed_take_bit_int_eq_self del: of_nat_add)
    with False show ?thesis by (simp add: smod_mod_positive zmod_int del: of_nat_add)
  qed
qed

lemma ioctl_loop_next:
  "unat (out_offs b) + i < 2 ^ 31 \<Longrightarrow> length (entry b) = 10 \<Longrightarrow> i < unat cmd \<Longrightarrow>
     ioctl_loop b cmd i r = ioctl_loop b cmd (Suc i) (r + esize (entry b ! ((unat (out_offs b) + i) mod 10)))"
  using signed_index [of "out_offs b" i] by (simp add: ioctl_loop.simps [of b cmd i])

lemma ioctl_loop_overflow:
  "unat (out_offs b) + i = 2 ^ 31 \<Longrightarrow> i < unat cmd \<Longrightarrow> ioctl_loop b cmd i r = Inl OutOfBounds"
  using signed_index [of "out_offs b" i] by (simp add: ioctl_loop.simps [of b cmd i])

lemma ioctl_loop_sum:
  assumes len: "length (entry b) = 10"
  shows "i \<le> unat cmd \<Longrightarrow> unat (out_offs b) + unat cmd \<le> 2 ^ 31 \<Longrightarrow>
    ioctl_loop b cmd i r = Inr (r + word_of_nat (sum_list
      (map (\<lambda>j. unat (esize (entry b ! ((unat (out_offs b) + j) mod 10)))) [i..<unat cmd])))"
proof (induction "unat cmd - i" arbitrary: i r)
  case 0
  then show ?case by (simp add: ioctl_loop.simps [of b cmd i])
next
  case (Suc n)
  then have i: "i < unat cmd" by simp
  let ?e = "entry b ! ((unat (out_offs b) + i) mod 10)"
  have "ioctl_loop b cmd i r = ioctl_loop b cmd (Suc i) (r + esize ?e)"
    using i Suc.prems len by (intro ioctl_loop_next) simp_all
  moreover have "[i..<unat cmd] = i # [Suc i..<unat cmd]"
    using i by (rule upt_conv_Cons)
  moreover have "n = unat cmd - Suc i" "Suc i \<le> unat cmd"
    using Suc.hyps(2) i by simp_all
  ultimately show ?case
    using Suc.hyps(1) [of "Suc i" "r + esize ?e"] Suc.prems(2) by (simp add: add.assoc)
qed

text \<open>From the first sum beyond \<open>INT_MAX\<close> the loop reads before the array.\<close>

lemma ioctl_loop_out_of_bounds:
  assumes len: "length (entry b) = 10" and big: "2 ^ 31 < unat (out_offs b) + unat cmd"
  shows "i \<le> unat cmd \<Longrightarrow> unat (out_offs b) + i \<le> 2 ^ 31 \<Longrightarrow> ioctl_loop b cmd i r = Inl OutOfBounds"
proof (induction "2 ^ 31 - (unat (out_offs b) + i)" arbitrary: i r)
  case 0
  with big show ?case by (intro ioctl_loop_overflow) simp_all
next
  case (Suc n)
  then have i: "i < unat cmd" "unat (out_offs b) + i < 2 ^ 31"
    using big by linarith+
  moreover have "n = 2 ^ 31 - (unat (out_offs b) + Suc i)"
    using Suc.hyps(2) by linarith
  ultimately show ?case
    using Suc.hyps(1) [of "Suc i"] ioctl_loop_next [OF i(2) len i(1)] by simp
qed

lemma items_at:
  assumes "cb_inv b" "j < length (cb_items b)"
  shows "entry b ! ((unat (out_offs b) + j) mod 10) = cb_items b ! j"
proof -
  have "length (entry b) = 10" using assms(1) by (rule cb_inv_length)
  with entry_ring_index [OF assms] show ?thesis by simp
qed

lemma sum_items_at:
  assumes "cb_inv b" "k \<le> length (cb_items b)"
  shows "sum_list (map (\<lambda>j. unat (esize (entry b ! ((unat (out_offs b) + j) mod 10)))) [0..<k]) =
    sum_list (take k (esizes (cb_items b)))"
proof -
  have "map (\<lambda>j. unat (esize (entry b ! ((unat (out_offs b) + j) mod 10)))) [0..<k] =
      take k (esizes (cb_items b))"
    using assms by (intro nth_equalityI) (simp_all add: esizes_def items_at)
  then show ?thesis by simp
qed

lemma num_entries:
  "cb_inv b \<Longrightarrow> \<not> full b \<Longrightarrow> unat (in_offs b - out_offs b) = length (cb_items b)"
  by (simp add: length_cb_items cb_inv_def)

text \<open>The slot the command number leads to and the bytes before it, for any number the checks admit.\<close>

definition seek_slot :: "aesd_circular_buffer \<Rightarrow> nat \<Rightarrow> aesd_buffer_entry" where
  "seek_slot b k = entry b ! ((unat (out_offs b) + k) mod 10)"

definition seek_base :: "aesd_circular_buffer \<Rightarrow> nat \<Rightarrow> nat" where
  "seek_base b k = sum_list (map (\<lambda>j. unat (esize (seek_slot b j))) [0..<k])"

lemma unat_ucast64: "unat (ucast (x :: uint32_t) :: 64 word) = unat x"
  by (simp add: unsigned_ucast_eq take_bit_nat_eq_self unsigned_less [THEN less_le_trans])

lemma aesd_ioctl_admitted:
  assumes ready: "seek_ready env s fp" and b: "b = c_buffer (aesd_device s)"
    and k: "k = unat (write_cmd a)" "full b \<or> k < length (dev_items s)" "unat (out_offs b) + k \<le> 2 ^ 31"
    and p: "p = word_of_nat (seek_base b k + unat (write_cmd_offset a))"
  shows "aesd_ioctl env s fp AESDCHAR_IOCSEEKTO (Some a) = Inr
    (if unat (esize (seek_slot b k)) < unat (write_cmd_offset a) then (- EINVAL, fp, s)
     else (p, fp\<lparr>f_pos := p\<rparr>, s))"
proof -
  have inv: "cb_inv b" and len: "length (entry b) = 10"
    using ready by (simp_all add: b seek_ready_def mem_inv_def cb_inv_def)
  have released: "unlock (set_lock Locked s) = s"
    using ready by (simp add: seek_ready_def unlock_set_lock set_lock_same)
  have out: "unat (ucast (out_offs b) :: 32 word) = unat (out_offs b)"
    by (simp add: unsigned_ucast_eq take_bit_nat_eq_self unsigned_less [THEN less_le_trans])
  have "unat (ucast (out_offs b) + write_cmd a) = unat (out_offs b) + k"
    using k(3) out by (subst unat_add_no_overflow) (simp_all add: k(1))
  then have slot: "c_nth (entry b) (unat (ucast (out_offs b) + write_cmd a) mod 10) = Inr (seek_slot b k)"
    using len by (simp add: seek_slot_def)
  have base: "ioctl_loop b (write_cmd a) 0 0 = Inr (word_of_nat (seek_base b k))"
    using ioctl_loop_sum [OF len, of 0 "write_cmd a" 0] k(3)
    by (simp add: seek_base_def seek_slot_def k(1))
  have "word_of_nat (seek_base b k) + ucast (write_cmd_offset a) = p"
    by (simp add: p word_unat_eq_iff unat_word_ariths unat_ucast64 unat_of_nat)
  moreover have "\<not> full b \<Longrightarrow> \<not> unat (in_offs b - out_offs b) \<le> unat (write_cmd a)"
    using k(1,2) num_entries [OF inv] by (auto simp: b)
  moreover have "esize e < ucast (write_cmd_offset a) \<longleftrightarrow> unat (esize e) < unat (write_cmd_offset a)"
    for e :: aesd_buffer_entry
    by (simp add: word_less_nat_alt unat_ucast64)
  ultimately show ?thesis
    using ready slot base released
    by (simp add: aesd_ioctl_def seek_ready_def device_of_def lock_free Let_def b [symmetric])
qed

lemma aesd_ioctl_rejected:
  assumes "seek_ready env s fp" "\<not> full (c_buffer (aesd_device s))"
    and "length (dev_items s) \<le> unat (write_cmd a)"
  shows "aesd_ioctl env s fp AESDCHAR_IOCSEEKTO (Some a) = Inr (- EINVAL, fp, s)"
proof -
  have "unlock (set_lock Locked s) = s"
    using assms(1) by (simp add: seek_ready_def unlock_set_lock set_lock_same)
  with assms num_entries [of "c_buffer (aesd_device s)"] show ?thesis
    by (simp add: aesd_ioctl_def seek_ready_def device_of_def lock_free Let_def mem_inv_def)
qed

lemma aesd_ioctl_out_of_bounds:
  assumes ready: "seek_ready env s fp" and "full (c_buffer (aesd_device s))"
    and big: "2 ^ 31 < unat (out_offs (c_buffer (aesd_device s))) + unat (write_cmd a)"
  shows "aesd_ioctl env s fp AESDCHAR_IOCSEEKTO (Some a) = Inl OutOfBounds"
proof -
  let ?b = "c_buffer (aesd_device s)"
  have inv: "cb_inv ?b" using ready by (simp add: seek_ready_def mem_inv_def)
  then have "ioctl_loop ?b (write_cmd a) 0 0 = Inl OutOfBounds"
    using ioctl_loop_out_of_bounds [OF cb_inv_length [OF inv] big, of 0 0] cb_inv_out [OF inv] by simp
  with assms(1,2) show ?thesis
    by (simp add: aesd_ioctl_def seek_ready_def device_of_def lock_free Let_def)
qed

lemma seek_base_items:
  assumes "mem_inv s" "b = c_buffer (aesd_device s)" "k \<le> length (dev_items s)"
  shows "seek_base b k = length (concat (take k (cmds (view_of s))))"
proof -
  have "seek_base b k = sum_list (take k (esizes (dev_items s)))"
    using assms sum_items_at [of b k] by (simp add: seek_base_def seek_slot_def mem_inv_def)
  also have "\<dots> = length (concat (take k (cmds (view_of s))))"
    unfolding cmds_sizes [OF assms(1), symmetric] by (simp add: length_concat take_map)
  finally show ?thesis .
qed

lemma seek_slot_items:
  assumes "mem_inv s" "b = c_buffer (aesd_device s)" "k < length (dev_items s)"
  shows "unat (esize (seek_slot b k)) = length (cmds (view_of s) ! k)"
proof -
  have "unat (esize (seek_slot b k)) = esizes (dev_items s) ! k"
    using assms items_at [of b k] by (simp add: seek_slot_def esizes_def mem_inv_def)
  also have "\<dots> = map length (cmds (view_of s)) ! k"
    by (simp add: cmds_sizes [OF assms(1)])
  finally show ?thesis
    using assms(3) by (simp add: view_of_def)
qed

text \<open>Beyond the ring the loop goes round it.\<close>

lemma seek_round:
  assumes "mem_inv s" "b = c_buffer (aesd_device s)" "full b"
  shows "seek_slot b k = seek_slot b (k mod 10)"
    and "seek_base b k = (k div 10) * stored s + length (concat (take (k mod 10) (cmds (view_of s))))"
proof -
  show slot: "seek_slot b k = seek_slot b (k mod 10)" for k
    by (simp add: seek_slot_def mod_add_right_eq)
  let ?xs = "esizes (dev_items s)"
  have inv: "cb_inv b" using assms by (simp add: mem_inv_def)
  then have len: "length ?xs = 10"
    using assms(2,3) by (simp add: esizes_def length_cb_items)
  have "unat (esize (seek_slot b j)) = ?xs ! (j mod 10)" for j
    using items_at [OF inv, of "j mod 10"] len assms(2)
    by (subst slot) (simp add: seek_slot_def esizes_def)
  then have "seek_base b k = sum_list (map (\<lambda>j. ?xs ! (j mod length ?xs)) [0..<k])"
    by (simp add: seek_base_def len)
  also have "\<dots> = (k div 10) * sum_list ?xs + sum_list (take (k mod 10) ?xs)"
    using len by (subst sum_list_cyclic) auto
  finally show "seek_base b k = (k div 10) * stored s + length (concat (take (k mod 10) (cmds (view_of s))))"
    unfolding stored_length [OF assms(1)]
    unfolding cmds_sizes [OF assms(1), symmetric] by (simp add: length_concat take_map)
qed

text \<open>No command is larger than the largest block.\<close>

lemma seek_base_bound:
  assumes "mem_inv s" "b = c_buffer (aesd_device s)" "full b"
  shows "seek_base b k \<le> k * KMALLOC_MAX"
proof -
  have b: "cb_inv b" using assms by (simp add: mem_inv_def)
  then have items: "length (cb_items b) = 10" using assms(3) by (simp add: length_cb_items)
  have "unat (esize (seek_slot b j)) \<le> KMALLOC_MAX" for j
  proof -
    have slot: "seek_slot b j = cb_items b ! (j mod 10)"
      using items_at [OF b, of "j mod 10"] items by (simp add: seek_slot_def mod_add_right_eq)
    then show ?thesis
      using items assms(2) mem_inv_items [OF assms(1)] nth_mem [of "j mod 10" "cb_items b"]
      by (auto simp: entry_ok_def)
  qed
  then show ?thesis
    using sum_list_bound [of "map (\<lambda>j. unat (esize (seek_slot b j))) [0..<k]" KMALLOC_MAX]
    by (fastforce simp: seek_base_def)
qed

end
