(* ===== verification/Driver_System.thy ===== *)
theory Driver_System
  imports Driver_Seek
begin

text \<open>
  The driver as a system: processes open the device and issue calls in any order, with any
  arguments and any decisions of the kernel that respect \<open>allocator_ok\<close>. The virtual file
  system hands each handler its \<open>struct file\<close> and stores the position a successful read
  reports. Reachability is an inductive predicate, the invariant \<open>sys_inv\<close> is proved by
  rule induction. \<open>seek_overflows\<close> are the calls with which the signed index of the seek command
  overflows; every other call is memory safe.
\<close>

section \<open>System calls\<close>

datatype syscall =
    Open nat
  | Release nat
  | Read nat kernel_env nat size_t
  | Write nat kernel_env "byte list" size_t
  | Llseek nat kernel_env loff_t int
  | Ioctl nat kernel_env uint32_t "aesd_seekto option"

record sys =
  sdrv :: driver
  files :: "nat \<rightharpoonup> open_file"

abbreviation (input) EBADF :: "64 word" where "EBADF \<equiv> 9"

fun exec :: "syscall \<Rightarrow> sys \<Rightarrow> (64 word \<times> sys) cres" where
  "exec (Open fd) y =
     (let (r, fp) = aesd_open \<lparr>i_cdev = Aesd_dev\<rparr> \<lparr>f_pos = 0, private_data = Null_dev\<rparr> in
      Inr (ucast r, y\<lparr>files := (files y)(fd \<mapsto> fp)\<rparr>))"
| "exec (Release fd) y =
     (case files y fd of None \<Rightarrow> Inr (- EBADF, y)
      | Some fp \<Rightarrow> Inr (ucast (fst (aesd_release \<lparr>i_cdev = Aesd_dev\<rparr> fp)), y\<lparr>files := (files y)(fd := None)\<rparr>))"
| "exec (Read fd env room count) y =
     (case files y fd of None \<Rightarrow> Inr (- EBADF, y)
      | Some fp \<Rightarrow>
          cbind (aesd_read env (sdrv y) (Some fp) (Some room) count (Some (f_pos fp))) (\<lambda>(r, seen, pos, s).
          Inr (r, y\<lparr>sdrv := s, files := (if r <s 0 then files y else (files y)(fd \<mapsto> fp\<lparr>f_pos := pos\<rparr>))\<rparr>)))"
| "exec (Write fd env ubuf count) y =
     (case files y fd of None \<Rightarrow> Inr (- EBADF, y)
      | Some fp \<Rightarrow>
          cbind (aesd_write env (sdrv y) (Some fp) (Some ubuf) count (Some (f_pos fp))) (\<lambda>(r, s).
          Inr (r, y\<lparr>sdrv := s\<rparr>)))"
| "exec (Llseek fd env off whence) y =
     (case files y fd of None \<Rightarrow> Inr (- EBADF, y)
      | Some fp \<Rightarrow>
          cbind (aesd_llseek env (sdrv y) fp off whence) (\<lambda>(r, fp', s).
          Inr (r, y\<lparr>sdrv := s, files := (files y)(fd \<mapsto> fp')\<rparr>)))"
| "exec (Ioctl fd env cmd arg) y =
     (case files y fd of None \<Rightarrow> Inr (- EBADF, y)
      | Some fp \<Rightarrow>
          cbind (aesd_ioctl env (sdrv y) fp cmd arg) (\<lambda>(r, fp', s).
          Inr (r, y\<lparr>sdrv := s, files := (files y)(fd \<mapsto> fp')\<rparr>)))"

text \<open>The calls: any at all, with an allocator that behaves.\<close>

fun syscall_ok :: "syscall \<Rightarrow> bool" where
  "syscall_ok (Write fd env ubuf count) \<longleftrightarrow> allocator_ok env"
| "syscall_ok _ \<longleftrightarrow> True"

text \<open>
  The one call that is not memory safe: a seek command that gets the mutex, finds the ring full
  and names a number with which the signed index of the loop overflows.
\<close>

definition index_overflows :: "kernel_env \<Rightarrow> driver \<Rightarrow> uint32_t \<Rightarrow> aesd_seekto option \<Rightarrow> bool" where
  "index_overflows env s cmd arg \<longleftrightarrow>
     cmd = AESDCHAR_IOCSEEKTO \<and> \<not> interrupted env \<and> dev_lock s = Unlocked \<and> full (c_buffer (aesd_device s)) \<and>
     (case arg of None \<Rightarrow> False
      | Some a \<Rightarrow> 2 ^ 31 < unat (out_offs (c_buffer (aesd_device s))) + unat (write_cmd a))"

definition seek_overflows :: "syscall \<Rightarrow> sys \<Rightarrow> bool" where
  "seek_overflows c y \<longleftrightarrow>
     (case c of Ioctl fd env cmd arg \<Rightarrow> files y fd \<noteq> None \<and> index_overflows env (sdrv y) cmd arg | _ \<Rightarrow> False)"

text \<open>Otherwise a seek command that gets the mutex is admitted without an overflow, or rejected.\<close>

lemma seek_cases:
  assumes "seek_ready env s fp" and "\<not> index_overflows env s AESDCHAR_IOCSEEKTO (Some a)"
  shows "(\<exists>fp'. aesd_ioctl env s fp AESDCHAR_IOCSEEKTO (Some a) = Inr (- EINVAL, fp, s) \<or>
    aesd_ioctl env s fp AESDCHAR_IOCSEEKTO (Some a) = Inr (f_pos fp', fp', s) \<and> private_data fp' = private_data fp)"
proof (cases "full (c_buffer (aesd_device s)) \<or> unat (write_cmd a) < length (dev_items s)")
  case True
  have inv: "mem_inv s" using assms(1) by (simp add: seek_ready_def)
  then have b: "cb_inv (c_buffer (aesd_device s))" by (simp add: mem_inv_def)
  then have "length (dev_items s) \<le> 10" by (simp add: length_cb_items cb_inv_def split: if_splits)
  with True assms cb_inv_out [OF b]
  have "unat (out_offs (c_buffer (aesd_device s))) + unat (write_cmd a) \<le> 2 ^ 31"
    by (auto simp: index_overflows_def seek_ready_def)
  with aesd_ioctl_admitted [OF assms(1) refl refl True this refl]
  show ?thesis by fastforce
qed (use aesd_ioctl_rejected [OF assms(1)] in auto)

section \<open>Every handler is memory safe and keeps the invariant\<close>

text \<open>A result is fine when it is a wait for the mutex or a state that keeps the invariant.\<close>

definition keeps :: "('a \<Rightarrow> driver) \<Rightarrow> 'a cres \<Rightarrow> bool" where
  "keeps st m \<longleftrightarrow> (case m of Inl t \<Rightarrow> t = Deadlock | Inr x \<Rightarrow> mem_inv (st x))"

lemma keeps_simps [simp]:
  "keeps st (Inl t) \<longleftrightarrow> t = Deadlock"
  "keeps st (Inr x) \<longleftrightarrow> mem_inv (st x)"
  by (simp_all add: keeps_def)

lemma keeps_cases: "keeps st m \<Longrightarrow> m = Inl Deadlock \<or> (\<exists>x. m = Inr x \<and> mem_inv (st x))"
  by (cases m) auto

lemma locked_deadlocks: "\<not> interrupted env \<Longrightarrow> m \<noteq> Unlocked \<Longrightarrow> mutex_lock_interruptible env m = Inl Deadlock"
  by (cases m) (simp_all add: mutex_lock_interruptible_def)

lemma lock_interrupted: "interrupted env \<Longrightarrow> mutex_lock_interruptible env m = Inr (-4, m)"
  by (simp add: mutex_lock_interruptible_def)

lemma aesd_read_keeps:
  assumes "mem_inv s" "private_data fp = Aesd_dev"
  shows "keeps (\<lambda>(r, seen, pos, s'). s') (aesd_read env s (Some fp) (Some room) count (Some pos))"
proof (cases "pos <s 0 \<or> count = 0 \<or> interrupted env \<or> dev_lock s \<noteq> Unlocked")
  case True
  with assms show ?thesis
    by (cases "interrupted env"; cases "dev_lock s")
      (auto simp: aesd_read_def device_of_def mutex_lock_interruptible_def)
next
  case False
  with assms have "read_ready env s fp count pos" by (simp add: read_ready_def)
  from aesd_read_step [OF this refl, of room] assms(1) show ?thesis by simp
qed

lemma aesd_write_keeps:
  assumes "mem_inv s" "private_data fp = Aesd_dev" "allocator_ok env"
  shows "keeps snd (aesd_write env s (Some fp) (Some ubuf) count (Some pos))"
proof (cases "pos <s 0 \<or> count = 0 \<or> interrupted env \<or> dev_lock s \<noteq> Unlocked")
  case True
  with assms show ?thesis
    by (cases "interrupted env"; cases "dev_lock s")
      (auto simp: aesd_write_def device_of_def mutex_lock_interruptible_def)
next
  case False
  then have call: "dev_lock s = Unlocked" "\<not> interrupted env" "\<not> pos <s 0" "count \<noteq> 0" by simp_all
  show ?thesis
  proof (cases "unat count \<le> length ubuf")
    case True
    with call assms have "write_ready env s fp ubuf count pos" by (simp add: write_ready_def)
    from write_simulation [OF this] show ?thesis by auto
  next
    case False
    then show ?thesis
      using aesd_write_no_buffer [OF call(1,2) assms(2) call(3,4), of ubuf]
        aesd_write_faults [OF call(1,2) assms(2) call(3,4), of ubuf]
        kmalloc_at_fresh [OF assms(3), of "kheap s" count] assms(1)
      by (cases "kmalloc_at env (kheap s) count = 0") auto
  qed
qed

lemma aesd_llseek_keeps:
  assumes "mem_inv s" "private_data fp = Aesd_dev"
  shows "keeps (\<lambda>(r, fp', s'). s') (aesd_llseek env s fp off whence)"
    and "aesd_llseek env s fp off whence = Inr (r, fp', s') \<Longrightarrow> private_data fp' = Aesd_dev"
proof -
  have "keeps (\<lambda>(r, fp', s'). s') (aesd_llseek env s fp off whence) \<and>
    (aesd_llseek env s fp off whence = Inr (r, fp', s') \<longrightarrow> private_data fp' = Aesd_dev)"
  proof (cases "interrupted env \<or> dev_lock s \<noteq> Unlocked")
    case True
    with assms show ?thesis
      by (cases "interrupted env"; cases "dev_lock s")
        (auto simp: aesd_llseek_def device_of_def mutex_lock_interruptible_def)
  next
    case False
    with assms have "seek_ready env s fp" by (simp add: seek_ready_def)
    from aesd_llseek_result [OF this, of off whence] assms show ?thesis
      by (auto split: option.splits)
  qed
  then show "keeps (\<lambda>(r, fp', s'). s') (aesd_llseek env s fp off whence)"
    and "aesd_llseek env s fp off whence = Inr (r, fp', s') \<Longrightarrow> private_data fp' = Aesd_dev"
    by blast+
qed

lemma aesd_ioctl_keeps:
  assumes "mem_inv s" "private_data fp = Aesd_dev" "\<not> index_overflows env s cmd arg"
  shows "keeps (\<lambda>(r, fp', s'). s') (aesd_ioctl env s fp cmd arg)"
    and "aesd_ioctl env s fp cmd arg = Inr (r, fp', s') \<Longrightarrow> private_data fp' = Aesd_dev"
proof -
  have "keeps (\<lambda>(r, fp', s'). s') (aesd_ioctl env s fp cmd arg) \<and>
    (aesd_ioctl env s fp cmd arg = Inr (r, fp', s') \<longrightarrow> private_data fp' = Aesd_dev)"
  proof (cases "cmd \<noteq> AESDCHAR_IOCSEEKTO \<or> arg = None \<or> interrupted env \<or> dev_lock s \<noteq> Unlocked")
    case True
    with assms show ?thesis
      by (cases "interrupted env"; cases "dev_lock s")
        (auto simp: aesd_ioctl_def device_of_def mutex_lock_interruptible_def split: option.splits)
  next
    case False
    then obtain a where a: "cmd = AESDCHAR_IOCSEEKTO" "arg = Some a" by auto
    from False assms have "seek_ready env s fp" by (simp add: seek_ready_def)
    from seek_cases [OF this, of a] assms a show ?thesis by auto
  qed
  then show "keeps (\<lambda>(r, fp', s'). s') (aesd_ioctl env s fp cmd arg)"
    and "aesd_ioctl env s fp cmd arg = Inr (r, fp', s') \<Longrightarrow> private_data fp' = Aesd_dev"
    by blast+
qed

section \<open>Reachable states\<close>

inductive sys_step :: "sys \<Rightarrow> syscall \<Rightarrow> sys \<Rightarrow> bool" where
  call: "exec c y = Inr (r, y') \<Longrightarrow> sys_step y c y'"

inductive_cases sys_stepE: "sys_step y c y'"

definition fresh_driver :: driver where
  "fresh_driver = \<lparr>aesd_device = zero_dev, kheap = Map.empty\<rparr>"

inductive reachable :: "sys \<Rightarrow> bool" where
  start: "reachable \<lparr>sdrv = fresh_driver, files = Map.empty\<rparr>"
| step: "reachable y \<Longrightarrow> syscall_ok c \<Longrightarrow> sys_step y c y' \<Longrightarrow> reachable y'"

definition sys_inv :: "sys \<Rightarrow> bool" where
  "sys_inv y \<longleftrightarrow> mem_inv (sdrv y) \<and> (\<forall>fd fp. files y fd = Some fp \<longrightarrow> private_data fp = Aesd_dev)"

lemma fresh_mem_inv: "mem_inv fresh_driver"
  using cb.invar_empty cb.items_empty
  by (simp add: mem_inv_def fresh_driver_def zero_dev_def live_entries_def zero_entry_def)

text \<open>The outcome of a call that keeps the system safe.\<close>

definition call_safe :: "(64 word \<times> sys) cres \<Rightarrow> bool" where
  "call_safe m \<longleftrightarrow> memory_safe m \<and> (\<forall>r y. m = Inr (r, y) \<longrightarrow> sys_inv y)"

lemma sys_inv_file: "sys_inv y \<Longrightarrow> files y fd = Some fp \<Longrightarrow> mem_inv (sdrv y) \<and> private_data fp = Aesd_dev"
  by (simp add: sys_inv_def)

lemma sys_inv_upd:
  "sys_inv y \<Longrightarrow> mem_inv s \<Longrightarrow> sys_inv (y\<lparr>sdrv := s\<rparr>)"
  "sys_inv y \<Longrightarrow> private_data fp = Aesd_dev \<Longrightarrow> sys_inv (y\<lparr>files := (files y)(fd \<mapsto> fp)\<rparr>)"
  "sys_inv y \<Longrightarrow> sys_inv (y\<lparr>files := (files y)(fd := None)\<rparr>)"
  "sys_inv y \<Longrightarrow> mem_inv s \<Longrightarrow> private_data fp = Aesd_dev \<Longrightarrow>
     sys_inv (y\<lparr>sdrv := s, files := (files y)(fd \<mapsto> fp)\<rparr>)"
  by (auto simp: sys_inv_def split: if_splits)

lemma call_safe_Read: "sys_inv y \<Longrightarrow> call_safe (exec (Read fd env room count) y)"
proof (cases "files y fd")
  case (Some fp)
  assume inv: "sys_inv y"
  with Some have fp: "mem_inv (sdrv y)" "private_data fp = Aesd_dev" by (auto dest: sys_inv_file)
  from keeps_cases [OF aesd_read_keeps [OF this, of env room count "f_pos fp"]] inv Some fp
  show ?thesis by (auto simp: call_safe_def sys_inv_upd)
qed (simp add: call_safe_def)

lemma call_safe_Write:
  "sys_inv y \<Longrightarrow> allocator_ok env \<Longrightarrow> call_safe (exec (Write fd env ubuf count) y)"
proof (cases "files y fd")
  case (Some fp)
  assume inv: "sys_inv y" and alloc: "allocator_ok env"
  with Some have fp: "mem_inv (sdrv y)" "private_data fp = Aesd_dev" by (auto dest: sys_inv_file)
  from keeps_cases [OF aesd_write_keeps [OF this alloc, of ubuf count "f_pos fp"]] inv Some fp
  show ?thesis by (auto simp: call_safe_def sys_inv_upd)
qed (simp add: call_safe_def)

lemma call_safe_Llseek: "sys_inv y \<Longrightarrow> call_safe (exec (Llseek fd env off whence) y)"
proof (cases "files y fd")
  case (Some fp)
  assume inv: "sys_inv y"
  with Some have fp: "mem_inv (sdrv y)" "private_data fp = Aesd_dev" by (auto dest: sys_inv_file)
  from keeps_cases [OF aesd_llseek_keeps(1) [OF this, of env off whence]] inv Some fp
  show ?thesis by (auto simp: call_safe_def intro!: sys_inv_upd intro: aesd_llseek_keeps(2) [OF fp])
qed (simp add: call_safe_def)

lemma call_safe_Ioctl:
  "sys_inv y \<Longrightarrow> \<not> seek_overflows (Ioctl fd env cmd arg) y \<Longrightarrow> call_safe (exec (Ioctl fd env cmd arg) y)"
proof (cases "files y fd")
  case (Some fp)
  assume inv: "sys_inv y" and "\<not> seek_overflows (Ioctl fd env cmd arg) y"
  with Some have arg: "\<not> index_overflows env (sdrv y) cmd arg" by (simp add: seek_overflows_def)
  from inv Some have fp: "mem_inv (sdrv y)" "private_data fp = Aesd_dev" by (auto dest: sys_inv_file)
  from keeps_cases [OF aesd_ioctl_keeps(1) [OF this arg]] inv Some fp
  show ?thesis by (auto simp: call_safe_def intro!: sys_inv_upd intro: aesd_ioctl_keeps(2) [OF fp arg])
qed (simp add: call_safe_def)

lemma exec_safe:
  assumes "sys_inv y" "syscall_ok c" "\<not> seek_overflows c y"
  shows "call_safe (exec c y)"
proof (cases c)
  case (Open fd)
  with assms show ?thesis by (auto simp: call_safe_def aesd_open_def sys_inv_upd)
next
  case (Release fd)
  with assms show ?thesis by (auto simp: call_safe_def sys_inv_upd split: option.splits)
next
  case (Ioctl fd env cmd arg)
  with assms show ?thesis by (metis call_safe_Ioctl)
qed (use assms in \<open>simp_all add: call_safe_Read call_safe_Write call_safe_Llseek del: exec.simps\<close>)

lemma exec_overflow:
  assumes "sys_inv y" "seek_overflows c y"
  shows "exec c y = Inl OutOfBounds"
proof -
  obtain fd env cmd arg fp where c: "c = Ioctl fd env cmd arg" "files y fd = Some fp"
      "index_overflows env (sdrv y) cmd arg"
    using assms(2) by (auto simp: seek_overflows_def split: syscall.splits)
  then obtain a where a: "cmd = AESDCHAR_IOCSEEKTO" "arg = Some a"
    by (auto simp: index_overflows_def split: option.splits)
  have "seek_ready env (sdrv y) fp"
    using c sys_inv_file [OF assms(1) c(2)] by (simp add: seek_ready_def index_overflows_def)
  from aesd_ioctl_out_of_bounds [OF this, of a] c a show ?thesis
    by (simp add: index_overflows_def)
qed

lemma reachable_inv: "reachable y \<Longrightarrow> sys_inv y"
proof (induction rule: reachable.induct)
  case start
  show ?case by (simp add: sys_inv_def fresh_mem_inv)
next
  case (step y c y')
  then obtain r where call: "exec c y = Inr (r, y')" by (auto elim: sys_stepE)
  with step exec_overflow [of y c] have "\<not> seek_overflows c y" by auto
  with step call exec_safe [of y c] show ?case by (auto simp: call_safe_def)
qed

end
