(* ===== verification/Driver_Module.thy ===== *)
theory Driver_Module
  imports Driver_System
begin

text \<open>
  Life of the module: loading, runs of writes from a fresh device and what a reader gets
  back, the exits that leave the mutex locked and what they do to later calls, unloading.
\<close>

section \<open>Loading\<close>

lemma fresh_represents: "represents fresh_driver ([], [])"
  using fresh_mem_inv cb.items_empty
  by (simp add: represents_def fresh_driver_def zero_dev_def garbage_def view_of_def cur_cells_def
      zero_entry_def)

lemma init_result:
  assumes "kheap (drv ms) = Map.empty"
  shows "aesd_init_module ar nd ad ms =
    (if ar < 0 then (ar, ms\<lparr>aesd_major := 0\<rparr>)
     else if ad \<noteq> 0 then (ad, ms\<lparr>chrdev_region := None, aesd_major := MAJOR nd, drv := fresh_driver\<rparr>)
     else (0, ms\<lparr>chrdev_region := Some nd, aesd_major := MAJOR nd, drv := fresh_driver,
                 cdev_number := Some (MKDEV (MAJOR nd) (aesd_minor ms))\<rparr>))"
  using assms
  by (cases ms; cases "drv ms")
    (simp add: aesd_init_module_def aesd_setup_cdev_def unregister_chrdev_region_def Let_def MAJOR_def
      fresh_driver_def zero_dev_def init_empty)

section \<open>Runs of writes\<close>

fun write_all ::
    "kernel_env \<Rightarrow> driver \<Rightarrow> open_file \<Rightarrow> byte list list \<Rightarrow> (ssize_t list \<times> driver) cres" where
  "write_all env s fp [] = Inr ([], s)"
| "write_all env s fp (d # ds) =
     cbind (aesd_write env s (Some fp) (Some d) (word_of_nat (length d)) (Some (f_pos fp))) (\<lambda>(r, s').
     cbind (write_all env s' fp ds) (\<lambda>(rs, s''). Inr (r # rs, s'')))"

lemma log_write_pending: "length (snd (log_write d l)) \<le> length (snd l) + length d"
  by (cases l) (auto split: option.split)

definition good_env :: "kernel_env \<Rightarrow> bool" where
  "good_env env \<longleftrightarrow> allocator_ok env \<and> memory_available env \<and> \<not> interrupted env"

lemma sample_good: "good_env sample_env"
  by (simp add: good_env_def sample_env_ok sample_env_available) (simp add: sample_env_def)

lemma write_all_log:
  assumes "good_env env" "private_data fp = Aesd_dev" "\<not> f_pos fp <s 0"
  shows "represents s l \<Longrightarrow> [] \<notin> set ds \<Longrightarrow> length (snd l) + length (concat ds) \<le> KMALLOC_MAX \<Longrightarrow>
    \<exists>s'. write_all env s fp ds = Inr (map (\<lambda>d. word_of_nat (length d)) ds, s') \<and>
      represents s' (fold log_write ds l)"
proof (induction ds arbitrary: s l)
  case Nil
  then show ?case by simp
next
  case (Cons d ds)
  have d: "d \<noteq> []" and bound: "length (snd l) + length d \<le> KMALLOC_MAX" "length d \<le> KMALLOC_MAX"
    using Cons.prems by auto
  have ud: "unat (word_of_nat (length d) :: size_t) = length d"
    using bound(2) by (intro unat_of_nat64) simp
  have "(word_of_nat (length d) :: size_t) \<noteq> 0"
    using d ud by auto
  then have "write_ready env s fp d (word_of_nat (length d)) (f_pos fp)"
    using Cons.prems(1) assms ud by (simp add: write_ready_def represents_def good_env_def)
  then obtain s1 where s1: "aesd_write env s (Some fp) (Some d) (word_of_nat (length d)) (Some (f_pos fp)) =
      Inr (word_of_nat (length d), s1)" "represents s1 (log_write d l)"
    using write_refines_log [of s "fst l" "snd l" env fp d "word_of_nat (length d)" "f_pos fp"]
      Cons.prems(1) assms(1) bound(1) ud by (auto simp: good_env_def)
  have "length (snd (log_write d l)) + length (concat ds) \<le> KMALLOC_MAX"
    using log_write_pending [of d l] Cons.prems(3) by simp
  from Cons.IH [OF s1(2) _ this] Cons.prems(2) s1(1) show ?case by auto
qed

text \<open>A line ends in its only newline. Writing lines fills the log with the last ten.\<close>

definition is_line :: "byte list \<Rightarrow> bool" where
  "is_line d \<longleftrightarrow> d \<noteq> [] \<and> last d = newline \<and> newline \<notin> set (butlast d)"

lemma memchr_skip: "Some c \<notin> set cs \<Longrightarrow> memchr c (cs @ [Some c]) = Some (length cs)"
  by (induction cs) auto

lemma line_newline:
  assumes "is_line d"
  shows "memchr newline (map Some d) = Some (length d - 1)"
proof -
  from assms have "d = butlast d @ [newline]"
    using append_butlast_last_id [of d] by (simp add: is_line_def)
  then have "map Some d = map Some (butlast d) @ [Some newline]"
    by (metis list.map map_append)
  then show ?thesis
    using assms memchr_skip [of newline "map Some (butlast d)"] by (auto simp: is_line_def)
qed

lemma log_write_line: "is_line d \<Longrightarrow> log_write d (cs, p) = (keep_last 10 (cs @ [p @ d]), [])"
  by (auto simp: line_newline is_line_def)

lemma log_write_lines:
  "list_all is_line ds \<Longrightarrow> length cs \<le> 10 \<Longrightarrow>
     fold log_write ds (cs, []) = (keep_last 10 (cs @ ds), [])"
proof (induction ds arbitrary: cs)
  case Nil
  then show ?case by (simp add: keep_last_short)
next
  case (Cons d ds)
  then have "fold log_write (d # ds) (cs, []) = fold log_write ds (keep_last 10 (cs @ [d]), [])"
    using log_write_line [of d cs "[]"] by simp
  with Cons show ?case by (simp add: keep_last_absorb)
qed

text \<open>Reading a represented log from a position.\<close>

lemma represents_read:
  assumes "represents s l" "\<not> interrupted env" "private_data fp = Aesd_dev" "\<not> pos <s 0" "count \<noteq> 0"
    and "length (concat (fst l)) - unat pos < fuel"
  shows "read_until_eof env fuel s fp count pos =
    Inr (Some (map Some (drop (unat pos) (concat (fst l)))), s)"
proof -
  have ready: "read_ready env s fp count pos"
    using assms by (simp add: read_ready_def represents_def)
  have "concat (cmds (view_of s)) = map Some (concat (fst l))"
    using assms(1) by (simp add: represents_def map_concat)
  with read_until_eof_all [OF ready] assms(6) show ?thesis
    by (simp add: drop_map)
qed

section \<open>The mutex left locked\<close>

text \<open>Every handler that goes for the mutex then waits for good, unless a signal interrupts the wait.\<close>

definition wedged :: "driver \<Rightarrow> bool" where
  "wedged s \<longleftrightarrow> (\<forall>env fp. \<not> interrupted env \<and> private_data fp = Aesd_dev \<longrightarrow>
     (\<forall>room count pos. \<not> pos <s 0 \<and> count \<noteq> 0 \<longrightarrow>
        aesd_read env s (Some fp) (Some room) count (Some pos) = Inl Deadlock) \<and>
     (\<forall>ubuf count pos. \<not> pos <s 0 \<and> count \<noteq> 0 \<longrightarrow>
        aesd_write env s (Some fp) (Some ubuf) count (Some pos) = Inl Deadlock) \<and>
     (\<forall>off whence. aesd_llseek env s fp off whence = Inl Deadlock) \<and>
     (\<forall>a. aesd_ioctl env s fp AESDCHAR_IOCSEEKTO (Some a) = Inl Deadlock))"

lemma locked_wedged: "dev_lock s = Locked \<Longrightarrow> wedged s"
  by (simp add: wedged_def aesd_read_def aesd_write_def aesd_llseek_def aesd_ioctl_def device_of_def
      locked_deadlocks)

section \<open>Unloading\<close>

abbreviation free_entry :: "aesd_buffer_entry \<Rightarrow> heap \<Rightarrow> heap cres" where
  "free_entry \<equiv> \<lambda>e h. if buffptr e \<noteq> NULL then kfree h (buffptr e) else Inr h"

definition ptrs :: "aesd_buffer_entry list \<Rightarrow> ptr list" where
  "ptrs es = filter (\<lambda>p. p \<noteq> 0) (map buffptr es)"

lemma free_entries:
  "distinct (ptrs es) \<Longrightarrow> (\<forall>p \<in> set (ptrs es). h p \<noteq> None) \<Longrightarrow>
     cfold free_entry es h = Inr (h |` (- set (ptrs es)))"
proof (induction es arbitrary: h)
  case Nil
  then show ?case by (simp add: ptrs_def restrict_map_def)
next
  case (Cons e es)
  show ?case
  proof (cases "buffptr e = 0")
    case True
    with Cons show ?thesis by (simp add: ptrs_def)
  next
    case False
    let ?h = "h(buffptr e := None)"
    from False Cons.prems have fresh: "buffptr e \<notin> set (ptrs es)" and "distinct (ptrs es)"
      and live: "h (buffptr e) \<noteq> None" "\<forall>p \<in> set (ptrs es). h p \<noteq> None"
      by (auto simp: ptrs_def)
    then have "cfold free_entry es ?h = Inr (?h |` (- set (ptrs es)))"
      by (intro Cons.IH) auto
    moreover have "?h |` (- set (ptrs es)) = h |` (- set (ptrs (e # es)))"
      using False by (auto simp: ptrs_def restrict_map_def fun_eq_iff)
    ultimately show ?thesis
      using False live(1) by (auto simp: kfree_live)
  qed
qed

lemma ptrs_rotate: "distinct (ptrs (rotate k es)) = distinct (ptrs es)" "set (ptrs (rotate k es)) = set (ptrs es)"
proof -
  have parts: "ptrs es = ptrs (take (k mod length es) es) @ ptrs (drop (k mod length es) es)"
    "ptrs (rotate k es) = ptrs (drop (k mod length es) es) @ ptrs (take (k mod length es) es)"
    by (simp_all add: ptrs_def rotate_drop_take flip: filter_append map_append)
  show "distinct (ptrs (rotate k es)) = distinct (ptrs es)" "set (ptrs (rotate k es)) = set (ptrs es)"
    unfolding parts by auto
qed

lemma ptrs_entry:
  assumes "mem_inv s"
  shows "distinct (ptrs (entry (c_buffer (aesd_device s))))"
    and "set (ptrs (entry (c_buffer (aesd_device s)))) = buffptr ` set (dev_items s)"
proof -
  let ?b = "c_buffer (aesd_device s)"
  have "cb_inv ?b" and dist: "distinct (map buffptr (dev_items s))"
    using assms by (auto simp: mem_inv_def live_entries_def)
  then have "ptrs (rotate (unat (out_offs ?b)) (entry ?b)) = map buffptr (dev_items s)"
    using items_ptr(1) [OF assms]
    by (simp add: rotate_entry_items ptrs_def zero_entry_def filter_id_conv)
  with dist ptrs_rotate [of "unat (out_offs ?b)" "entry ?b"]
  show "distinct (ptrs (entry ?b))" "set (ptrs (entry ?b)) = buffptr ` set (dev_items s)"
    by auto
qed

lemma cleanup_result:
  assumes inv: "mem_inv (drv ms)"
  shows "\<exists>ms'. aesd_cleanup_module ms = Inr ms' \<and> cdev_number ms' = None \<and>
     (chrdev_region ms = Some (MKDEV (aesd_major ms) (aesd_minor ms)) \<longrightarrow> chrdev_region ms' = None) \<and>
     dom (kheap (drv ms')) = garbage (drv ms) \<union> ({buffptr (cur (drv ms))} - {0})"
proof -
  let ?s = "drv ms"
  let ?b = "c_buffer (aesd_device ?s)"
  let ?h = "kheap ?s |` (- set (ptrs (entry ?b)))"
  have live: "\<forall>p \<in> set (ptrs (entry ?b)). kheap ?s p \<noteq> None"
    using owned_live [OF inv] by (auto simp: ptrs_entry(2) [OF inv] owned_def live_entries_def)
  have "AESD_CIRCULAR_BUFFER_FOREACH free_entry ?b (kheap ?s) = Inr ?h"
    using free_entries [OF ptrs_entry(1) [OF inv] live] inv by (simp add: foreach_cfold mem_inv_def)
  moreover have "dom ?h = garbage ?s \<union> ({buffptr (cur ?s)} - {0})"
  proof -
    have "buffptr (cur ?s) \<noteq> 0 \<Longrightarrow> buffptr (cur ?s) \<in> dom (kheap ?s)"
      using owned_live [OF inv, of "buffptr (cur ?s)"] by (auto simp: owned_def live_entries_def)
    then show ?thesis
      using items_ptr(2) [OF inv]
      by (auto simp: ptrs_entry(2) [OF inv] garbage_def owned_def live_entries_def split: if_splits)
  qed
  ultimately show ?thesis
    by (simp add: aesd_cleanup_module_def Let_def unregister_chrdev_region_def)
qed

end
