(* ===== verification/Driver_Lines.thy ===== *)
theory Driver_Lines
  imports Driver_Module
begin

text \<open>
  Streams of bytes and the lines in them: what the log holds after a stream has been written in
  chunks, and a line written while bytes are pending.
\<close>

section \<open>A line behind pending bytes\<close>

lemma last_keep_last: "n \<noteq> 0 \<Longrightarrow> last (keep_last n (xs @ [x])) = x"
  by (simp add: keep_last_def)

lemma memchr_append: "memchr c xs = Some k \<Longrightarrow> memchr c (xs @ ys) = Some k"
  by (induction c xs arbitrary: k rule: memchr.induct) (auto split: if_splits)

lemma write_line_committed:
  assumes ready: "write_ready env s fp line n pos" and line: "is_line line" "unat n = length line"
    and mem: "kmalloc_at env (kheap s) n \<noteq> 0" "grown_at env s (kmalloc_at env (kheap s) n) line \<noteq> 0"
  shows "\<exists>s'. aesd_write env s (Some fp) (Some line) n (Some pos) = Inr (n, s') \<and>
    last (cmds (view_of s')) = pending (view_of s) @ map Some line"
proof -
  have n: "line = take (unat n) line" using line(2) by simp
  have k: "Suc (length line - 1) = length line"
    using line(1) by (simp add: is_line_def)
  from write_committed [OF ready n refl mem(1) refl mem(2) line_newline [OF line(1)]]
  show ?thesis
    unfolding k by (auto simp: last_keep_last)
qed

section \<open>Chunks and lines\<close>

text \<open>The complete lines of a byte stream and what follows the last newline.\<close>

fun lines_of :: "byte list \<Rightarrow> byte list list \<times> byte list" where
  "lines_of [] = ([], [])"
| "lines_of (c # cs) = (case lines_of cs of (ls, r) \<Rightarrow>
     if c = newline then ([c] # ls, r)
     else (case ls of [] \<Rightarrow> ([], c # r) | l # ls' \<Rightarrow> ((c # l) # ls', r)))"

lemma lines_of_no_newline: "newline \<notin> set d \<Longrightarrow> lines_of d = ([], d)"
  by (induction d) auto

lemma lines_of_append:
  "lines_of (xs @ ys) = (fst (lines_of xs) @ fst (lines_of (snd (lines_of xs) @ ys)),
     snd (lines_of (snd (lines_of xs) @ ys)))"
proof (induction xs)
  case Nil
  then show ?case by simp
next
  case (Cons c xs)
  then show ?case
    by (cases "lines_of xs"; cases "fst (lines_of xs)") (auto split: prod.splits list.splits)
qed

lemma lines_of_line: "newline \<notin> set d \<Longrightarrow> lines_of (d @ newline # ys) =
    ((d @ [newline]) # fst (lines_of ys), snd (lines_of ys))"
  by (induction d) (auto split: prod.splits)

lemma log_write_chunk:
  assumes "newline \<notin> set p" "count_list d newline \<le> 1"
  shows "\<exists>q ls. newline \<notin> set q \<and>
    log_write d (cs, p) = (if ls = [] then cs else keep_last 10 (cs @ ls), q) \<and>
    (\<forall>ys. lines_of (p @ d @ ys) = (ls @ fst (lines_of (q @ ys)), snd (lines_of (q @ ys))))"
proof (cases "memchr newline (map Some d)")
  case None
  then have "newline \<notin> set (p @ d)"
    using assms(1) by (auto simp: memchr_None_iff)
  with None show ?thesis
    by (intro exI [of _ "p @ d"] exI [of _ "[]"]) auto
next
  case (Some k)
  then have k: "k < length d" "d ! k = newline"
    using memchr_SomeD [OF Some] by auto
  then have d: "d = take k d @ newline # drop (Suc k) d"
    by (metis id_take_nth_drop)
  have "newline \<notin> set (take k d)"
    using memchr_first [OF Some] by (auto simp: take_map)
  moreover have "newline \<notin> set (drop (Suc k) d)"
  proof -
    have "count_list d newline = count_list (take k d) newline + Suc (count_list (drop (Suc k) d) newline)"
      by (subst d) simp
    with assms(2) show ?thesis by (simp add: count_list_0_iff)
  qed
  moreover have "take (Suc k) d = take k d @ [newline]"
    using k by (simp add: take_Suc_conv_app_nth)
  moreover have "lines_of (p @ d @ ys) = ([p @ take k d @ [newline]] @ fst (lines_of (drop (Suc k) d @ ys)),
      snd (lines_of (drop (Suc k) d @ ys)))" for ys
    using lines_of_line [of "p @ take k d" "drop (Suc k) d @ ys"] assms(1) calculation(1)
    by (subst d) simp
  ultimately show ?thesis
    using Some by (intro exI [of _ "drop (Suc k) d"] exI [of _ "[p @ take k d @ [newline]]"]) auto
qed

lemma log_write_chunks:
  "newline \<notin> set p \<Longrightarrow> (\<forall>d \<in> set ds. count_list d newline \<le> 1) \<Longrightarrow> length cs \<le> 10 \<Longrightarrow>
    fold log_write ds (cs, p) =
      (keep_last 10 (cs @ fst (lines_of (p @ concat ds))), snd (lines_of (p @ concat ds)))"
proof (induction ds arbitrary: cs p)
  case Nil
  then show ?case by (simp add: lines_of_no_newline keep_last_short)
next
  case (Cons d ds)
  from log_write_chunk [of p d cs] Cons.prems obtain q ls where q: "newline \<notin> set q"
      "log_write d (cs, p) = (if ls = [] then cs else keep_last 10 (cs @ ls), q)"
      "lines_of (p @ d @ concat ds) = (ls @ fst (lines_of (q @ concat ds)), snd (lines_of (q @ concat ds)))"
    by (metis list.set_intros(1))
  with Cons show ?case
    by (cases "ls = []") (simp_all add: keep_last_absorb)
qed

lemma lines_of_concat: "concat (fst (lines_of d)) @ snd (lines_of d) = d"
  by (induction d) (auto split: prod.splits list.splits)

lemma concat_keep_last_le: "length (concat (keep_last n xss)) \<le> length (concat xss)"
  using append_take_drop_id [of "length xss - n" xss]
  by (metis concat_append keep_last_def le_add2 length_append)

end
