(* ===== verification/Driver_Properties.thy ===== *)
theory Driver_Properties
  imports Driver_Lines
begin

text \<open>
  The properties of the character device: writing, reading, seeking, the device as a system of
  calls in any order, loading and unloading. Each is followed by an instance on a concrete
  device: the allocator \<open>sample_env\<close> and the device as the module loads it.
\<close>

section \<open>Inputs of the witnesses\<close>

definition sample_file :: open_file where
  "sample_file = \<lparr>f_pos = 0, private_data = Aesd_dev\<rparr>"

definition sample_line :: "byte list" where
  "sample_line = ''hi'' @ [newline]"

definition failing_env :: kernel_env where
  "failing_env = sample_env\<lparr>krealloc_at := \<lambda>h p n. NULL\<rparr>"

lemma failing_env_ok: "allocator_ok failing_env"
  using sample_env_ok by (simp add: failing_env_def allocator_ok_def)

lemma sample_file_sel [simp]: "f_pos sample_file = 0" "private_data sample_file = Aesd_dev"
  by (simp_all add: sample_file_def)

lemma fresh_lock [simp]: "dev_lock fresh_driver = Unlocked"
  by (simp add: fresh_driver_def zero_dev_def)

lemma fresh_view [simp]: "view_of fresh_driver = \<lparr>cmds = [], pending = []\<rparr>"
  using fresh_represents by (simp add: represents_def)

lemma sample_not_interrupted [simp]: "\<not> interrupted sample_env" "\<not> interrupted failing_env"
  by (simp_all add: sample_env_def failing_env_def)

lemma fresh_write_ready:
  "allocator_ok env \<Longrightarrow> \<not> interrupted env \<Longrightarrow> count \<noteq> 0 \<Longrightarrow> unat count \<le> length d \<Longrightarrow>
     write_ready env fresh_driver sample_file d count 0"
  by (simp add: write_ready_def fresh_mem_inv)

lemma sample_is_line: "is_line sample_line"
  by (simp add: is_line_def sample_line_def)

section \<open>Writing\<close>

text \<open>C1: A write call made with a free mutex and a readable buffer on a state that stands for
  a log, with memory available, returns the whole count and leaves the state standing for the
  log with the bytes written: the first newline completes a command, the bytes behind it are the
  new pending bytes, and the last ten commands are kept.\<close>

theorem write_refines_log_write:
  assumes "represents s (cs, p)" and "write_ready env s fp ubuf count pos"
    and "memory_available env" and "length p + unat count \<le> 2 ^ 32"
  shows "\<exists>s'. aesd_write env s (Some fp) (Some ubuf) count (Some pos) = Inr (count, s') \<and>
    represents s' (log_write (take (unat count) ubuf) (cs, p))"
  by (rule write_refines_log [OF assms])

theorem write_refines_log_write_witness:
  "\<exists>s'. aesd_write sample_env fresh_driver (Some sample_file) (Some sample_line) 3 (Some 0) = Inr (3, s') \<and>
    represents s' ([sample_line], [])"
  using write_refines_log_write [OF fresh_represents fresh_write_ready [of sample_env 3 sample_line]]
  by (simp add: sample_env_ok sample_env_available sample_line_def keep_last_def)

text \<open>C17: Every write call with a free mutex and a readable buffer, whatever the allocator
  answers, returns without a memory error, releases the mutex, keeps the memory invariant and has
  one of the outcomes of \<open>write_spec\<close>; a block is leaked only when the call reports that it is
  out of memory.\<close>

theorem write_has_a_specified_outcome:
  assumes "write_ready env s fp ubuf count pos"
  shows "\<exists>r s'. aesd_write env s (Some fp) (Some ubuf) count (Some pos) = Inr (r, s') \<and>
    mem_inv s' \<and> dev_lock s' = Unlocked \<and>
    write_spec (view_of s) (take (unat count) ubuf) r (view_of s') \<and>
    (garbage s' = garbage s \<or> r = - ENOMEM \<and> garbage s' = insert (buffptr (cur s)) (garbage s))"
  by (rule write_simulation [OF assms])

theorem write_has_a_specified_outcome_witness:
  "\<exists>r s'. aesd_write failing_env fresh_driver (Some sample_file) (Some sample_line) 3 (Some 0) = Inr (r, s') \<and>
    mem_inv s' \<and> dev_lock s' = Unlocked"
  using write_has_a_specified_outcome [OF fresh_write_ready [of failing_env 3 sample_line]]
  by (auto simp: failing_env_ok sample_line_def)

text \<open>A write with a NULL buffer, a negative position or a zero count returns -EINVAL, and an
  interrupted wait for the mutex returns -ERESTARTSYS; both leave the state alone. A NULL file or
  position pointer is dereferenced before the check that looks for it.\<close>

theorem write_early_exits:
  assumes "filp = None \<or> pos = None \<or> buf = None \<or> the pos <s 0 \<or> count = 0 \<or> interrupted env"
  shows "aesd_write env s filp buf count pos =
    (if filp = None \<or> pos = None then Inl NullDeref
     else if buf = None \<or> the pos <s 0 \<or> count = 0 then Inr (- EINVAL, s)
     else if private_data (the filp) = Null_dev then Inl NullDeref
     else Inr (- ERESTARTSYS, s))"
  using assms
  by (cases filp; cases pos; cases buf; cases "private_data (the filp)")
    (auto simp: aesd_write_def device_of_def mutex_lock_interruptible_def)

theorem write_early_exits_witness:
  "aesd_write sample_env fresh_driver None (Some sample_line) 3 (Some 0) = Inl NullDeref \<and>
   aesd_write sample_env fresh_driver (Some sample_file) None 3 (Some 0) = Inr (- EINVAL, fresh_driver)"
  using write_early_exits [of None "Some 0" "Some sample_line" 3 sample_env fresh_driver]
    write_early_exits [of "Some sample_file" "Some 0" None 3 sample_env fresh_driver]
  by simp

text \<open>C30: When not all of the user's bytes can be read, the write returns -EFAULT through the label
  \<open>free_kbuf\<close> that skips the unlock: data and memory are as before, but the mutex stays
  locked and every later call that needs it waits for good.\<close>

theorem write_fault_wedges_device:
  assumes "dev_lock s = Unlocked" "\<not> interrupted env" "allocator_ok env" "private_data fp = Aesd_dev"
    and "\<not> pos <s 0" "length ubuf < unat count" "kmalloc_at env (kheap s) count \<noteq> NULL"
  shows "\<exists>s'. aesd_write env s (Some fp) (Some ubuf) count (Some pos) = Inr (- EFAULT, s') \<and>
    view_of s' = view_of s \<and> kheap s' = kheap s \<and> wedged s'"
proof -
  have "count \<noteq> 0" using assms(6) by auto
  then show ?thesis
    using aesd_write_faults [of s env fp pos count ubuf] assms kmalloc_at_fresh [OF assms(3,7)]
    by (intro exI [of _ "set_lock Locked s"]) (simp add: locked_wedged)
qed

lemma sample_alloc: "unat n \<le> KMALLOC_MAX \<Longrightarrow> kmalloc_at sample_env (kheap fresh_driver) n \<noteq> 0"
  by (rule available_kmalloc [OF sample_env_available]) (simp_all add: fresh_driver_def)

theorem write_fault_wedges_device_witness:
  "\<exists>s'. aesd_write sample_env fresh_driver (Some sample_file) (Some sample_line) 4 (Some 0) = Inr (- EFAULT, s') \<and>
    wedged s'"
  using write_fault_wedges_device [of fresh_driver sample_env sample_file 0 sample_line 4]
    sample_alloc [of 4]
  by (auto simp: sample_env_ok sample_line_def)

text \<open>C29: A failed \<open>krealloc\<close> overwrites the only pointer to the pending bytes: the write returns
  -ENOMEM with the mutex free, the old block is leaked, its bytes are lost, and because their
  count is kept the next line written is stored behind as many bytes that were never written.\<close>

theorem failed_krealloc_leaks_and_exposes:
  assumes "write_ready env s fp ubuf count pos"
    and "kmalloc_at env (kheap s) count \<noteq> NULL"
    and "grown_at env s (kmalloc_at env (kheap s) count) (take (unat count) ubuf) = NULL"
    and "buffptr (cur s) \<noteq> NULL"
  shows "\<exists>s1. aesd_write env s (Some fp) (Some ubuf) count (Some pos) = Inr (- ENOMEM, s1) \<and>
    dev_lock s1 = Unlocked \<and> garbage s1 = insert (buffptr (cur s)) (garbage s) \<and>
    (\<forall>env' line n. is_line line \<and> unat n = length line \<and> write_ready env' s1 fp line n pos \<and>
       kmalloc_at env' (kheap s1) n \<noteq> NULL \<and>
       grown_at env' s1 (kmalloc_at env' (kheap s1) n) line \<noteq> NULL \<longrightarrow>
       (\<exists>s2. aesd_write env' s1 (Some fp) (Some line) n (Some pos) = Inr (n, s2) \<and>
          last (cmds (view_of s2)) = replicate (length (pending (view_of s))) None @ map Some line))"
proof -
  from write_lost [OF assms(1) refl refl assms(2,3)] obtain s1 where s1:
    "aesd_write env s (Some fp) (Some ubuf) count (Some pos) = Inr (- ENOMEM, s1)"
    "dev_lock s1 = Unlocked" "garbage s1 = garbage s \<union> ({buffptr (cur s)} - {0})"
    "view_of s1 = view_of s\<lparr>pending := replicate (length (pending (view_of s))) None\<rparr>"
    by blast
  have "\<exists>s2. aesd_write env' s1 (Some fp) (Some line) n (Some pos) = Inr (n, s2) \<and>
      last (cmds (view_of s2)) = replicate (length (pending (view_of s))) None @ map Some line"
    if "is_line line" "unat n = length line" "write_ready env' s1 fp line n pos"
      "kmalloc_at env' (kheap s1) n \<noteq> NULL"
      "grown_at env' s1 (kmalloc_at env' (kheap s1) n) line \<noteq> NULL" for env' line n
    using write_line_committed [OF that(3,1,2,4,5)] s1(4) by simp
  with s1 assms(4) show ?thesis by auto
qed

lemma pending_block:
  assumes "represents s (cs, p)" "p \<noteq> []"
  shows "buffptr (cur s) \<noteq> 0"
proof
  assume "buffptr (cur s) = 0"
  then have "map Some p = replicate (unat (esize (cur s))) None"
    using assms(1) by (simp add: represents_def view_of_def cur_cells_def)
  then have "Some (hd p) \<in> set (replicate (unat (esize (cur s))) None)"
    using assms(2) by (metis list.set_map hd_in_set imageI)
  then show False by (simp split: if_splits)
qed

theorem failed_krealloc_leaks_and_exposes_witness:
  "\<exists>s s1 b. represents s ([], ''hi'') \<and> b \<noteq> NULL \<and>
    aesd_write failing_env s (Some sample_file) (Some sample_line) 3 (Some 0) = Inr (- ENOMEM, s1) \<and>
    garbage s1 = {b}"
proof -
  from write_refines_log [OF fresh_represents fresh_write_ready [of sample_env 2 "''hi''"]]
  obtain s where s: "represents s ([], ''hi'')"
    by (auto simp: sample_env_ok sample_env_available)
  then have ready: "write_ready failing_env s sample_file sample_line 3 0"
    by (simp add: write_ready_def represents_def failing_env_ok sample_line_def)
  have "kmalloc_at failing_env (kheap s) 3 \<noteq> 0"
    using dom_small [of s "kheap s"] s available_kmalloc [OF sample_env_available, of "kheap s" 3]
    by (auto simp: represents_def failing_env_def)
  moreover have "grown_at failing_env s (kmalloc_at failing_env (kheap s) 3) (take (unat (3 :: size_t)) sample_line) = 0"
    by (simp add: grown_at_def failing_env_def)
  ultimately have "\<exists>s1. aesd_write failing_env s (Some sample_file) (Some sample_line) 3 (Some 0) = Inr (- ENOMEM, s1) \<and>
      garbage s1 = {buffptr (cur s)}"
    using failed_krealloc_leaks_and_exposes [OF ready _ _ pending_block [OF s]] s
    unfolding represents_def by (metis list.distinct(1))
  with s pending_block [OF s] show ?thesis by blast
qed

text \<open>C34: A write handles only the first newline: of two lines written in one call the first is
  stored as a command and the second stays pending although it is complete, so a reader does not
  get it; the call still reports the whole count as written.\<close>

theorem second_line_of_a_write_stays_pending:
  assumes "represents s (cs, p)" and "is_line l1" "is_line l2"
    and "write_ready env s fp (l1 @ l2) n pos" and "unat n = length (l1 @ l2)"
    and "memory_available env" and "length p + unat n \<le> 2 ^ 32" and "count \<noteq> 0"
    and "length (concat (keep_last 10 (cs @ [p @ l1]))) < fuel"
  shows "\<exists>s'. aesd_write env s (Some fp) (Some (l1 @ l2)) n (Some pos) = Inr (n, s') \<and>
    represents s' (keep_last 10 (cs @ [p @ l1]), l2) \<and>
    read_until_eof env fuel s' fp count 0 =
      Inr (Some (map Some (concat (keep_last 10 (cs @ [p @ l1])))), s')"
proof -
  have "memchr newline (map Some (l1 @ l2)) = Some (length l1 - 1)"
    using memchr_append [OF line_newline [OF assms(2)]] by simp
  then have "log_write (l1 @ l2) (cs, p) = (keep_last 10 (cs @ [p @ l1]), l2)"
    using assms(2) by (simp add: is_line_def)
  moreover have "take (unat n) (l1 @ l2) = l1 @ l2"
    unfolding assms(5) by simp
  ultimately obtain s' where s': "aesd_write env s (Some fp) (Some (l1 @ l2)) n (Some pos) = Inr (n, s')"
      "represents s' (keep_last 10 (cs @ [p @ l1]), l2)"
    using write_refines_log [OF assms(1,4,6,7)] by auto
  have "read_until_eof env fuel s' fp count 0 =
      Inr (Some (map Some (concat (keep_last 10 (cs @ [p @ l1])))), s')"
    using represents_read [OF s'(2), of env fp 0 count fuel] assms(4,8,9)
    by (simp add: write_ready_def)
  with s' show ?thesis by blast
qed

theorem second_line_of_a_write_stays_pending_witness:
  "\<exists>s'. aesd_write sample_env fresh_driver (Some sample_file) (Some (sample_line @ sample_line)) 6 (Some 0) =
      Inr (6, s') \<and>
    read_until_eof sample_env 4 s' sample_file 100 0 = Inr (Some (map Some sample_line), s')"
proof -
  have ready: "write_ready sample_env fresh_driver sample_file (sample_line @ sample_line) 6 0"
    by (rule fresh_write_ready) (simp_all add: sample_env_ok sample_line_def)
  show ?thesis
    using second_line_of_a_write_stays_pending [OF fresh_represents sample_is_line sample_is_line ready,
        of 100 4] sample_env_available
    by (auto simp: sample_line_def keep_last_def)
qed

text \<open>C3: A stream of bytes may be cut into write calls in any way that puts at most one newline
  into each: every call reports all its bytes, and a reader then gets the last ten complete lines
  of the stream, however they were cut.\<close>

theorem chunked_writes_read_back_last_ten_lines:
  assumes "good_env env" and "private_data fp = Aesd_dev" and "\<not> f_pos fp <s 0"
    and "[] \<notin> set ds" and "\<forall>d \<in> set ds. count_list d newline \<le> 1"
    and "length (concat ds) \<le> 2 ^ 32" and "count \<noteq> 0" and "length (concat ds) < fuel"
  shows "\<exists>s'. write_all env fresh_driver fp ds = Inr (map (\<lambda>d. word_of_nat (length d)) ds, s') \<and>
    read_until_eof env fuel s' fp count 0 =
      Inr (Some (map Some (concat (keep_last 10 (fst (lines_of (concat ds)))))), s')"
proof -
  let ?s = "concat ds"
  obtain s' where s': "write_all env fresh_driver fp ds = Inr (map (\<lambda>d. word_of_nat (length d)) ds, s')"
      "represents s' (fold log_write ds ([], []))"
    using write_all_log [OF assms(1-3) fresh_represents assms(4)] assms(6) by auto
  then have rep: "represents s' (keep_last 10 (fst (lines_of ?s)), snd (lines_of ?s))"
    using log_write_chunks [of "[]" ds "[]"] assms(5) by simp
  have "length (concat (keep_last 10 (fst (lines_of ?s)))) \<le> length ?s"
    using lines_of_concat [of ?s] concat_keep_last_le [of 10 "fst (lines_of ?s)"]
    by (metis le_add1 le_trans length_append)
  then have "read_until_eof env fuel s' fp count 0 =
      Inr (Some (map Some (concat (keep_last 10 (fst (lines_of ?s))))), s')"
    using represents_read [OF rep, of env fp 0 count fuel] assms(1,2,7,8)
    by (simp add: good_env_def)
  with s' show ?thesis by blast
qed

theorem chunked_writes_read_back_last_ten_lines_witness:
  "\<exists>s'. write_all sample_env fresh_driver sample_file [''h'', ''i'' @ newline # ''ho''] = Inr ([1, 4], s') \<and>
    read_until_eof sample_env 9 s' sample_file 2 0 = Inr (Some (map Some sample_line), s')"
  using chunked_writes_read_back_last_ten_lines [OF sample_good, of sample_file
      "[''h'', ''i'' @ newline # ''ho'']" 2 9]
  by (auto simp: sample_line_def keep_last_def)

section \<open>Reading\<close>

text \<open>C15: A read with a free mutex and valid arguments transfers the bytes from the position on up
  to the end of the command there or to the count, advances the position by as many, and
  returns 0 exactly at the end; when user space has less room it returns -EFAULT and the
  position stays. It never changes the device.\<close>

theorem read_returns_the_bytes_at_the_position:
  assumes "read_ready env s fp count pos"
    and "n = read_size (cmds (view_of s)) (unat pos) (unat count)"
  shows "(n = 0 \<longleftrightarrow> length (concat (cmds (view_of s))) \<le> unat pos) \<and>
    aesd_read env s (Some fp) (Some room) count (Some pos) =
      Inr (if n \<le> room then (word_of_nat n, take n (drop (unat pos) (concat (cmds (view_of s)))),
                             pos + word_of_nat n, s)
           else (- EFAULT, take room (drop (unat pos) (concat (cmds (view_of s)))), pos, s))"
proof -
  have "unat count \<noteq> 0"
    using assms(1) by (simp add: read_ready_def unat_eq_zero)
  then show ?thesis
    using aesd_read_step [OF assms] by (simp add: assms(2) read_size_zero)
qed

lemma fresh_read_ready: "count \<noteq> 0 \<Longrightarrow> read_ready sample_env fresh_driver sample_file count 0"
  by (simp add: read_ready_def fresh_mem_inv)

theorem read_returns_the_bytes_at_the_position_witness:
  "aesd_read sample_env fresh_driver (Some sample_file) (Some 5) 5 (Some 0) = Inr (0, [], 0, fresh_driver)"
  using read_returns_the_bytes_at_the_position [OF fresh_read_ready [of 5] refl, of 5]
  by (simp add: read_size_def)

text \<open>C18: Reading until a read returns 0 ends within as many calls as there are bytes left plus
  one and yields everything stored from the position on, whatever the size of each read.\<close>

theorem reading_until_eof_returns_everything:
  assumes "read_ready env s fp count pos"
    and "length (drop (unat pos) (concat (cmds (view_of s)))) < fuel"
  shows "read_until_eof env fuel s fp count pos =
    Inr (Some (drop (unat pos) (concat (cmds (view_of s)))), s)"
  by (rule read_until_eof_all [OF assms])

theorem reading_until_eof_returns_everything_witness:
  "read_until_eof sample_env 1 fresh_driver sample_file 5 0 = Inr (Some [], fresh_driver)"
  using reading_until_eof_returns_everything [OF fresh_read_ready [of 5], of 1] by simp

section \<open>Seeking\<close>

lemma fresh_seek_ready: "seek_ready sample_env fresh_driver sample_file"
  by (simp add: seek_ready_def fresh_mem_inv)

text \<open>C23: A seek whose target is not negative sets the file position to it and returns it: the
  offset itself, the offset from the position, or the offset from the total size of the stored
  commands. The mutex is free afterwards.\<close>

theorem llseek_sets_the_position:
  assumes "seek_ready env s fp" and "llseek_target s fp off whence = Some p" and "\<not> p <s 0"
  shows "aesd_llseek env s fp off whence = Inr (p, fp\<lparr>f_pos := p\<rparr>, s)"
  using aesd_llseek_result [OF assms(1)] assms(2,3) by simp

theorem llseek_sets_the_position_witness:
  "aesd_llseek sample_env fresh_driver sample_file 3 2 = Inr (3, sample_file\<lparr>f_pos := 3\<rparr>, fresh_driver)"
  using llseek_sets_the_position [OF fresh_seek_ready, of 3 2 3] by (simp add: llseek_target_def sless_zero_iff)

text \<open>C31: A seek to a negative position or with an unknown origin returns -EINVAL without
  releasing the mutex it took: every later call that needs it waits for good.\<close>

theorem llseek_error_wedges_device:
  assumes "seek_ready env s fp"
    and "case llseek_target s fp off whence of None \<Rightarrow> True | Some p \<Rightarrow> p <s 0"
  shows "\<exists>s'. aesd_llseek env s fp off whence = Inr (- EINVAL, fp, s') \<and> wedged s'"
  using aesd_llseek_result [OF assms(1), of off whence] assms(2)
  by (intro exI [of _ "set_lock Locked s"]) (auto simp: locked_wedged split: option.splits)

theorem llseek_error_wedges_device_witness:
  "\<exists>s'. aesd_llseek sample_env fresh_driver sample_file 0 7 = Inr (- EINVAL, sample_file, s') \<and> wedged s'"
  using llseek_error_wedges_device [OF fresh_seek_ready, of 0 7] by (simp add: llseek_target_def)

text \<open>C20: The seek command with the number of a stored command and an offset not beyond its size
  sets the position so that reading until the end returns that command from the offset on and
  all commands after it; an offset equal to the size is accepted.\<close>

theorem seek_command_then_read:
  assumes "seek_ready env s fp" and "k = unat (write_cmd a)" and "k < length (cmds (view_of s))"
    and "unat (write_cmd_offset a) \<le> length (cmds (view_of s) ! k)"
    and "count \<noteq> 0" and "length (concat (cmds (view_of s))) < fuel"
  shows "\<exists>fp'. aesd_ioctl env s fp AESDCHAR_IOCSEEKTO (Some a) = Inr (f_pos fp', fp', s) \<and>
    unat (f_pos fp') = length (concat (take k (cmds (view_of s)))) + unat (write_cmd_offset a) \<and>
    read_until_eof env fuel s fp' count (f_pos fp') =
      Inr (Some (drop (unat (write_cmd_offset a)) (cmds (view_of s) ! k) @
                 concat (drop (Suc k) (cmds (view_of s)))), s)"
proof -
  let ?cs = "cmds (view_of s)" and ?off = "unat (write_cmd_offset a)" and ?b = "c_buffer (aesd_device s)"
  let ?n = "length (concat (take k ?cs)) + ?off"
  let ?p = "word_of_nat ?n :: loff_t"
  have inv: "mem_inv s" using assms(1) by (simp add: seek_ready_def)
  have k: "k < length (dev_items s)" using assms(3) by (simp add: view_of_def)
  have "length (dev_items s) \<le> 10"
    using inv by (auto simp: mem_inv_def length_cb_items cb_inv_def)
  then have "unat (out_offs ?b) + k \<le> 2 ^ 31"
    using k cb_inv_out [of ?b] inv by (simp add: mem_inv_def)
  from aesd_ioctl_admitted [OF assms(1) refl assms(2) _ this refl] k
  have io: "aesd_ioctl env s fp AESDCHAR_IOCSEEKTO (Some a) = Inr (?p, fp\<lparr>f_pos := ?p\<rparr>, s)"
    using assms(4) seek_base_items [OF inv refl, of k] seek_slot_items [OF inv refl k] by simp
  have cut: "concat ?cs = concat (take k ?cs) @ ?cs ! k @ concat (drop (Suc k) ?cs)"
    by (metis assms(3) concat.simps(2) concat_append id_take_nth_drop)
  then have "?n \<le> 10 * KMALLOC_MAX"
    using assms(4) esizes_bound [OF inv] stored_length [OF inv] by simp
  then have adv: "unat ?p = ?n" "\<not> ?p <s 0"
    using pos_advance [of 0 ?n] by simp_all
  have "drop ?n (concat ?cs) = drop ?off (?cs ! k) @ concat (drop (Suc k) ?cs)"
    unfolding cut using assms(4) by simp
  moreover have "read_ready env s (fp\<lparr>f_pos := ?p\<rparr>) count ?p"
    using assms(1,5) adv by (simp add: seek_ready_def read_ready_def)
  from read_until_eof_all [OF this, of fuel] assms(6) adv
  have "read_until_eof env fuel s (fp\<lparr>f_pos := ?p\<rparr>) count ?p = Inr (Some (drop ?n (concat ?cs)), s)"
    by simp
  ultimately show ?thesis
    using io adv by (intro exI [of _ "fp\<lparr>f_pos := ?p\<rparr>"]) simp
qed

text \<open>Any other command number than the seek command yields -ENOTTY, an argument that cannot be
  read -EFAULT, an interrupted wait -EINVAL; on a ring that is not full a command number that is
  not stored yields -EINVAL, as does an offset beyond the command. The state stays as it was.\<close>

theorem seek_command_rejections:
  assumes "mem_inv s" "dev_lock s = Unlocked" "private_data fp = Aesd_dev"
    and "cmd \<noteq> AESDCHAR_IOCSEEKTO \<or> arg = None \<or> interrupted env \<or>
      (case arg of None \<Rightarrow> False | Some a \<Rightarrow>
         if unat (write_cmd a) < length (cmds (view_of s))
         then length (cmds (view_of s) ! unat (write_cmd a)) < unat (write_cmd_offset a)
         else \<not> full (c_buffer (aesd_device s)))"
  shows "aesd_ioctl env s fp cmd arg =
    Inr (if cmd \<noteq> AESDCHAR_IOCSEEKTO then - ENOTTY else if arg = None then - EFAULT else - EINVAL, fp, s)"
proof (cases "cmd \<noteq> AESDCHAR_IOCSEEKTO \<or> arg = None \<or> interrupted env")
  case True
  with assms(3) show ?thesis
    by (auto simp: aesd_ioctl_def device_of_def lock_interrupted split: option.splits)
next
  case False
  then obtain a where a: "cmd = AESDCHAR_IOCSEEKTO" "arg = Some a" by auto
  let ?k = "unat (write_cmd a)" and ?b = "c_buffer (aesd_device s)"
  have ready: "seek_ready env s fp"
    using False assms by (simp add: seek_ready_def)
  have items: "length (cmds (view_of s)) = length (dev_items s)" by (simp add: view_of_def)
  show ?thesis
  proof (cases "?k < length (dev_items s)")
    case True
    have "length (dev_items s) \<le> 10"
      using assms(1) by (auto simp: mem_inv_def length_cb_items cb_inv_def)
    then have "unat (out_offs ?b) + ?k \<le> 2 ^ 31"
      using True cb_inv_out [of ?b] assms(1) by (simp add: mem_inv_def)
    from aesd_ioctl_admitted [OF ready refl refl _ this refl] True
    show ?thesis
      using False assms(4) a items seek_slot_items [OF assms(1) refl True] by simp
  next
    case not_stored: False
    then show ?thesis
      using False assms(4) a items aesd_ioctl_rejected [OF ready, of a] by simp
  qed
qed

theorem seek_command_rejections_witness:
  "aesd_ioctl sample_env fresh_driver sample_file 7 None = Inr (- ENOTTY, sample_file, fresh_driver) \<and>
   aesd_ioctl sample_env fresh_driver sample_file AESDCHAR_IOCSEEKTO
     (Some \<lparr>write_cmd = 0, write_cmd_offset = 0\<rparr>) = Inr (- EINVAL, sample_file, fresh_driver)"
  using seek_command_rejections [OF fresh_mem_inv, of sample_file 7 None sample_env]
    seek_command_rejections [OF fresh_mem_inv, of sample_file AESDCHAR_IOCSEEKTO
      "Some \<lparr>write_cmd = 0, write_cmd_offset = 0\<rparr>" sample_env]
  by (simp add: AESDCHAR_IOCSEEKTO_def IOWR_def) (simp add: fresh_driver_def zero_dev_def empty_buffer_def)

text \<open>C32: On a full ring the command number is not checked. Every number from ten up to \<open>2 ^ 31 - 1\<close> with
  which the signed index does not overflow (its sum with \<open>out_offs\<close> is at most \<open>2 ^ 31\<close>) goes round the
  ring: the call succeeds when the offset is inside the slot it ends in, the position set is at or
  beyond the end of everything stored, and a read there returns end of file.\<close>

theorem seek_command_beyond_full_ring:
  assumes "seek_ready env s fp" and "full (c_buffer (aesd_device s))"
    and "10 \<le> unat (write_cmd a)" and "unat (write_cmd a) < 2 ^ 31"
    and "unat (out_offs (c_buffer (aesd_device s))) + unat (write_cmd a) \<le> 2 ^ 31"
    and "unat (write_cmd_offset a) \<le> length (cmds (view_of s) ! (unat (write_cmd a) mod 10))"
    and "count \<noteq> 0"
  shows "\<exists>fp'. aesd_ioctl env s fp AESDCHAR_IOCSEEKTO (Some a) = Inr (f_pos fp', fp', s) \<and>
    length (concat (cmds (view_of s))) \<le> unat (f_pos fp') \<and>
    aesd_read env s (Some fp') (Some room) count (Some (f_pos fp')) = Inr (0, [], f_pos fp', s)"
proof -
  let ?k = "unat (write_cmd a)" and ?off = "unat (write_cmd_offset a)" and ?b = "c_buffer (aesd_device s)"
  let ?n = "seek_base ?b ?k + ?off"
  let ?p = "word_of_nat ?n :: loff_t"
  have inv: "mem_inv s" using assms(1) by (simp add: seek_ready_def)
  note round = seek_round [OF inv refl assms(2)]
  have items: "length (dev_items s) = 10"
    using inv assms(2) by (simp add: mem_inv_def length_cb_items)
  have slot: "unat (esize (seek_slot ?b ?k)) = length (cmds (view_of s) ! (?k mod 10))"
    using seek_slot_items [OF inv refl, of "?k mod 10"] items round(1) [of ?k] by simp
  from aesd_ioctl_admitted [OF assms(1) refl refl _ assms(5) refl] assms(2,6) slot
  have io: "aesd_ioctl env s fp AESDCHAR_IOCSEEKTO (Some a) = Inr (?p, fp\<lparr>f_pos := ?p\<rparr>, s)"
    by simp
  have "1 \<le> ?k div 10" using assms(3) by simp
  then have beyond: "stored s \<le> ?n"
    using mult_le_mono1 [of 1 "?k div 10" "stored s"] unfolding round(2) by linarith
  have small: "?n < 2 ^ 63"
    using seek_base_bound [OF inv refl assms(2), of ?k] assms(4)
      unsigned_less [of "write_cmd_offset a", where ?'a = nat] by simp
  then have u: "unat ?p = ?n" by (intro unat_of_nat64) simp
  then have "read_ready env s (fp\<lparr>f_pos := ?p\<rparr>) count ?p"
    using assms(1,7) small by (simp add: seek_ready_def read_ready_def sless_zero_iff)
  from aesd_read_step [OF this refl, of room] beyond u read_size_zero [of "cmds (view_of s)" ?n "unat count"]
  have "aesd_read env s (Some (fp\<lparr>f_pos := ?p\<rparr>)) (Some room) count (Some ?p) = Inr (0, [], ?p, s)"
    by simp
  with io beyond u show ?thesis
    by (intro exI [of _ "fp\<lparr>f_pos := ?p\<rparr>"]) simp
qed

text \<open>C33: With a command number on a full ring whose sum with \<open>out_offs\<close> is above \<open>2 ^ 31\<close> the loop of the
  seek command runs its signed index past \<open>INT_MAX\<close> and reads outside the array.\<close>

theorem seek_command_reads_out_of_bounds:
  assumes "seek_ready env s fp" and "full (c_buffer (aesd_device s))"
    and "2 ^ 31 < unat (out_offs (c_buffer (aesd_device s))) + unat (write_cmd a)"
  shows "aesd_ioctl env s fp AESDCHAR_IOCSEEKTO (Some a) = Inl OutOfBounds"
  using aesd_ioctl_out_of_bounds [OF assms(1,2), of a] assms(3) by simp

text \<open>Devices whose ring holds one line, and ten, for the witnesses.\<close>

lemma one_line_device:
  "\<exists>s. represents s ([sample_line], []) \<and> seek_ready sample_env s sample_file"
  using write_refines_log [OF fresh_represents fresh_write_ready [of sample_env 3 sample_line]]
  by (fastforce simp: sample_env_ok sample_env_available sample_line_def keep_last_def seek_ready_def
      represents_def)

lemma full_device:
  "\<exists>s. represents s (replicate 10 sample_line, []) \<and> seek_ready sample_env s sample_file \<and>
    full (c_buffer (aesd_device s))"
proof -
  let ?ds = "replicate 10 sample_line"
  have "fold log_write ?ds ([], []) = (?ds, [])"
    using log_write_lines [of ?ds "[]"] by (simp add: sample_is_line list_all_length keep_last_short)
  moreover have "length (concat ?ds) \<le> KMALLOC_MAX" "[] \<notin> set ?ds"
    by (simp_all add: length_concat sum_list_replicate sample_line_def)
  ultimately obtain s where s: "represents s (?ds, [])"
    using write_all_log [OF sample_good, of sample_file fresh_driver "([], [])" ?ds] fresh_represents
    by auto
  have "length (cmds (view_of s)) = 10"
    using s by (simp add: represents_def)
  then have items: "length (dev_items s) = 10" by (simp add: view_of_def)
  have inv: "cb_inv (c_buffer (aesd_device s))"
    using s by (simp add: represents_def mem_inv_def)
  then have "full (c_buffer (aesd_device s))"
    using items length_cb_items [OF inv] by (auto simp: cb_inv_def split: if_splits)
  with s show ?thesis by (auto simp: seek_ready_def represents_def)
qed

theorem seek_command_then_read_witness:
  "\<exists>s fp'. aesd_ioctl sample_env s sample_file AESDCHAR_IOCSEEKTO
      (Some \<lparr>write_cmd = 0, write_cmd_offset = 1\<rparr>) = Inr (1, fp', s) \<and>
    read_until_eof sample_env 4 s fp' 5 1 = Inr (Some [Some (CHR ''i''), Some newline], s)"
proof -
  from one_line_device obtain s where s: "represents s ([sample_line], [])" "seek_ready sample_env s sample_file"
    by blast
  then have v: "cmds (view_of s) = [map Some sample_line]" by (simp add: represents_def)
  have one: "unat p = Suc 0 \<longleftrightarrow> p = 1" for p :: loff_t
    by (simp add: word_unat_eq_iff)
  from seek_command_then_read [OF s(2), of 0 "\<lparr>write_cmd = 0, write_cmd_offset = 1\<rparr>" 5 4]
  show ?thesis using v by (fastforce simp: sample_line_def one)
qed

theorem seek_command_beyond_full_ring_witness:
  "\<exists>s fp'. represents s (replicate 10 sample_line, []) \<and>
    aesd_ioctl sample_env s sample_file AESDCHAR_IOCSEEKTO
      (Some \<lparr>write_cmd = 12, write_cmd_offset = 0\<rparr>) = Inr (f_pos fp', fp', s) \<and> 30 \<le> unat (f_pos fp')"
proof -
  from full_device obtain s where s: "represents s (replicate 10 sample_line, [])"
    "seek_ready sample_env s sample_file" "full (c_buffer (aesd_device s))" by blast
  have "length (concat (cmds (view_of s))) = 30"
    using s(1) by (simp add: represents_def length_concat sum_list_replicate sample_line_def)
  moreover have "unat (out_offs (c_buffer (aesd_device s))) < 10"
    using s(2) cb_inv_out [of "c_buffer (aesd_device s)"] by (simp add: seek_ready_def mem_inv_def)
  ultimately show ?thesis
    using seek_command_beyond_full_ring [OF s(2,3), of "\<lparr>write_cmd = 12, write_cmd_offset = 0\<rparr>" 1] s(1)
    by (intro exI [of _ s]) auto
qed

theorem seek_command_reads_out_of_bounds_witness:
  "\<exists>s. aesd_ioctl sample_env s sample_file AESDCHAR_IOCSEEKTO
      (Some \<lparr>write_cmd = 0xFFFFFFFF, write_cmd_offset = 0\<rparr>) = Inl OutOfBounds"
proof -
  from full_device obtain s where s: "seek_ready sample_env s sample_file" "full (c_buffer (aesd_device s))"
    by blast
  show ?thesis
    using seek_command_reads_out_of_bounds [OF s, of "\<lparr>write_cmd = 0xFFFFFFFF, write_cmd_offset = 0\<rparr>"]
    by auto
qed

section \<open>The driver as a system\<close>

text \<open>C4: Whatever calls processes make on the device, in whatever order and with whatever arguments, with
  an allocator that behaves: a call is memory safe (it touches no memory it must not, frees no block
  twice and dereferences no NULL; at worst it waits for the mutex) exactly when it is not a seek
  command that gets the mutex, finds the ring full and names a number with which the signed index
  overflows; that one reads outside the array. A call that returns keeps the memory invariant.\<close>

theorem memory_safe_but_for_the_seek_index:
  assumes "reachable y" and "syscall_ok c"
  shows "(if seek_overflows c y then exec c y = Inl OutOfBounds else memory_safe (exec c y)) \<and>
    (\<forall>r y'. exec c y = Inr (r, y') \<longrightarrow> reachable y' \<and> mem_inv (sdrv y'))"
proof -
  note inv = reachable_inv [OF assms(1)]
  have "reachable y' \<and> mem_inv (sdrv y')" if call: "exec c y = Inr (r, y')" for r y'
  proof -
    have "reachable y'" using assms call by (blast intro: reachable.step sys_step.call)
    with reachable_inv [OF this] show ?thesis by (simp add: sys_inv_def)
  qed
  moreover have "if seek_overflows c y then exec c y = Inl OutOfBounds else memory_safe (exec c y)"
    using exec_overflow [OF inv, of c] exec_safe [OF inv assms(2)] by (simp add: call_safe_def)
  ultimately show ?thesis by blast
qed

text \<open>A device that was opened, and the line written to it.\<close>

definition opened_sys :: sys where
  "opened_sys = \<lparr>sdrv = fresh_driver, files = [3 \<mapsto> sample_file]\<rparr>"

lemma opened_sys_reachable: "reachable opened_sys"
proof -
  have "exec (Open 3) \<lparr>sdrv = fresh_driver, files = Map.empty\<rparr> = Inr (0, opened_sys)"
    by (simp add: aesd_open_def opened_sys_def sample_file_def)
  from sys_step.call [OF this] show ?thesis
    by (rule reachable.step [OF reachable.start, rotated]) simp
qed

theorem memory_safe_but_for_the_seek_index_witness:
  "memory_safe (exec (Write 3 sample_env sample_line 3) opened_sys) \<and>
   (\<exists>y'. exec (Write 3 sample_env sample_line 3) opened_sys = Inr (3, y') \<and> mem_inv (sdrv y'))"
proof -
  note safe = memory_safe_but_for_the_seek_index [OF opened_sys_reachable, of "Write 3 sample_env sample_line 3"]
  obtain s where "aesd_write sample_env fresh_driver (Some sample_file) (Some sample_line) 3 (Some 0) = Inr (3, s)"
    using write_refines_log [OF fresh_represents fresh_write_ready [of sample_env 3 sample_line]]
    by (fastforce simp: sample_env_ok sample_env_available sample_line_def)
  then have "\<exists>y'. exec (Write 3 sample_env sample_line 3) opened_sys = Inr (3, y')"
    by (simp add: opened_sys_def)
  with safe show ?thesis
    by (auto simp: seek_overflows_def sample_env_ok simp del: exec.simps)
qed

section \<open>Which calls keep the mutex\<close>

text \<open>A call whose arguments and environment lead it to an exit that skips the unlock.\<close>

definition leaves_locked :: "syscall \<Rightarrow> sys \<Rightarrow> bool" where
  "leaves_locked c y =
     (case c of
        Write fd env ubuf count \<Rightarrow>
          (case files y fd of None \<Rightarrow> False
           | Some fp \<Rightarrow> \<not> interrupted env \<and> \<not> f_pos fp <s 0 \<and> count \<noteq> 0 \<and>
               kmalloc_at env (kheap (sdrv y)) count \<noteq> NULL \<and> length ubuf < unat count)
      | Llseek fd env off whence \<Rightarrow>
          (case files y fd of None \<Rightarrow> False
           | Some fp \<Rightarrow> \<not> interrupted env \<and>
               (case llseek_target (sdrv y) fp off whence of None \<Rightarrow> True | Some p \<Rightarrow> p <s 0))
      | _ \<Rightarrow> False)"

text \<open>A result that is a return with the mutex free, or locked where \<open>b\<close> says so.\<close>

definition returns_locked :: "bool \<Rightarrow> ('a \<Rightarrow> driver) \<Rightarrow> 'a cres \<Rightarrow> bool" where
  "returns_locked b st m \<longleftrightarrow>
     (case m of Inl t \<Rightarrow> False | Inr x \<Rightarrow> dev_lock (st x) = (if b then Locked else Unlocked))"

lemma returns_locked_simps [simp]:
  "returns_locked b st (Inl t) \<longleftrightarrow> False"
  "returns_locked b st (Inr x) \<longleftrightarrow> dev_lock (st x) = (if b then Locked else Unlocked)"
  by (simp_all add: returns_locked_def)

lemma returns_lockedD: "returns_locked b st m \<Longrightarrow> \<exists>x. m = Inr x \<and> (dev_lock (st x) = Locked \<longleftrightarrow> b)"
  by (cases m) (auto split: if_splits)

lemma aesd_read_lock:
  assumes "mem_inv s" "private_data fp = Aesd_dev" "dev_lock s = Unlocked"
  shows "returns_locked False (\<lambda>(r, seen, pos, s'). s') (aesd_read env s (Some fp) (Some room) count (Some pos))"
proof (cases "pos <s 0 \<or> count = 0 \<or> interrupted env")
  case True
  with assms show ?thesis by (auto simp: aesd_read_def device_of_def lock_interrupted)
next
  case False
  with assms have "read_ready env s fp count pos" by (simp add: read_ready_def)
  from aesd_read_step [OF this refl, of room] assms(3) show ?thesis by simp
qed

lemma aesd_write_lock:
  assumes "mem_inv s" "private_data fp = Aesd_dev" "dev_lock s = Unlocked" "allocator_ok env"
  shows "returns_locked (\<not> interrupted env \<and> \<not> pos <s 0 \<and> count \<noteq> 0 \<and>
      kmalloc_at env (kheap s) count \<noteq> NULL \<and> length ubuf < unat count) snd
    (aesd_write env s (Some fp) (Some ubuf) count (Some pos))"
proof (cases "pos <s 0 \<or> count = 0 \<or> interrupted env")
  case True
  with assms show ?thesis by (auto simp: aesd_write_def device_of_def lock_interrupted)
next
  case call: False
  show ?thesis
  proof (cases "unat count \<le> length ubuf")
    case True
    with call assms have "write_ready env s fp ubuf count pos" by (simp add: write_ready_def)
    from write_simulation [OF this] True show ?thesis by auto
  next
    case False
    with call assms show ?thesis
      using aesd_write_no_buffer [of s env fp pos count ubuf] aesd_write_faults [of s env fp pos count ubuf]
        kmalloc_at_fresh [OF assms(4), of "kheap s" count]
      by (cases "kmalloc_at env (kheap s) count = 0") auto
  qed
qed

lemma aesd_llseek_lock:
  assumes "mem_inv s" "private_data fp = Aesd_dev" "dev_lock s = Unlocked"
  shows "returns_locked (\<not> interrupted env \<and>
      (case llseek_target s fp off whence of None \<Rightarrow> True | Some p \<Rightarrow> p <s 0))
    (\<lambda>(r, fp', s'). s') (aesd_llseek env s fp off whence)"
proof (cases "interrupted env")
  case True
  with assms show ?thesis by (auto simp: aesd_llseek_def device_of_def lock_interrupted)
next
  case False
  with assms have "seek_ready env s fp" by (simp add: seek_ready_def)
  from aesd_llseek_result [OF this, of off whence] False assms(3) show ?thesis
    by (auto split: option.splits)
qed

lemma aesd_ioctl_lock:
  assumes "mem_inv s" "private_data fp = Aesd_dev" "dev_lock s = Unlocked" "\<not> index_overflows env s cmd arg"
  shows "returns_locked False (\<lambda>(r, fp', s'). s') (aesd_ioctl env s fp cmd arg)"
proof (cases "cmd \<noteq> AESDCHAR_IOCSEEKTO \<or> arg = None \<or> interrupted env")
  case True
  with assms show ?thesis
    by (auto simp: aesd_ioctl_def device_of_def lock_interrupted split: option.splits)
next
  case False
  then obtain a where a: "cmd = AESDCHAR_IOCSEEKTO" "arg = Some a" by auto
  from False assms have "seek_ready env s fp" by (simp add: seek_ready_def)
  from seek_cases [OF this, of a] assms(3,4) a show ?thesis by auto
qed

lemma exec_Read_lock:
  assumes "sys_inv y" and "syscall_ok (Read fd env room count)" and "dev_lock (sdrv y) = Unlocked"
    and "\<not> seek_overflows (Read fd env room count) y"
  shows "\<exists>r y'. exec (Read fd env room count) y = Inr (r, y') \<and> (dev_lock (sdrv y') = Locked \<longleftrightarrow> leaves_locked (Read fd env room count) y)"
proof (cases "files y fd")
  case (Some fp)
  with sys_inv_file [OF assms(1) Some] returns_lockedD [OF aesd_read_lock [of "sdrv y" fp env room count "f_pos fp"]]
    assms(2,3) show ?thesis
    by (auto simp: leaves_locked_def)
qed (use assms(3) in \<open>simp add: leaves_locked_def\<close>)

lemma exec_Write_lock:
  assumes "sys_inv y" and "syscall_ok (Write fd env ubuf count)" and "dev_lock (sdrv y) = Unlocked"
    and "\<not> seek_overflows (Write fd env ubuf count) y"
  shows "\<exists>r y'. exec (Write fd env ubuf count) y = Inr (r, y') \<and> (dev_lock (sdrv y') = Locked \<longleftrightarrow> leaves_locked (Write fd env ubuf count) y)"
proof (cases "files y fd")
  case (Some fp)
  with sys_inv_file [OF assms(1) Some] returns_lockedD [OF aesd_write_lock [of "sdrv y" fp env "f_pos fp" count ubuf]]
    assms(2,3) show ?thesis
    by (auto simp: leaves_locked_def)
qed (use assms(3) in \<open>simp add: leaves_locked_def\<close>)

lemma exec_Llseek_lock:
  assumes "sys_inv y" and "syscall_ok (Llseek fd env off whence)" and "dev_lock (sdrv y) = Unlocked"
    and "\<not> seek_overflows (Llseek fd env off whence) y"
  shows "\<exists>r y'. exec (Llseek fd env off whence) y = Inr (r, y') \<and> (dev_lock (sdrv y') = Locked \<longleftrightarrow> leaves_locked (Llseek fd env off whence) y)"
proof (cases "files y fd")
  case (Some fp)
  with sys_inv_file [OF assms(1) Some] returns_lockedD [OF aesd_llseek_lock [of "sdrv y" fp env off whence]]
    assms(2,3) show ?thesis
    by (auto simp: leaves_locked_def)
qed (use assms(3) in \<open>simp add: leaves_locked_def\<close>)

lemma exec_Ioctl_lock:
  assumes "sys_inv y" and "syscall_ok (Ioctl fd env cmd arg)" and "dev_lock (sdrv y) = Unlocked"
    and "\<not> seek_overflows (Ioctl fd env cmd arg) y"
  shows "\<exists>r y'. exec (Ioctl fd env cmd arg) y = Inr (r, y') \<and> (dev_lock (sdrv y') = Locked \<longleftrightarrow> leaves_locked (Ioctl fd env cmd arg) y)"
proof (cases "files y fd")
  case (Some fp)
  have "\<not> index_overflows env (sdrv y) cmd arg"
    using assms(4) Some by (simp add: seek_overflows_def)
  with sys_inv_file [OF assms(1) Some] returns_lockedD [OF aesd_ioctl_lock [of "sdrv y" fp env cmd arg]]
    assms(2,3) Some show ?thesis
    by (auto simp: leaves_locked_def)
qed (use assms(3) in \<open>simp add: leaves_locked_def\<close>)

text \<open>C9: From a reachable state with the mutex free every call whose signed index does not overflow (a
  seek command on a full ring with a number near \<open>2 ^ 31\<close> or above) returns, and it leaves the mutex
  locked exactly when it is a write whose bytes cannot all be read after the temporary buffer was
  allocated, or a seek with an unknown origin or to a negative position.\<close>

theorem mutex_released_except_on_two_errors:
  assumes "reachable y" and "syscall_ok c" and "\<not> seek_overflows c y" and "dev_lock (sdrv y) = Unlocked"
  shows "\<exists>r y'. exec c y = Inr (r, y') \<and> (dev_lock (sdrv y') = Locked \<longleftrightarrow> leaves_locked c y)"
proof -
  note call = reachable_inv [OF assms(1)] assms(2,4,3)
  show ?thesis
  proof (cases c)
    case (Open fd)
    with assms(4) show ?thesis by (simp add: aesd_open_def leaves_locked_def)
  next
    case (Release fd)
    with assms(4) show ?thesis by (cases "files y fd") (auto simp: leaves_locked_def)
  next
    case (Read fd env room count)
    show ?thesis using call unfolding Read by (rule exec_Read_lock)
  next
    case (Write fd env ubuf count)
    show ?thesis using call unfolding Write by (rule exec_Write_lock)
  next
    case (Llseek fd env off whence)
    show ?thesis using call unfolding Llseek by (rule exec_Llseek_lock)
  next
    case (Ioctl fd env cmd arg)
    show ?thesis using call unfolding Ioctl by (rule exec_Ioctl_lock)
  qed
qed

theorem mutex_released_except_on_two_errors_witness:
  "(\<exists>r y'. exec (Llseek 3 sample_env 0 7) opened_sys = Inr (r, y') \<and> dev_lock (sdrv y') = Locked) \<and>
   (\<exists>r y'. exec (Write 3 sample_env sample_line 3) opened_sys = Inr (r, y') \<and> dev_lock (sdrv y') \<noteq> Locked)"
proof -
  have free: "dev_lock (sdrv opened_sys) = Unlocked" by (simp add: opened_sys_def fresh_lock)
  note lock = mutex_released_except_on_two_errors [OF opened_sys_reachable _ _ free]
  have "leaves_locked (Llseek 3 sample_env 0 7) opened_sys"
    by (simp add: leaves_locked_def opened_sys_def llseek_target_def sample_not_interrupted)
  moreover have "\<not> leaves_locked (Write 3 sample_env sample_line 3) opened_sys"
    by (simp add: leaves_locked_def opened_sys_def sample_line_def)
  ultimately show ?thesis
    using lock [of "Llseek 3 sample_env 0 7"] lock [of "Write 3 sample_env sample_line 3"]
    by (simp add: seek_overflows_def sample_env_ok del: exec.simps)
qed

section \<open>Loading and unloading\<close>

text \<open>Loading on a clean heap returns the error of the failed step, with nothing left registered;
  or 0 with the device registered under the allocated number and the device standing for the
  empty log.\<close>

theorem init_module_outcomes:
  assumes "kheap (drv ms) = Map.empty" and "chrdev_region ms = None" and "cdev_number ms = None"
  shows "case aesd_init_module ar nd ad ms of (r, ms') \<Rightarrow>
    r = (if ar < 0 then ar else ad) \<and>
    (if r = 0 \<and> 0 \<le> ar
     then chrdev_region ms' = Some nd \<and> cdev_number ms' = Some (MKDEV (MAJOR nd) (aesd_minor ms')) \<and>
          represents (drv ms') ([], [])
     else chrdev_region ms' = None \<and> cdev_number ms' = None \<and> kheap (drv ms') = Map.empty)"
  using init_result [OF assms(1), of ar nd ad] assms(2,3) fresh_represents
  by (auto simp: assms(1)) (auto simp: fresh_driver_def)

definition unloaded :: module_state where
  "unloaded = \<lparr>aesd_major = 0, aesd_minor = 0, chrdev_region = None, cdev_number = None, drv = fresh_driver\<rparr>"

theorem init_module_outcomes_witness:
  "case aesd_init_module 0 5 0 unloaded of (r, ms') \<Rightarrow> r = 0 \<and> represents (drv ms') ([], [])"
  using init_module_outcomes [of unloaded 0 0 5]
  by (auto simp: unloaded_def fresh_driver_def)

text \<open>C25: Unloading a device whose memory is well formed frees the memory of every stored command
  without a memory error and unregisters the device; what stays allocated is exactly the pending
  command, which nothing frees, and what was leaked before.\<close>

theorem cleanup_module_frees_stored_commands:
  assumes "mem_inv (drv ms)"
  shows "\<exists>ms'. aesd_cleanup_module ms = Inr ms' \<and> cdev_number ms' = None \<and>
     (chrdev_region ms = Some (MKDEV (aesd_major ms) (aesd_minor ms)) \<longrightarrow> chrdev_region ms' = None) \<and>
     dom (kheap (drv ms')) = garbage (drv ms) \<union> ({buffptr (cur (drv ms))} - {NULL})"
  by (rule cleanup_result [OF assms])

theorem cleanup_module_frees_stored_commands_witness:
  "\<exists>s ms'. represents s ([sample_line], ''x'') \<and> card (dom (kheap s)) = 2 \<and>
     aesd_cleanup_module (unloaded\<lparr>drv := s\<rparr>) = Inr ms' \<and>
     dom (kheap (drv ms')) = {buffptr (cur s)} \<and> buffptr (cur s) \<noteq> NULL"
proof -
  obtain s where s: "represents s ([sample_line], ''x'')"
    using write_refines_log [OF fresh_represents fresh_write_ready [of sample_env 4 "sample_line @ ''x''"]]
    by (fastforce simp: sample_env_ok sample_env_available sample_line_def keep_last_def)
  have inv: "mem_inv s" and none: "garbage s = {}" using s by (simp_all add: represents_def)
  have ptr: "buffptr (cur s) \<noteq> 0" using pending_block [OF s] by simp
  from cleanup_module_frees_stored_commands [of "unloaded\<lparr>drv := s\<rparr>"] inv none ptr obtain ms' where
    ms: "aesd_cleanup_module (unloaded\<lparr>drv := s\<rparr>) = Inr ms'" "dom (kheap (drv ms')) = {buffptr (cur s)}"
    by auto
  have "length (cmds (view_of s)) = 1" using s by (simp add: represents_def)
  then obtain e where items: "dev_items s = [e]"
    by (auto simp: view_of_def length_Suc_conv)
  then have live: "live_entries s = [e, cur s]" using ptr by (simp add: live_entries_def)
  have "distinct (map buffptr (live_entries s))" using inv by (simp add: mem_inv_def)
  then have "card (owned s) = 2" unfolding live by (simp add: owned_def live)
  moreover have "owned s \<subseteq> dom (kheap s)" using owned_live [OF inv] by auto
  then have "dom (kheap s) = owned s" using none by (auto simp: garbage_def)
  ultimately show ?thesis using s ms ptr by auto
qed

text \<open>C24: Loading the module, writing lines to the device and unloading leaves no memory allocated
  and nothing registered.\<close>

theorem load_write_lines_unload:
  assumes "kheap (drv ms) = Map.empty" and "MKDEV (MAJOR nd) (aesd_minor ms) = nd"
    and "good_env env" "private_data fp = Aesd_dev" "\<not> f_pos fp <s 0"
    and "list_all is_line ds" and "length (concat ds) \<le> 2 ^ 32"
  shows "\<exists>ms1 s ms2. aesd_init_module 0 nd 0 ms = (0, ms1) \<and>
    write_all env (drv ms1) fp ds = Inr (map (\<lambda>d. word_of_nat (length d)) ds, s) \<and>
    aesd_cleanup_module (ms1\<lparr>drv := s\<rparr>) = Inr ms2 \<and>
    kheap (drv ms2) = Map.empty \<and> chrdev_region ms2 = None \<and> cdev_number ms2 = None"
proof -
  let ?ms1 = "ms\<lparr>chrdev_region := Some nd, aesd_major := MAJOR nd, drv := fresh_driver,
                 cdev_number := Some (MKDEV (MAJOR nd) (aesd_minor ms))\<rparr>"
  have init: "aesd_init_module 0 nd 0 ms = (0, ?ms1)"
    using init_result [OF assms(1), of 0 nd 0] by simp
  have ne: "[] \<notin> set ds"
    using assms(6) by (auto simp: list_all_iff is_line_def)
  obtain s where s: "write_all env fresh_driver fp ds = Inr (map (\<lambda>d. word_of_nat (length d)) ds, s)"
      "represents s (keep_last 10 ds, [])"
    using write_all_log [OF assms(3-5) fresh_represents ne] assms(6,7) log_write_lines [of ds "[]"]
    by auto
  have "buffptr (cur s) = 0"
    using s(2) entry_ok_cells [of "kheap s" "cur s"]
    by (auto simp: represents_def view_of_def cur_cells_def mem_inv_def live_entries_def entry_ok_def unat_eq_zero
        split: if_splits)
  then show ?thesis
    using init s cleanup_result [of "?ms1\<lparr>drv := s\<rparr>"] assms(2)
    by (auto simp: represents_def)
qed

theorem load_write_lines_unload_witness:
  "\<exists>ms1 s ms2. aesd_init_module 0 (MKDEV 250 0) 0 unloaded = (0, ms1) \<and>
    write_all sample_env (drv ms1) sample_file [sample_line] = Inr ([3], s) \<and>
    aesd_cleanup_module (ms1\<lparr>drv := s\<rparr>) = Inr ms2 \<and> kheap (drv ms2) = Map.empty"
proof -
  have heap: "kheap (drv unloaded) = Map.empty"
    by (simp add: unloaded_def fresh_driver_def)
  have num: "MKDEV (MAJOR (MKDEV 250 0)) (aesd_minor unloaded) = MKDEV 250 0"
    by (simp add: MKDEV_def MAJOR_def unloaded_def)
  show ?thesis
    using load_write_lines_unload [OF heap num sample_good, of sample_file "[sample_line]"] sample_is_line
    by (auto simp: sample_line_def)
qed

end
