(* ===== verification/Driver_Bounds.thy ===== *)
theory Driver_Bounds
  imports Driver_Properties
begin

text \<open>
  Bounds of the driver's counters: the indices of the ring, the sum of the sizes that \<open>llseek\<close>
  computes, and the positions that reads report, in every state system calls can reach.
\<close>

lemma ring_offsets_bound:
  assumes "mem_inv s"
  shows "unat (in_offs (c_buffer (aesd_device s))) < 10" "unat (out_offs (c_buffer (aesd_device s))) < 10"
  using assms cb_inv_out by (auto simp: mem_inv_def cb_inv_def)

text \<open>The word sum of \<open>llseek\<close> is the sum of the sizes.\<close>

lemma total_size_exact:
  assumes "mem_inv s"
  shows "\<exists>total. total_size (c_buffer (aesd_device s)) = Inr total \<and>
    unat total = sum_list (map (\<lambda>e. unat (esize e)) (entry (c_buffer (aesd_device s)))) \<and>
    unat total \<le> 10 * 2 ^ 32"
proof -
  have cb: "cb_inv (c_buffer (aesd_device s))" using assms by (simp add: mem_inv_def)
  have stored: "stored s = sum_list (esizes (entry (c_buffer (aesd_device s))))"
    using sum_esizes_entry [OF cb] stored_length [OF assms] by simp
  have small: "stored s \<le> 10 * 2 ^ 32"
    using esizes_bound [OF assms] stored_length [OF assms] by simp
  then have "unat (word_of_nat (stored s) :: size_t) = stored s"
    by (intro unat_of_nat64) simp
  with total_size_stored [OF assms] stored small show ?thesis
    by (simp add: esizes_def)
qed

text \<open>A read that returns a count moves the position by exactly that count, which fits the request.\<close>

lemma read_position_exact:
  assumes inv: "mem_inv s" and fp: "private_data fp = Aesd_dev"
    and read: "aesd_read env s (Some fp) (Some room) count (Some pos) = Inr (r, seen, pos', s')" and r: "\<not> r <s 0"
  shows "unat r \<le> unat count \<and> unat r \<le> room \<and> unat pos' = unat pos + unat r"
proof -
  have neg: "- EINVAL <s (0 :: 64 word)" "- ERESTARTSYS <s (0 :: 64 word)" "- EFAULT <s (0 :: 64 word)"
    by (simp_all add: sless_zero_iff EINVAL_def ERESTARTSYS_def EFAULT_def)
  have "dev_lock s = Unlocked \<and> \<not> interrupted env \<and> \<not> pos <s 0 \<and> count \<noteq> 0"
    using read fp r neg
    by (cases "interrupted env"; cases "dev_lock s")
      (auto simp: aesd_read_def device_of_def mutex_lock_interruptible_def split: if_splits)
  with inv fp have ready: "read_ready env s fp count pos" by (simp add: read_ready_def)
  let ?n = "read_size (cmds (view_of s)) (unat pos) (unat count)"
  from aesd_read_step [OF ready refl, of room] read r neg
  have out: "?n \<le> room" "r = word_of_nat ?n" "pos' = pos + word_of_nat ?n"
    by (auto split: if_splits)
  show ?thesis
  proof (cases "?n = 0")
    case True
    with out show ?thesis by simp
  next
    case False
    have "unat pos + ?n \<le> stored s"
      using read_size_fits [of "cmds (view_of s)" "unat pos" "unat count"] False by simp
    then have "unat pos + ?n \<le> 10 * KMALLOC_MAX"
      using esizes_bound [OF inv] stored_length [OF inv] by simp
    moreover from this have "unat (word_of_nat ?n :: 64 word) = ?n" by (intro unat_of_nat64) simp
    ultimately show ?thesis
      using out pos_advance(1) [of pos ?n] ready read_size_le [of "cmds (view_of s)" "unat pos" "unat count"]
      by (simp add: read_ready_def)
  qed
qed

text \<open>C19: In every state that system calls reach, the offsets of the ring are below ten, the sum of the
  sizes in 64 bits is the sum of the sizes and at most ten times the largest block, and a read that
  returns a count returns no more than asked for and than there is room, and moves the position by
  exactly the count: nothing wraps around.\<close>

theorem offsets_sizes_and_positions_in_bounds:
  assumes "reachable y"
  shows "unat (in_offs (c_buffer (aesd_device (sdrv y)))) < 10 \<and> unat (out_offs (c_buffer (aesd_device (sdrv y)))) < 10 \<and>
    (\<exists>total. total_size (c_buffer (aesd_device (sdrv y))) = Inr total \<and>
       unat total = sum_list (map (\<lambda>e. unat (esize e)) (entry (c_buffer (aesd_device (sdrv y))))) \<and>
       unat total \<le> 10 * 2 ^ 32) \<and>
    (\<forall>fd fp env room count r y'. files y fd = Some fp \<longrightarrow> exec (Read fd env room count) y = Inr (r, y') \<longrightarrow> \<not> r <s 0 \<longrightarrow>
       unat r \<le> unat count \<and> unat r \<le> room \<and>
       (\<exists>fp'. files y' fd = Some fp' \<and> unat (f_pos fp') = unat (f_pos fp) + unat r))"
proof -
  have inv: "sys_inv y" using reachable_inv [OF assms] .
  have "unat r \<le> unat count \<and> unat r \<le> room \<and>
       (\<exists>fp'. files y' fd = Some fp' \<and> unat (f_pos fp') = unat (f_pos fp) + unat r)"
    if fp: "files y fd = Some fp" and call: "exec (Read fd env room count) y = Inr (r, y')" and r: "\<not> r <s 0"
    for fd fp env room count r y'
  proof -
    have m: "mem_inv (sdrv y)" "private_data fp = Aesd_dev" using sys_inv_file [OF inv fp] by simp_all
    obtain seen pos s where x: "aesd_read env (sdrv y) (Some fp) (Some room) count (Some (f_pos fp)) = Inr (r, seen, pos, s)"
        "y' = y\<lparr>sdrv := s, files := (files y)(fd \<mapsto> fp\<lparr>f_pos := pos\<rparr>)\<rparr>"
      using call fp r by (auto simp: cres_simps)
    from read_position_exact [OF m x(1) r] x(2) show ?thesis by simp
  qed
  with inv ring_offsets_bound total_size_exact show ?thesis
    unfolding sys_inv_def by blast
qed

theorem offsets_sizes_and_positions_in_bounds_witness:
  "\<exists>y total. sys_step \<lparr>sdrv = fresh_driver, files = Map.empty\<rparr> (Open 3) y \<and> files y 3 \<noteq> None \<and>
     total_size (c_buffer (aesd_device (sdrv y))) = Inr total \<and> unat total \<le> 10 * 2 ^ 32"
proof -
  obtain r y where y: "exec (Open 3) \<lparr>sdrv = fresh_driver, files = Map.empty\<rparr> = Inr (r, y)" "files y 3 \<noteq> None"
    by (simp add: aesd_open_def)
  have "sys_step \<lparr>sdrv = fresh_driver, files = Map.empty\<rparr> (Open 3) y"
    using sys_step.call [OF y(1)] .
  moreover from this have "reachable y"
    by (intro reachable.step [OF reachable.start]) simp_all
  ultimately show ?thesis
    using offsets_sizes_and_positions_in_bounds [of y] y(2) by blast
qed

end
