(* ===== verification/Server_Files.thy ===== *)
theory Server_Files
  imports Driver_Lines
begin

text \<open>
  How \<open>server/aesdsocket.c\<close> uses the device file: stdio streams opened with
  \<open>"a+"\<close> (the library's flushing, seeking and \<open>fgets\<close> over the calls of the driver),
  \<open>strlen\<close> and the bytes user space finds in a buffer. The locale \<open>line_store\<close> is
  what a session relies on: bytes put into the file become part of a log, and reading the
  file from the start yields the complete lines the log holds. It is interpreted on the
  stream operations over the driver.
\<close>

abbreviation (input) NUL :: byte where "NUL \<equiv> CHR 0x00"

section \<open>Strings in buffers\<close>

text \<open>\<open>strlen\<close> reads up to the first NUL and past the end of a buffer without one.\<close>

definition c_strlen :: "byte list \<Rightarrow> nat cres" where
  "c_strlen buf = (if NUL \<in> set buf then Inr (length (takeWhile (\<lambda>c. c \<noteq> NUL) buf)) else Inl OutOfBounds)"

text \<open>
  The bytes user space finds where the kernel copied cells to: a cell that was never written
  holds some byte, \<open>fill\<close> says which.
\<close>

definition settle :: "(nat \<Rightarrow> byte) \<Rightarrow> cells \<Rightarrow> byte list" where
  "settle fill cs = map (\<lambda>(i, c). case c of None \<Rightarrow> fill i | Some b \<Rightarrow> b) (zip [0..<length cs] cs)"

lemma settle_written [simp]: "settle fill (map Some bs) = bs"
  by (rule nth_equalityI) (simp_all add: settle_def)

lemma length_settle [simp]: "length (settle fill cs) = length cs"
  by (simp add: settle_def)

section \<open>Streams over the device\<close>

text \<open>\<open>open\<close> and \<open>fopen\<close> end in \<open>aesd_open\<close>.\<close>

definition opened_file :: open_file where
  "opened_file = snd (aesd_open \<lparr>i_cdev = Aesd_dev\<rparr> \<lparr>f_pos = 0, private_data = Null_dev\<rparr>)"

text \<open>\<open>fflush\<close> writes the buffered bytes, again from where a short write stopped.\<close>

function flush_loop :: "kernel_env \<Rightarrow> driver \<Rightarrow> open_file \<Rightarrow> byte list \<Rightarrow> (bool \<times> driver) cres" where
  "flush_loop env s fp d =
     (if d = [] then Inr (True, s)
      else cbind (aesd_write env s (Some fp) (Some d) (word_of_nat (length d)) (Some (f_pos fp))) (\<lambda>(r, s').
           if r <s 0 \<or> r = 0 then Inr (False, s') else flush_loop env s' fp (drop (unat r) d)))"
  by pat_completeness auto
termination
proof (relation "measure (\<lambda>(env, s, fp, d). length d)", goal_cases)
  case 1
  show ?case by simp
next
  case (2 env s fp d x r s')
  then have "0 < unat r" by (metis unat_gt_0)
  with 2 show ?case by (cases d) auto
qed

declare flush_loop.simps [simp del]

text \<open>
  \<open>fseek(f, 0, SEEK_SET)\<close> and then \<open>fgets\<close> until it returns NULL: the library reads
  blocks of 4096 bytes until a read returns 0. The device never holds more bytes than
  \<open>max_reads\<close>, so the bound on the number of reads is never met.
\<close>

definition max_reads :: nat where
  "max_reads = Suc (10 * KMALLOC_MAX)"

definition stream_contents ::
    "kernel_env \<Rightarrow> (nat \<Rightarrow> byte) \<Rightarrow> driver \<Rightarrow> open_file \<Rightarrow> (byte list option \<times> driver) cres" where
  "stream_contents env fill s fp =
     cbind (aesd_llseek env s fp 0 SEEK_SET) (\<lambda>(r, fp', s').
     cbind (read_until_eof env max_reads s' fp' 4096 (f_pos fp')) (\<lambda>(cs, s'').
     Inr (map_option (settle fill) cs, s'')))"

text \<open>The length of what one \<open>fgets\<close> with room for \<open>n\<close> bytes takes: through the first newline, or all it has room for.\<close>

definition fgets_length :: "nat \<Rightarrow> byte list \<Rightarrow> nat" where
  "fgets_length n content =
     min n (case memchr newline (map Some content) of Some k \<Rightarrow> Suc k | None \<Rightarrow> length content)"

text \<open>
  The loop of \<open>message_handler_thread\<close> that sends the file back: what \<open>fgets\<close> stored,
  up to its first NUL.
\<close>

function send_lines :: "nat \<Rightarrow> byte list \<Rightarrow> byte list" where
  "send_lines n content =
     (if content = [] \<or> n = 0 then []
      else let line = take (fgets_length n content) content in
        takeWhile (\<lambda>c. c \<noteq> NUL) line @ send_lines n (drop (fgets_length n content) content))"
  by pat_completeness auto
termination
  by (relation "measure (\<lambda>(n, content). length content)")
    (auto simp: fgets_length_def split: option.splits)

declare send_lines.simps [simp del]

lemma fgets_length_pos: "content \<noteq> [] \<Longrightarrow> n \<noteq> 0 \<Longrightarrow> 0 < fgets_length n content"
  by (auto simp: fgets_length_def split: option.split)

text \<open>Without NUL bytes nothing is dropped.\<close>

lemma send_lines_all: "NUL \<notin> set content \<Longrightarrow> n \<noteq> 0 \<Longrightarrow> send_lines n content = content"
proof (induction n content rule: send_lines.induct)
  case (1 n content)
  show ?case
  proof (cases "content = []")
    case True
    then show ?thesis by (simp add: send_lines.simps)
  next
    case False
    let ?k = "fgets_length n content"
    have "NUL \<notin> set (take ?k content)" "NUL \<notin> set (drop ?k content)"
      using "1.prems"(1) by (auto dest: in_set_takeD in_set_dropD)
    then have "takeWhile (\<lambda>c. c \<noteq> NUL) (take ?k content) = take ?k content"
      by (auto simp: takeWhile_eq_all_conv)
    moreover have "send_lines n (drop ?k content) = drop ?k content"
      using 1 False \<open>NUL \<notin> set (drop ?k content)\<close> by simp
    moreover have "send_lines n content =
        takeWhile (\<lambda>c. c \<noteq> NUL) (take ?k content) @ send_lines n (drop ?k content)"
      using False "1.prems"(2) by (subst send_lines.simps) (simp add: Let_def)
    ultimately show ?thesis by (metis append_take_drop_id)
  qed
qed

section \<open>What a session relies on\<close>

locale line_store =
  fixes rep :: "'s \<Rightarrow> log \<Rightarrow> bool"
    and put :: "'s \<Rightarrow> byte list \<Rightarrow> (bool \<times> 's) cres"
    and contents :: "'s \<Rightarrow> (byte list option \<times> 's) cres"
    and room :: nat
  assumes put_law: "rep s l \<Longrightarrow> d \<noteq> [] \<Longrightarrow> length (snd l) + length d \<le> room \<Longrightarrow>
      \<exists>s'. put s d = Inr (True, s') \<and> rep s' (log_write d l)"
    and contents_law: "rep s l \<Longrightarrow> contents s = Inr (Some (concat (fst l)), s)"
begin

text \<open>Bytes put, then the whole file read back.\<close>

lemma put_then_contents:
  assumes "rep s l" "d \<noteq> []" "length (snd l) + length d \<le> room"
  shows "\<exists>s'. put s d = Inr (True, s') \<and> rep s' (log_write d l) \<and>
    contents s' = Inr (Some (concat (fst (log_write d l))), s')"
  using put_law [OF assms] contents_law by blast

end

text \<open>The streams over the driver; the state carries the decisions of the kernel along.\<close>

definition dev_rep :: "kernel_env \<times> driver \<Rightarrow> log \<Rightarrow> bool" where
  "dev_rep y l \<longleftrightarrow> good_env (fst y) \<and> represents (snd y) l"

definition dev_put :: "kernel_env \<times> driver \<Rightarrow> byte list \<Rightarrow> (bool \<times> kernel_env \<times> driver) cres" where
  "dev_put y d = cbind (flush_loop (fst y) (snd y) opened_file d) (\<lambda>(ok, s). Inr (ok, fst y, s))"

definition dev_contents :: "(nat \<Rightarrow> byte) \<Rightarrow> kernel_env \<times> driver \<Rightarrow> (byte list option \<times> kernel_env \<times> driver) cres" where
  "dev_contents fill y = cbind (stream_contents (fst y) fill (snd y) opened_file) (\<lambda>(cs, s). Inr (cs, fst y, s))"

lemma opened_file_sel [simp]: "f_pos opened_file = 0" "private_data opened_file = Aesd_dev"
  by (simp_all add: opened_file_def aesd_open_def)

lemma flush_loop_log:
  assumes "good_env env" "represents s l" "d \<noteq> []" "length (snd l) + length d \<le> KMALLOC_MAX"
    and fp: "private_data fp = Aesd_dev" "f_pos fp = 0"
  shows "\<exists>s'. flush_loop env s fp d = Inr (True, s') \<and> represents s' (log_write d l)"
proof -
  have u: "unat (word_of_nat (length d) :: size_t) = length d"
    using assms(4) by (intro unat_of_nat64) simp
  then have nz: "(word_of_nat (length d) :: size_t) \<noteq> 0"
    using assms(3) by auto
  have pos: "\<not> (word_of_nat (length d) :: size_t) <s 0"
    using assms(4) unfolding sless_zero_iff u by simp
  have "write_ready env s fp d (word_of_nat (length d)) 0"
    using assms nz u by (simp add: write_ready_def represents_def good_env_def)
  then obtain s' where "aesd_write env s (Some fp) (Some d) (word_of_nat (length d)) (Some 0) =
      Inr (word_of_nat (length d), s')" "represents s' (log_write d l)"
    using write_refines_log [of s "fst l" "snd l" env fp d "word_of_nat (length d)" 0] assms u
    by (auto simp: good_env_def)
  with assms(3) fp nz pos u show ?thesis
    by (subst flush_loop.simps) (auto simp: flush_loop.simps [of _ _ _ "[]"])
qed

lemma stream_contents_log:
  assumes "good_env env" "represents s l" "private_data fp = Aesd_dev"
  shows "stream_contents env fill s fp = Inr (Some (concat (fst l)), s)"
proof -
  have inv: "mem_inv s" and ready: "seek_ready env s fp"
    using assms by (simp_all add: represents_def seek_ready_def good_env_def)
  have "aesd_llseek env s fp 0 SEEK_SET = Inr (0, fp\<lparr>f_pos := 0\<rparr>, s)"
    using aesd_llseek_result [OF ready, of 0 SEEK_SET] by (simp add: llseek_target_def)
  moreover have "length (concat (fst l)) < max_reads"
    using esizes_bound [OF inv] stored_length [OF inv] assms(2)
    by (simp add: max_reads_def represents_def length_concat comp_def)
  then have "read_until_eof env max_reads s (fp\<lparr>f_pos := 0\<rparr>) 4096 0 = Inr (Some (map Some (concat (fst l))), s)"
    using represents_read [OF assms(2), of env "fp\<lparr>f_pos := 0\<rparr>" 0 4096 max_reads] assms
    by (simp add: good_env_def)
  ultimately show ?thesis by (simp add: stream_contents_def)
qed

interpretation store: line_store dev_rep dev_put "dev_contents fill" KMALLOC_MAX
proof (unfold_locales, goal_cases)
  case (1 y l d)
  with flush_loop_log [of "fst y" "snd y" l d opened_file] show ?case
    by (auto simp: dev_rep_def dev_put_def)
next
  case (2 y l)
  with stream_contents_log [of "fst y" "snd y" l opened_file fill] show ?case
    by (simp add: dev_rep_def dev_contents_def)
qed

end
