(* ===== verification/Client_List.thy ===== *)
theory Client_List
  imports Kernel_Services
begin

text \<open>
  The list of client threads of \<open>server/aesdsocket.c\<close>: a singly linked list
  (\<open>sys/queue.h\<close>, \<open>SLIST\<close>) of nodes in the heap, threaded by addresses, with the mutex
  that protects it. Freeing a node takes its address out of the store, so a later access to it
  is \<open>UseAfterFree\<close>. The loops that follow links may not end on a cyclic list; they are
  partial functions into \<open>option\<close>, and \<open>None\<close> means that they do not return.
\<close>

section \<open>Data\<close>

record client_thread =
  thread_id :: nat
  node_clientfd :: int
  node_complete :: bool
  sle_next :: ptr

record thread_data =
  td_complete :: bool
  td_clientfd :: int

text \<open>
  The nodes, the list head, the list mutex, the \<open>thread_data_t\<close> blocks, and the client
  sockets that are open.
\<close>

record clients =
  node :: "ptr \<rightharpoonup> client_thread"
  slh_first :: ptr
  list_mutex :: mutex
  tdata :: "ptr \<rightharpoonup> thread_data"
  open_sockets :: "int set"

text \<open>
  What the threads library answers: the results of locking and unlocking the list mutex, and
  for a thread the result of \<open>pthread_join\<close> and the pointer it stores (the value the
  thread returned), or \<open>None\<close> when the thread does not return and the caller waits for good.
  \<open>stale_ptr\<close> is the value of a local pointer that was never set.
\<close>

record pthread_env =
  lock_result :: int
  unlock_result :: int
  join_result :: "nat \<Rightarrow> (int \<times> ptr) option"
  stale_ptr :: ptr

definition lock_list :: "pthread_env \<Rightarrow> clients \<Rightarrow> (int \<times> clients) cres" where
  "lock_list env c =
     (if lock_result env \<noteq> 0 then Inr (lock_result env, c)
      else case list_mutex c of Unlocked \<Rightarrow> Inr (0, c\<lparr>list_mutex := Locked\<rparr>) | Locked \<Rightarrow> Inl Deadlock)"

definition unlock_list :: "pthread_env \<Rightarrow> clients \<Rightarrow> clients" where
  "unlock_list env c = (if unlock_result env \<noteq> 0 then c else c\<lparr>list_mutex := Unlocked\<rparr>)"

section \<open>Nodes and blocks\<close>

definition get_node :: "clients \<Rightarrow> ptr \<Rightarrow> client_thread cres" where
  "get_node c p = (if p = NULL then Inl NullDeref
     else case node c p of None \<Rightarrow> Inl UseAfterFree | Some n \<Rightarrow> Inr n)"

definition set_node :: "ptr \<Rightarrow> client_thread \<Rightarrow> clients \<Rightarrow> clients" where
  "set_node p n c = c\<lparr>node := (node c)(p \<mapsto> n)\<rparr>"

definition free_node :: "ptr \<Rightarrow> clients \<Rightarrow> clients cres" where
  "free_node p c = (if p = NULL then Inr c
     else case node c p of None \<Rightarrow> Inl BadFree | Some n \<Rightarrow> Inr (c\<lparr>node := (node c)(p := None)\<rparr>))"

definition get_tdata :: "clients \<Rightarrow> ptr \<Rightarrow> thread_data cres" where
  "get_tdata c p = (if p = NULL then Inl NullDeref
     else case tdata c p of None \<Rightarrow> Inl UseAfterFree | Some d \<Rightarrow> Inr d)"

definition free_tdata :: "ptr \<Rightarrow> clients \<Rightarrow> clients cres" where
  "free_tdata p c = (if p = NULL then Inr c
     else case tdata c p of None \<Rightarrow> Inl BadFree | Some d \<Rightarrow> Inr (c\<lparr>tdata := (tdata c)(p := None)\<rparr>))"

definition close_socket :: "int \<Rightarrow> clients \<Rightarrow> clients" where
  "close_socket fd c = c\<lparr>open_sockets := open_sockets c - {fd}\<rparr>"

section \<open>The list macros\<close>

definition SLIST_EMPTY :: "clients \<Rightarrow> bool" where
  "SLIST_EMPTY c \<longleftrightarrow> slh_first c = NULL"

definition SLIST_INSERT_HEAD :: "ptr \<Rightarrow> clients \<Rightarrow> clients cres" where
  "SLIST_INSERT_HEAD p c = cbind (get_node c p) (\<lambda>n.
     Inr ((set_node p (n\<lparr>sle_next := slh_first c\<rparr>) c)\<lparr>slh_first := p\<rparr>))"

definition SLIST_INSERT_AFTER :: "ptr \<Rightarrow> ptr \<Rightarrow> clients \<Rightarrow> clients cres" where
  "SLIST_INSERT_AFTER q p c =
     cbind (get_node c q) (\<lambda>m.
     cbind (get_node c p) (\<lambda>n.
     Inr (set_node q (m\<lparr>sle_next := p\<rparr>) (set_node p (n\<lparr>sle_next := sle_next m\<rparr>) c))))"

text \<open>\<open>while (curelm->next != elm) curelm = curelm->next;\<close>\<close>

partial_function (option) find_previous :: "clients \<Rightarrow> ptr \<Rightarrow> ptr \<Rightarrow> ptr cres option" where
  "find_previous c elm q =
     (case get_node c q of
        Inl t \<Rightarrow> Some (Inl t)
      | Inr m \<Rightarrow> if sle_next m = elm then Some (Inr q) else find_previous c elm (sle_next m))"

definition SLIST_REMOVE :: "ptr \<Rightarrow> clients \<Rightarrow> clients cres option" where
  "SLIST_REMOVE elm c =
     (if slh_first c = elm
      then Some (cbind (get_node c elm) (\<lambda>n. Inr (c\<lparr>slh_first := sle_next n\<rparr>)))
      else map_option (\<lambda>r. cbind r (\<lambda>q.
             cbind (get_node c q) (\<lambda>m.
             cbind (get_node c elm) (\<lambda>n.
             Inr (set_node q (m\<lparr>sle_next := sle_next n\<rparr>) c)))))
           (find_previous c elm (slh_first c)))"

section \<open>check_completed_threads\<close>

text \<open>
  The body for a node whose thread has completed: join it, take the node out and free it,
  close the client's socket and free the thread's data. A failed join is only logged;
  \<open>temp_thread_data\<close> then still holds \<open>init\<close>. \<open>clean_threads\<close> has the same
  steps with \<open>temp_thread_data\<close> set to NULL before.
\<close>

definition reap :: "pthread_env \<Rightarrow> ptr \<Rightarrow> ptr \<Rightarrow> clients \<Rightarrow> clients cres option" where
  "reap env init p c =
     (case get_node c p of Inl t \<Rightarrow> Some (Inl t)
      | Inr n \<Rightarrow>
          (case join_result env (thread_id n) of
             None \<Rightarrow> Some (Inl Deadlock)
           | Some (rc, ret) \<Rightarrow>
               let temp_thread_data = (if rc = 0 then ret else init) in
               map_option (\<lambda>r.
                 cbind r (\<lambda>c1.
                 cbind (free_node p c1) (\<lambda>c2.
                 cbind (get_tdata c2 temp_thread_data) (\<lambda>d.
                 free_tdata temp_thread_data (close_socket (td_clientfd d) c2)))))
               (SLIST_REMOVE p c)))"

partial_function (option) check_loop :: "pthread_env \<Rightarrow> ptr \<Rightarrow> clients \<Rightarrow> clients cres option" where
  "check_loop env p c =
     (if p = NULL then Some (Inr c)
      else case get_node c p of Inl t \<Rightarrow> Some (Inl t)
      | Inr n \<Rightarrow>
          (case (if node_complete n then reap env (stale_ptr env) p c else Some (Inr c)) of
             None \<Rightarrow> None
           | Some (Inl t) \<Rightarrow> Some (Inl t)
           | Some (Inr c') \<Rightarrow>
               (case get_node c' p of Inl t \<Rightarrow> Some (Inl t)
                | Inr n' \<Rightarrow> check_loop env (sle_next n') c')))"

definition check_completed_threads :: "pthread_env \<Rightarrow> clients \<Rightarrow> clients cres option" where
  "check_completed_threads env c =
     (case lock_list env c of Inl t \<Rightarrow> Some (Inl t)
      | Inr (rc, c1) \<Rightarrow>
          if rc \<noteq> 0 then Some (Inr c1)
          else map_option (\<lambda>r. cbind r (\<lambda>c2. Inr (unlock_list env c2))) (check_loop env (slh_first c1) c1))"

section \<open>clean_threads\<close>

partial_function (option) clean_loop :: "pthread_env \<Rightarrow> clients \<Rightarrow> clients cres option" where
  "clean_loop env c =
     (if SLIST_EMPTY c then Some (Inr c)
      else case reap env NULL (slh_first c) c of
          None \<Rightarrow> None
        | Some (Inl t) \<Rightarrow> Some (Inl t)
        | Some (Inr c') \<Rightarrow> clean_loop env c')"

definition clean_threads :: "pthread_env \<Rightarrow> clients \<Rightarrow> clients cres option" where
  "clean_threads env c =
     (case lock_list env c of Inl t \<Rightarrow> Some (Inl t)
      | Inr (rc, c1) \<Rightarrow>
          if rc \<noteq> 0 then Some (Inr c1)
          else map_option (\<lambda>r. cbind r (\<lambda>c2. Inr (unlock_list env c2))) (clean_loop env c1))"

section \<open>set_thread_complete_success\<close>

partial_function (option) mark_loop :: "ptr \<Rightarrow> bool \<Rightarrow> ptr \<Rightarrow> clients \<Rightarrow> clients cres option" where
  "mark_loop nd success p c =
     (if p = NULL then Some (Inr c)
      else if p = nd
      then Some (cbind (get_node c p) (\<lambda>n. Inr (set_node p (n\<lparr>node_complete := success\<rparr>) c)))
      else case get_node c p of Inl t \<Rightarrow> Some (Inl t)
           | Inr n \<Rightarrow> mark_loop nd success (sle_next n) c)"

definition set_thread_complete_success :: "pthread_env \<Rightarrow> ptr \<Rightarrow> bool \<Rightarrow> clients \<Rightarrow> clients cres option" where
  "set_thread_complete_success env nd success c =
     (case lock_list env c of Inl t \<Rightarrow> Some (Inl t)
      | Inr (rc, c1) \<Rightarrow>
          if rc \<noteq> 0 then Some (Inr c1)
          else map_option (\<lambda>r. cbind r (\<lambda>c2. Inr (unlock_list env c2))) (mark_loop nd success (slh_first c1) c1))"

section \<open>Well-formed lists\<close>

text \<open>The nodes on the way from one address to another.\<close>

fun seg :: "(ptr \<rightharpoonup> client_thread) \<Rightarrow> ptr \<Rightarrow> ptr list \<Rightarrow> ptr \<Rightarrow> bool" where
  "seg h p [] q \<longleftrightarrow> p = q"
| "seg h p (x # xs) q \<longleftrightarrow>
     p = x \<and> x \<noteq> NULL \<and> (case h x of None \<Rightarrow> False | Some n \<Rightarrow> seg h (sle_next n) xs q)"

definition list_ok :: "clients \<Rightarrow> ptr list \<Rightarrow> bool" where
  "list_ok c ps \<longleftrightarrow> seg (node c) (slh_first c) ps NULL \<and> distinct ps"

lemma seg_append: "seg h p (xs @ ys) q \<longleftrightarrow> (\<exists>r. seg h p xs r \<and> seg h r ys q)"
proof (induction xs arbitrary: p)
  case (Cons x xs)
  then show ?case by (cases "h x") auto
qed simp

lemma seg_upd: "x \<notin> set ps \<Longrightarrow> seg (h(x := n)) p ps q = seg h p ps q"
proof (induction ps arbitrary: p)
  case (Cons y ps)
  then show ?case by (cases "h y") auto
qed simp

lemma seg_nodes: "seg h p ps q \<Longrightarrow> x \<in> set ps \<Longrightarrow> x \<noteq> 0 \<and> h x \<noteq> None"
proof (induction ps arbitrary: p)
  case (Cons y ps)
  then show ?case by (cases "h y") auto
qed simp

named_theorems slist_simps \<open>evaluation of node accesses\<close>

lemma get_node_live [slist_simps]: "node c p = Some n \<Longrightarrow> p \<noteq> 0 \<Longrightarrow> get_node c p = Inr n"
  by (simp add: get_node_def)

lemma get_tdata_live [slist_simps]: "tdata c p = Some d \<Longrightarrow> p \<noteq> 0 \<Longrightarrow> get_tdata c p = Inr d"
  by (simp add: get_tdata_def)

lemma set_node_sel [simp]:
  "node (set_node p n c) = (node c)(p \<mapsto> n)" "slh_first (set_node p n c) = slh_first c"
  "tdata (set_node p n c) = tdata c" "list_mutex (set_node p n c) = list_mutex c"
  "open_sockets (set_node p n c) = open_sockets c"
  by (simp_all add: set_node_def)

lemma insert_head_ok:
  assumes "list_ok c ps" "p \<notin> set ps" "p \<noteq> 0" "node c p = Some n"
  shows "\<exists>c'. SLIST_INSERT_HEAD p c = Inr c' \<and> list_ok c' (p # ps)"
  using assms by (simp add: SLIST_INSERT_HEAD_def slist_simps list_ok_def seg_upd)

lemma insert_after_ok:
  assumes "list_ok c (xs @ q # ys)" "p \<notin> set (xs @ q # ys)" "p \<noteq> 0" "node c p = Some n"
  shows "\<exists>c'. SLIST_INSERT_AFTER q p c = Inr c' \<and> list_ok c' (xs @ q # p # ys)"
proof -
  from assms(1) obtain m where m: "node c q = Some m" "q \<noteq> 0"
    by (auto simp: list_ok_def seg_append split: option.splits)
  with assms show ?thesis
    by (auto simp: SLIST_INSERT_AFTER_def slist_simps list_ok_def seg_append seg_upd)
qed

lemma find_previous_ok:
  "seg (node c) q (xs @ r # elm # ys) 0 \<Longrightarrow> elm \<notin> set (xs @ [r]) \<Longrightarrow>
     find_previous c elm q = Some (Inr r)"
proof (induction xs arbitrary: q)
  case Nil
  then show ?case
    by (subst find_previous.simps) (auto simp: slist_simps split: option.splits)
next
  case (Cons x xs)
  then obtain m where m: "q = x" "x \<noteq> 0" "node c x = Some m" "seg (node c) (sle_next m) (xs @ r # elm # ys) 0"
    by (auto split: option.splits)
  then have "sle_next m \<noteq> elm"
    using Cons.prems(2) by (cases xs) auto
  with m Cons show ?case
    by (subst find_previous.simps) (simp add: slist_simps)
qed

text \<open>Removing a node of the list unlinks it and no other.\<close>

lemma remove_ok:
  assumes "list_ok c (xs @ p # ys)"
  shows "\<exists>c'. SLIST_REMOVE p c = Some (Inr c') \<and> list_ok c' (xs @ ys) \<and> tdata c' = tdata c \<and>
    open_sockets c' = open_sockets c \<and> list_mutex c' = list_mutex c \<and> node c' p = node c p \<and>
    (\<forall>x n'. node c' x = Some n' \<longrightarrow> (\<exists>n. node c x = Some n \<and> thread_id n' = thread_id n \<and>
       node_complete n' = node_complete n \<and> node_clientfd n' = node_clientfd n))"
proof (cases xs rule: rev_cases)
  case Nil
  with assms show ?thesis
    by (auto simp: SLIST_REMOVE_def list_ok_def slist_simps split: option.splits)
next
  case (snoc zs r)
  with assms have seg: "seg (node c) (slh_first c) (zs @ r # p # ys) 0" and dist: "distinct (zs @ r # p # ys)"
    by (simp_all add: list_ok_def)
  have "slh_first c \<noteq> p"
    using seg dist by (cases zs) auto
  moreover have "find_previous c p (slh_first c) = Some (Inr r)"
    using seg dist by (intro find_previous_ok) auto
  moreover obtain m n where mn: "node c r = Some m" "r \<noteq> 0" "node c p = Some n" "p \<noteq> 0"
    using seg_nodes [OF seg, of r] seg_nodes [OF seg, of p] by auto
  ultimately have "SLIST_REMOVE p c = Some (Inr (set_node r (m\<lparr>sle_next := sle_next n\<rparr>) c))"
    by (simp add: SLIST_REMOVE_def slist_simps)
  moreover have "list_ok (set_node r (m\<lparr>sle_next := sle_next n\<rparr>) c) (xs @ ys)"
    using seg dist mn snoc by (auto simp: list_ok_def seg_append seg_upd)
  moreover have "r \<noteq> p" using dist by auto
  ultimately show ?thesis
    using mn by auto
qed

section \<open>Joining and freeing\<close>

text \<open>What the join of a node's thread yields, and that it yields a live block for every node.\<close>

definition joined :: "pthread_env \<Rightarrow> clients \<Rightarrow> ptr \<Rightarrow> ptr" where
  "joined env c p = (case node c p of None \<Rightarrow> NULL
     | Some n \<Rightarrow> (case join_result env (thread_id n) of None \<Rightarrow> NULL | Some (rc, ret) \<Rightarrow> ret))"

definition client_fd :: "pthread_env \<Rightarrow> clients \<Rightarrow> ptr \<Rightarrow> int" where
  "client_fd env c p = (case tdata c (joined env c p) of None \<Rightarrow> -1 | Some d \<Rightarrow> td_clientfd d)"

definition joins_ok :: "pthread_env \<Rightarrow> clients \<Rightarrow> ptr list \<Rightarrow> bool" where
  "joins_ok env c ps \<longleftrightarrow>
     (\<forall>p \<in> set ps. \<forall>n. node c p = Some n \<longrightarrow> (\<exists>ret. join_result env (thread_id n) = Some (0, ret))) \<and>
     (\<forall>p \<in> set ps. joined env c p \<noteq> NULL \<and> tdata c (joined env c p) \<noteq> None) \<and>
     distinct (map (joined env c) ps)"

lemma joins_ok_first: "joins_ok env c (xs @ p # ys) \<Longrightarrow> joins_ok env c (p # xs @ ys)"
  by (auto simp: joins_ok_def)

text \<open>What \<open>reap\<close> does to a node of the list.\<close>

lemma reap_run:
  assumes ok: "list_ok c (xs @ p # ys)" and joins: "joins_ok env c (p # zs)"
  shows "\<exists>c' d. reap env init p c = Some (Inr c') \<and> node c' p = None \<and> list_ok c' (xs @ ys) \<and>
    (\<forall>x n'. node c' x = Some n' \<longrightarrow> x \<noteq> p \<and> (\<exists>n. node c x = Some n \<and> thread_id n' = thread_id n)) \<and>
    tdata c (joined env c p) = Some d \<and> tdata c' = (tdata c)(joined env c p := None) \<and>
    open_sockets c' = open_sockets c - {td_clientfd d} \<and> list_mutex c' = list_mutex c"
proof -
  have seg: "seg (node c) (slh_first c) (xs @ p # ys) 0" and dist: "distinct (xs @ p # ys)"
    using ok by (simp_all add: list_ok_def)
  obtain n where n: "node c p = Some n" "p \<noteq> 0"
    using seg_nodes [OF seg, of p] by auto
  let ?d = "joined env c p"
  obtain d where d: "tdata c ?d = Some d" "?d \<noteq> 0" and rc: "join_result env (thread_id n) = Some (0, ?d)"
    using joins n by (fastforce simp: joins_ok_def joined_def)
  obtain c1 where c1: "SLIST_REMOVE p c = Some (Inr c1)" "list_ok c1 (xs @ ys)" "tdata c1 = tdata c"
      "open_sockets c1 = open_sockets c" "list_mutex c1 = list_mutex c" "node c1 p = node c p"
    and keep: "\<And>x n'. node c1 x = Some n' \<Longrightarrow> \<exists>n. node c x = Some n \<and> thread_id n' = thread_id n"
    using remove_ok [OF ok] by metis
  let ?c' = "(close_socket (td_clientfd d) (c1\<lparr>node := (node c1)(p := None)\<rparr>))\<lparr>tdata := (tdata c)(?d := None)\<rparr>"
  have run: "reap env init p c = Some (Inr ?c')"
    using n rc d c1
    by (simp add: reap_def slist_simps case_prod_beta Let_def free_node_def get_tdata_def free_tdata_def
        close_socket_def)
  have "list_ok ?c' (xs @ ys)"
    using c1(2) dist by (auto simp: list_ok_def close_socket_def seg_upd)
  with run keep d(1) c1(4,5) show ?thesis
    by (intro exI [of _ ?c'] exI [of _ d]) (auto simp: close_socket_def)
qed

lemma joined_other:
  assumes "list_ok c' qs" "q \<in> set qs"
    and "\<And>x n'. node c' x = Some n' \<Longrightarrow> \<exists>n. node c x = Some n \<and> thread_id n' = thread_id n"
  shows "joined env c' q = joined env c q"
proof -
  obtain n' where "node c' q = Some n'"
    using seg_nodes [of "node c'" "slh_first c'" qs 0 q] assms(1,2) unfolding list_ok_def by blast
  with assms(3) [of q n'] show ?thesis by (auto simp: joined_def)
qed

lemma reap_ok:
  assumes ok: "list_ok c (xs @ p # ys)" and joins: "joins_ok env c (p # zs)"
    and sub: "set zs \<subseteq> set (xs @ ys)"
  shows "\<exists>c' d. reap env init p c = Some (Inr c') \<and> node c' p = None \<and> list_ok c' (xs @ ys) \<and>
    joins_ok env c' zs \<and> (\<forall>q \<in> set (xs @ ys). joined env c' q = joined env c q) \<and>
    tdata c (joined env c p) = Some d \<and> tdata c' = (tdata c)(joined env c p := None) \<and>
    open_sockets c' = open_sockets c - {td_clientfd d} \<and> list_mutex c' = list_mutex c \<and>
    dom (node c') \<subseteq> dom (node c) - {p} \<and>
    (\<forall>x n'. node c' x = Some n' \<longrightarrow> (\<exists>n. node c x = Some n \<and> thread_id n' = thread_id n))"
proof -
  obtain c' d where c': "reap env init p c = Some (Inr c')" "node c' p = None" "list_ok c' (xs @ ys)"
      "tdata c (joined env c p) = Some d" "tdata c' = (tdata c)(joined env c p := None)"
      "open_sockets c' = open_sockets c - {td_clientfd d}" "list_mutex c' = list_mutex c"
    and keep: "\<And>x n'. node c' x = Some n' \<Longrightarrow> x \<noteq> p \<and> (\<exists>n. node c x = Some n \<and> thread_id n' = thread_id n)"
    using reap_run [OF ok joins, of init] by blast
  have same: "joined env c' q = joined env c q" if "q \<in> set (xs @ ys)" for q
    using joined_other [OF c'(3) that] keep by blast
  have other: "joined env c q \<noteq> joined env c p" if "q \<in> set zs" for q
    using joins that by (auto simp: joins_ok_def dest: sym [of _ "joined env c p"] intro: image_eqI [OF sym])
  have m: "map (joined env c') zs = map (joined env c) zs"
    using same sub by (intro map_cong) auto
  have "\<forall>q \<in> set zs. \<forall>n'. node c' q = Some n' \<longrightarrow> (\<exists>ret. join_result env (thread_id n') = Some (0, ret))"
  proof (intro ballI allI impI)
    fix q n'
    assume "q \<in> set zs" "node c' q = Some n'"
    with keep [of q n'] obtain n where "node c q = Some n" "thread_id n' = thread_id n" "q \<in> set (p # zs)"
      by auto
    then show "\<exists>ret. join_result env (thread_id n') = Some (0, ret)"
      using joins unfolding joins_ok_def by metis
  qed
  moreover have "joined env c' q \<noteq> NULL \<and> tdata c' (joined env c' q) \<noteq> None" if "q \<in> set zs" for q
    using joins that same [of q] sub other [OF that] by (auto simp: joins_ok_def c'(5))
  moreover have "distinct (map (joined env c') zs)"
    unfolding m using joins by (auto simp: joins_ok_def)
  ultimately have "joins_ok env c' zs"
    unfolding joins_ok_def by blast
  moreover have "dom (node c') \<subseteq> dom (node c) - {p}"
    using keep by fastforce
  ultimately show ?thesis
    using c' same keep by (intro exI [of _ c'] exI [of _ d]) blast
qed

section \<open>The three traversals\<close>

lemma check_loop_none:
  "seg (node c) p ps 0 \<Longrightarrow> (\<forall>x \<in> set ps. \<forall>n. node c x = Some n \<longrightarrow> \<not> node_complete n) \<Longrightarrow>
     check_loop env p c = Some (Inr c)"
proof (induction ps arbitrary: p)
  case Nil
  then show ?case by (simp add: check_loop.simps)
next
  case (Cons x ps)
  then obtain n where "p = x" "x \<noteq> 0" "node c x = Some n" "seg (node c) (sle_next n) ps 0"
    by (auto split: option.splits)
  with Cons show ?case by (subst check_loop.simps) (simp add: slist_simps)
qed

text \<open>The first completed node is freed, and the loop then reads its link.\<close>

lemma check_loop_completed:
  "list_ok c (pre @ xs @ x # ys) \<Longrightarrow> joins_ok env c (pre @ xs @ x # ys) \<Longrightarrow> seg (node c) p (xs @ x # ys) 0 \<Longrightarrow>
     (\<forall>q \<in> set xs. \<forall>n. node c q = Some n \<longrightarrow> \<not> node_complete n) \<Longrightarrow>
     node c x = Some n \<Longrightarrow> node_complete n \<Longrightarrow> check_loop env p c = Some (Inl UseAfterFree)"
proof (induction xs arbitrary: p pre)
  case Nil
  then obtain c' where "reap env (stale_ptr env) x c = Some (Inr c')" "node c' x = None"
    using reap_ok [of c pre x ys env "pre @ ys" "stale_ptr env"] joins_ok_first by auto
  moreover have "p = x" "x \<noteq> 0" using Nil.prems(3) by auto
  ultimately show ?case
    using Nil.prems(5,6) by (subst check_loop.simps) (simp add: get_node_def)
next
  case (Cons y xs)
  then obtain m where m: "p = y" "y \<noteq> 0" "node c y = Some m" "seg (node c) (sle_next m) (xs @ x # ys) 0"
    by (auto split: option.splits)
  have "check_loop env (sle_next m) c = Some (Inl UseAfterFree)"
    using Cons.prems m(4) by (intro Cons.IH [of "pre @ [y]"]) auto
  with m Cons.prems(4) show ?case
    by (subst check_loop.simps) (simp add: slist_simps)
qed

lemma clean_loop_all:
  "list_ok c ps \<Longrightarrow> joins_ok env c ps \<Longrightarrow> \<exists>c'. clean_loop env c = Some (Inr c') \<and> list_ok c' [] \<and>
     tdata c' = tdata c |` (- joined env c ` set ps) \<and>
     open_sockets c' = open_sockets c - client_fd env c ` set ps \<and>
     list_mutex c' = list_mutex c \<and> dom (node c') \<subseteq> dom (node c) - set ps"
proof (induction ps arbitrary: c)
  case Nil
  then show ?case
    by (subst clean_loop.simps) (auto simp: list_ok_def SLIST_EMPTY_def)
next
  case (Cons x ps)
  from reap_ok [of c "[]" x ps env ps NULL] Cons.prems obtain c1 d where
    c1: "reap env NULL x c = Some (Inr c1)" "list_ok c1 ps" "joins_ok env c1 ps"
      "\<forall>q \<in> set ps. joined env c1 q = joined env c q"
      "tdata c (joined env c x) = Some d" "tdata c1 = (tdata c)(joined env c x := None)"
      "open_sockets c1 = open_sockets c - {td_clientfd d}" "list_mutex c1 = list_mutex c"
      "dom (node c1) \<subseteq> dom (node c) - {x}"
    by auto
  have first: "slh_first c = x" "x \<noteq> 0"
    using Cons.prems(1) by (auto simp: list_ok_def)
  have other: "joined env c q \<noteq> joined env c x" if "q \<in> set ps" for q
    using that Cons.prems(2) by (auto simp: joins_ok_def image_iff)
  have img: "joined env c1 ` set ps = joined env c ` set ps"
    using c1(4) by (intro image_cong) auto
  from Cons.IH [OF c1(2,3)] obtain c' where c': "clean_loop env c1 = Some (Inr c')" "list_ok c' []"
      "tdata c' = tdata c1 |` (- joined env c1 ` set ps)" "list_mutex c' = list_mutex c1"
      "open_sockets c' = open_sockets c1 - client_fd env c1 ` set ps"
      "dom (node c') \<subseteq> dom (node c1) - set ps"
    by auto
  have "clean_loop env c = Some (Inr c')"
    using c1(1) first c'(1) by (subst clean_loop.simps) (simp add: SLIST_EMPTY_def)
  moreover have "tdata c' = tdata c |` (- joined env c ` set (x # ps))"
    using c'(3) unfolding img c1(6) by (auto simp: restrict_map_def fun_eq_iff)
  moreover have "client_fd env c1 ` set ps = client_fd env c ` set ps"
    using c1(4,6) other by (intro image_cong) (auto simp: client_fd_def)
  then have "open_sockets c' = open_sockets c - client_fd env c ` set (x # ps)"
    using c'(5) c1(5,7) by (auto simp: client_fd_def)
  moreover have "dom (node c') \<subseteq> dom (node c) - set (x # ps)"
    using c'(6) c1(9) by (auto simp del: domIff)
  ultimately show ?case
    using c'(2,4) c1(8) by (intro exI [of _ c']) simp
qed

text \<open>The first thread that does not return holds up the loop.\<close>

lemma clean_loop_waits:
  "list_ok c (xs @ p # ys) \<Longrightarrow> joins_ok env c xs \<Longrightarrow> node c p = Some n \<Longrightarrow>
     join_result env (thread_id n) = None \<Longrightarrow> clean_loop env c = Some (Inl Deadlock)"
proof (induction xs arbitrary: c n)
  case Nil
  then have "slh_first c = p" "p \<noteq> 0" by (auto simp: list_ok_def)
  with Nil.prems(3,4) show ?case
    by (subst clean_loop.simps) (simp add: SLIST_EMPTY_def reap_def slist_simps)
next
  case (Cons x xs)
  from reap_ok [of c "[]" x "xs @ p # ys" env xs NULL] Cons.prems(1,2) obtain c1 where
    c1: "reap env NULL x c = Some (Inr c1)" "list_ok c1 (xs @ p # ys)" "joins_ok env c1 xs"
      "\<forall>y n'. node c1 y = Some n' \<longrightarrow> (\<exists>n. node c y = Some n \<and> thread_id n' = thread_id n)"
    by (auto simp: subset_insertI2)
  obtain n1 where n1: "node c1 p = Some n1" "thread_id n1 = thread_id n"
    using seg_nodes [of "node c1" "slh_first c1" "xs @ p # ys" 0 p] c1(2,4) Cons.prems(3)
    unfolding list_ok_def by fastforce
  have "slh_first c = x" "x \<noteq> 0" using Cons.prems(1) by (auto simp: list_ok_def)
  with c1(1) Cons.IH [OF c1(2,3) n1(1)] n1(2) Cons.prems(4) show ?case
    by (subst clean_loop.simps) (simp add: SLIST_EMPTY_def)
qed

lemma mark_loop_member:
  "seg (node c) p (xs @ x # ys) 0 \<Longrightarrow> x \<notin> set xs \<Longrightarrow> node c x = Some n \<Longrightarrow>
     mark_loop x b p c = Some (Inr (set_node x (n\<lparr>node_complete := b\<rparr>) c))"
proof (induction xs arbitrary: p)
  case Nil
  then show ?case by (subst mark_loop.simps) (auto simp: slist_simps)
next
  case (Cons y xs)
  then obtain m where "p = y" "y \<noteq> 0" "node c y = Some m" "seg (node c) (sle_next m) (xs @ x # ys) 0"
    by (auto split: option.splits)
  with Cons show ?case by (subst mark_loop.simps) (auto simp: slist_simps)
qed

lemma mark_loop_other:
  "seg (node c) p ps 0 \<Longrightarrow> x \<notin> set ps \<Longrightarrow> mark_loop x b p c = Some (Inr c)"
proof (induction ps arbitrary: p)
  case Nil
  then show ?case by (simp add: mark_loop.simps)
next
  case (Cons y ps)
  then obtain m where "p = y" "y \<noteq> 0" "node c y = Some m" "seg (node c) (sle_next m) ps 0"
    by (auto split: option.splits)
  with Cons show ?case by (subst mark_loop.simps) (auto simp: slist_simps)
qed

end
