(* ===== verification/Server_Session.thy ===== *)
theory Server_Session
  imports Server_Files Client_List
begin

text \<open>
  One client session of \<open>server/aesdsocket.c\<close>: receiving until a chunk holds a newline,
  the seek command a client may send in place of data, storing the chunk in the device file
  and sending the file back. The file is the device of the driver model, so a session calls
  \<open>aesd_write\<close>, \<open>aesd_read\<close>, \<open>aesd_llseek\<close> and \<open>aesd_ioctl\<close>. Other threads run
  before or after a session, so a mutex found locked is one nobody will release.
\<close>

section \<open>State\<close>

text \<open>The client threads, the file mutex, the device, what was sent to each socket, whether the
  device file exists and whether the server socket is open.\<close>

record server =
  threads :: clients
  file_mutex :: mutex
  device :: driver
  sent :: "(int \<times> byte list) list"
  device_file :: bool
  listening :: bool

text \<open>
  What the environment of a session decides: the block \<open>malloc\<close> gives for the thread buffer
  with the bytes it happens to hold, whether there is memory for the command, the results of
  locking and unlocking the file mutex and of \<open>fopen\<close> and \<open>open\<close>, the kernel's decisions,
  the bytes of memory the kernel never wrote, and the value of \<open>client_thread_node\<close>, which no
  code sets.
\<close>

record session_env =
  thread_buffer :: "byte list option"
  cmd_malloc :: bool
  file_lock_result :: int
  file_unlock_result :: int
  fopen_ok :: bool
  open_fd :: int
  kernel :: kernel_env
  fill :: "nat \<Rightarrow> byte"
  client_thread_node :: ptr
  pthreads :: pthread_env

abbreviation (input) buffer_size :: nat where "buffer_size \<equiv> 1024"

definition received_by :: "int \<Rightarrow> server \<Rightarrow> byte list" where
  "received_by fd srv = concat (map snd (filter (\<lambda>(k, bs). k = fd) (sent srv)))"

definition send :: "int \<Rightarrow> byte list \<Rightarrow> server \<Rightarrow> server" where
  "send fd bs srv = srv\<lparr>sent := sent srv @ [(fd, bs)]\<rparr>"

definition lock_file :: "session_env \<Rightarrow> server \<Rightarrow> (int \<times> server) cres" where
  "lock_file env srv =
     (if file_lock_result env \<noteq> 0 then Inr (file_lock_result env, srv)
      else case file_mutex srv of
          Unlocked \<Rightarrow> Inr (0, srv\<lparr>file_mutex := Locked\<rparr>) | Locked \<Rightarrow> Inl Deadlock)"

definition unlock_file :: "session_env \<Rightarrow> server \<Rightarrow> int \<times> server" where
  "unlock_file env srv =
     (if file_unlock_result env \<noteq> 0 then (file_unlock_result env, srv)
      else (0, srv\<lparr>file_mutex := Unlocked\<rparr>))"

section \<open>get_ioctl_command\<close>

text \<open>
  \<open>%u\<close> of \<open>sscanf\<close>: white space, an optional sign, digits. The value is that of
  \<open>strtoul\<close> (clamped to the largest \<open>unsigned long\<close>, negated after a minus sign) cut to
  32 bits.
\<close>

definition is_space :: "byte \<Rightarrow> bool" where
  "is_space c \<longleftrightarrow> c \<in> {CHR 0x20, CHR 0x09, CHR 0x0A, CHR 0x0B, CHR 0x0C, CHR 0x0D}"

definition is_digit :: "byte \<Rightarrow> bool" where
  "is_digit c \<longleftrightarrow> 48 \<le> (of_char c :: nat) \<and> (of_char c :: nat) \<le> 57"

definition number :: "byte list \<Rightarrow> nat" where
  "number ds = foldl (\<lambda>n c. 10 * n + (of_char c - 48)) 0 ds"

definition strtoul :: "bool \<Rightarrow> nat \<Rightarrow> 64 word" where
  "strtoul neg v = (if v < 2 ^ 64 then (if neg then - word_of_nat v else word_of_nat v) else - 1)"

fun scan_sign :: "byte list \<Rightarrow> bool \<times> byte list" where
  "scan_sign (c # cs) = (if c = CHR ''-'' then (True, cs) else if c = CHR ''+'' then (False, cs) else (False, c # cs))"
| "scan_sign [] = (False, [])"

definition scan_u :: "byte list \<Rightarrow> (uint32_t \<times> byte list) option" where
  "scan_u s =
     (let (neg, s') = scan_sign (dropWhile is_space s);
          ds = takeWhile is_digit s' in
      if ds = [] then None else Some (ucast (strtoul neg (number ds)), dropWhile is_digit s'))"

definition scan_literal :: "byte list \<Rightarrow> byte list \<Rightarrow> byte list option" where
  "scan_literal lit s = (if take (length lit) s = lit then Some (drop (length lit) s) else None)"

definition sscanf_seekto :: "byte list \<Rightarrow> aesd_seekto option" where
  "sscanf_seekto s =
     Option.bind (scan_literal ''AESDCHAR_IOCSEEKTO:'' s) (\<lambda>s1.
     Option.bind (scan_u s1) (\<lambda>(a, s2).
     Option.bind (scan_literal '','' s2) (\<lambda>s3.
     Option.bind (scan_u s3) (\<lambda>(b, s4).
     Some \<lparr>write_cmd = a, write_cmd_offset = b\<rparr>))))"

text \<open>\<open>sscanf\<close> gets the whole buffer, which must hold a NUL.\<close>

definition get_ioctl_command :: "session_env \<Rightarrow> byte list \<Rightarrow> aesd_seekto option cres" where
  "get_ioctl_command env cmd_buffer =
     (if \<not> cmd_malloc env then Inr None
      else cbind (c_strlen cmd_buffer) (\<lambda>n. Inr (sscanf_seekto (take n cmd_buffer))))"

section \<open>handle_ioctl\<close>

text \<open>The C library turns an error of the system call into -1; the position is cut to an \<open>int\<close>.\<close>

definition ioctl_result :: "64 word \<Rightarrow> int" where
  "ioctl_result r = (if - 4095 \<le> sint r \<and> sint r < 0 then -1 else sint (ucast r :: 32 word))"

text \<open>Each read overwrites the start of the buffer; \<open>strlen\<close> of the whole of it is sent.\<close>

partial_function (option) read_send_loop ::
    "session_env \<Rightarrow> int \<Rightarrow> byte list \<Rightarrow> open_file \<Rightarrow> server \<Rightarrow> server cres option" where
  "read_send_loop env clientfd cmd_buffer fp srv =
     (case aesd_read (kernel env) (device srv) (Some fp) (Some buffer_size) 1024 (Some (f_pos fp)) of
        Inl t \<Rightarrow> Some (Inl t)
      | Inr (bytes_read, seen, pos, d) \<Rightarrow>
          if bytes_read <s 0 \<or> bytes_read = 0 then Some (Inr (srv\<lparr>device := d\<rparr>))
          else let cmd_buffer' = settle (fill env) seen @ drop (length seen) cmd_buffer in
            (case c_strlen cmd_buffer' of
               Inl t \<Rightarrow> Some (Inl t)
             | Inr n \<Rightarrow> read_send_loop env clientfd cmd_buffer' (fp\<lparr>f_pos := pos\<rparr>)
                         (send clientfd (take n cmd_buffer') (srv\<lparr>device := d\<rparr>))))"

definition handle_ioctl ::
    "session_env \<Rightarrow> int \<Rightarrow> byte list \<Rightarrow> server \<Rightarrow> (int \<times> server) cres option" where
  "handle_ioctl env clientfd cmd_buffer srv =
     (case get_ioctl_command env cmd_buffer of
        Inl t \<Rightarrow> Some (Inl t)
      | Inr None \<Rightarrow> Some (Inr (-1, srv))
      | Inr (Some cmd) \<Rightarrow>
     (case lock_file env srv of
        Inl t \<Rightarrow> Some (Inl t)
      | Inr (rc, s1) \<Rightarrow>
          if rc \<noteq> 0 then Some (Inr (-1, s1))
          else if open_fd env < 0 then Some (Inr (-1, s1))
          else
     (case aesd_ioctl (kernel env) (device s1) opened_file AESDCHAR_IOCSEEKTO (Some cmd) of
        Inl t \<Rightarrow> Some (Inl t)
      | Inr (r, fp, d) \<Rightarrow>
          let retval = ioctl_result r; s2 = s1\<lparr>device := d\<rparr> in
          if retval < 0 then Some (Inr (- retval, s2))
          else map_option (\<lambda>res. cbind res (\<lambda>s3.
                 let (rc', s4) = unlock_file env s3 in
                 Inr (if rc' \<noteq> 0 then -1 else retval, s4)))
               (read_send_loop env clientfd (replicate buffer_size NUL) fp s2))))"

section \<open>cleanup\<close>

definition cleanup :: "pthread_env \<Rightarrow> server \<Rightarrow> server cres option" where
  "cleanup env srv =
     (case (if SLIST_EMPTY (threads srv) then Some (Inr (threads srv))
            else check_completed_threads env (threads srv)) of
        None \<Rightarrow> None
      | Some (Inl t) \<Rightarrow> Some (Inl t)
      | Some (Inr c1) \<Rightarrow>
          map_option (\<lambda>r. cbind r (\<lambda>c2.
            Inr (srv\<lparr>threads := c2, device_file := False, listening := False\<rparr>)))
          (clean_threads env c1))"

section \<open>message_handler_thread\<close>

text \<open>
  What \<open>recv\<close> delivers is a list of non-empty chunks of at most \<open>buffer_size\<close> bytes; its
  end is the client closing the connection. Each chunk overwrites the start of the buffer.
\<close>

fun recv_loop :: "byte list \<Rightarrow> byte list list \<Rightarrow> byte list \<times> byte list option" where
  "recv_loop buf [] = (buf, None)"
| "recv_loop buf (chunk # chunks) =
     (let buf' = chunk @ drop (length chunk) buf in
      if newline \<in> set chunk then (buf', Some chunk) else recv_loop buf' chunks)"

text \<open>The labels \<open>success\<close> and \<open>failure\<close>: both mark the node as complete.\<close>

definition finish :: "session_env \<Rightarrow> ptr \<Rightarrow> bool \<Rightarrow> server \<Rightarrow> server cres option" where
  "finish env data ok srv =
     (case get_tdata (threads srv) data of
        Inl t \<Rightarrow> Some (Inl t)
      | Inr d \<Rightarrow>
          map_option (\<lambda>r. cbind r (\<lambda>c. Inr (srv\<lparr>threads := c\<rparr>)))
            (set_thread_complete_success (pthreads env) (client_thread_node env) True
              ((threads srv)\<lparr>tdata := (tdata (threads srv))(data \<mapsto> d\<lparr>td_complete := ok\<rparr>)\<rparr>)))"

text \<open>
  Storing the chunk and sending the file back. When the library cannot write the bytes out
  nothing is read back either.
\<close>

definition store_and_send ::
    "session_env \<Rightarrow> ptr \<Rightarrow> int \<Rightarrow> byte list \<Rightarrow> server \<Rightarrow> server cres option" where
  "store_and_send env data clientfd chunk srv =
     (case dev_put (kernel env, device srv) chunk of
        Inl t \<Rightarrow> Some (Inl t)
      | Inr (ok, y1) \<Rightarrow>
     (case (if ok then dev_contents (fill env) y1 else Inr (Some [], y1)) of
        Inl t \<Rightarrow> Some (Inl t)
      | Inr (None, y2) \<Rightarrow> None
      | Inr (Some content, y2) \<Rightarrow>
          let s1 = send clientfd (send_lines (buffer_size - 1) content) (srv\<lparr>device := snd y2\<rparr>);
              (rc, s2) = unlock_file env s1 in
          finish env data (rc = 0) s2))"

definition message_handler_thread ::
    "session_env \<Rightarrow> ptr \<Rightarrow> byte list list \<Rightarrow> server \<Rightarrow> server cres option" where
  "message_handler_thread env data chunks srv =
     (case thread_buffer env of
        None \<Rightarrow> finish env data False srv
      | Some junk \<Rightarrow>
     (case get_tdata (threads srv) data of
        Inl t \<Rightarrow> Some (Inl t)
      | Inr td \<Rightarrow>
     (case recv_loop junk chunks of
        (buf, None) \<Rightarrow> Some (Inl NullDeref)
      | (buf, Some chunk) \<Rightarrow>
          if take 18 buf = ''AESDCHAR_IOCSEEKTO'' then
            (case handle_ioctl env (td_clientfd td) buf srv of
               None \<Rightarrow> None
             | Some (Inl t) \<Rightarrow> Some (Inl t)
             | Some (Inr (ioctl_res, s1)) \<Rightarrow> finish env data (ioctl_res = 0) s1)
          else
            (case lock_file env srv of
               Inl t \<Rightarrow> Some (Inl t)
             | Inr (rc, s1) \<Rightarrow>
                 if rc \<noteq> 0 then finish env data False s1
                 else if \<not> fopen_ok env then
                   (case cleanup (pthreads env) s1 of
                      None \<Rightarrow> None
                    | Some (Inl t) \<Rightarrow> Some (Inl t)
                    | Some (Inr s2) \<Rightarrow> finish env data False s2)
                 else store_and_send env data (td_clientfd td) chunk s1))))"

end
