(* ===== verification/Server_Main.thy ===== *)
theory Server_Main
  imports Server_Session
begin

text \<open>
  \<open>main\<close> of \<open>server/aesdsocket.c\<close>: setting up signals, mutexes and the socket, turning
  into a daemon, the loop that accepts clients, and the end; and the time stamp written by the
  timer's handler.
\<close>

section \<open>State\<close>

text \<open>
  \<open>keep_running\<close> and \<open>last\<close> are the variables of the program; \<open>addrinfo\<close> says whether
  the result of \<open>getaddrinfo\<close> is still allocated, \<open>mutexes\<close> how many mutexes are initialised.
\<close>

record program =
  srv :: server
  last_node :: ptr
  keep_running :: bool
  addrinfo :: bool
  mutexes :: nat

text \<open>The results of the calls of the setup, negative or non-zero for failure as the calls have it.\<close>

record setup_env =
  sigint_result :: int
  sigterm_result :: int
  file_mutex_init :: int
  list_mutex_init :: int
  getaddrinfo_result :: int
  socket_result :: int
  setsockopt_result :: int
  bind_result :: int
  fork_result :: int
  setsid_result :: int
  listen_result :: int
  setup_pthreads :: pthread_env

text \<open>
  One round of the accept loop: the block for the thread's data, the accepted socket, whether
  a signal arrived meanwhile, the result of \<open>pthread_create\<close> and the new thread, the block
  for the node, and the answers of the threads library.
\<close>

record round =
  data_block :: ptr
  accepted :: int
  signalled :: bool
  create_result :: int
  new_thread :: nat
  node_block :: ptr
  round_pthreads :: pthread_env

section \<open>Threads\<close>

abbreviation (input) upd_clients :: "(clients \<Rightarrow> clients) \<Rightarrow> program \<Rightarrow> program" where
  "upd_clients f st \<equiv> st\<lparr>srv := (srv st)\<lparr>threads := f (threads (srv st))\<rparr>\<rparr>"

definition create_thread_data :: "round \<Rightarrow> clients \<Rightarrow> clients" where
  "create_thread_data e c =
     (if data_block e = NULL then c
      else c\<lparr>tdata := (tdata c)(data_block e \<mapsto> \<lparr>td_complete = False, td_clientfd = 0\<rparr>)\<rparr>)"

definition end_program_singal :: "program \<Rightarrow> program" where
  "end_program_singal st = st\<lparr>keep_running := False\<rparr>"

definition accept_client :: "round \<Rightarrow> clients \<Rightarrow> clients" where
  "accept_client e c = c\<lparr>
     tdata := (tdata c)(data_block e := map_option (td_clientfd_update (\<lambda>_. accepted e)) (tdata c (data_block e))),
     open_sockets := (if accepted e < 0 then open_sockets c else insert (accepted e) (open_sockets c))\<rparr>"

text \<open>The node as the code fills it; its link is set when it is inserted.\<close>

definition new_node :: "round \<Rightarrow> clients \<Rightarrow> clients" where
  "new_node e c = set_node (node_block e)
     \<lparr>thread_id = new_thread e, node_clientfd = accepted e, node_complete = False, sle_next = NULL\<rparr> c"

section \<open>The accept loop\<close>

definition drop_client :: "round \<Rightarrow> clients \<Rightarrow> clients cres" where
  "drop_client e c = free_tdata (data_block e) (close_socket (accepted e) c)"

definition accept_round :: "round \<Rightarrow> program \<Rightarrow> program cres option" where
  "accept_round e st =
     (let with_clients = (\<lambda>f s. map_option (\<lambda>r. cbind r (\<lambda>c. Inr (s\<lparr>srv := (srv s)\<lparr>threads := c\<rparr>\<rparr>))) f) in
      if data_block e = NULL then Some (Inr st)
      else
      let st1 = upd_clients (\<lambda>c. accept_client e (create_thread_data e c))
                  (if signalled e then end_program_singal st else st);
          c1 = threads (srv st1) in
      if \<not> keep_running st1 then with_clients (Some (free_tdata (data_block e) c1)) st1
      else if accepted e < 0 then with_clients (Some (free_tdata (data_block e) c1)) st1
      else if create_result e \<noteq> 0 then with_clients (Some (drop_client e c1)) st1
      else if node_block e = NULL then with_clients (Some (drop_client e c1)) st1
      else
      (let c2 = new_node e c1; env = round_pthreads e in
       case lock_list env c2 of
         Inl t \<Rightarrow> Some (Inl t)
       | Inr (rc, c3) \<Rightarrow>
           if rc \<noteq> 0
           then with_clients (Some (cbind (drop_client e c3) (free_node (node_block e)))) st1
           else
           (case (if last_node st1 = NULL then SLIST_INSERT_HEAD (node_block e) c3
                  else SLIST_INSERT_AFTER (last_node st1) (node_block e) c3) of
              Inl t \<Rightarrow> Some (Inl t)
            | Inr c4 \<Rightarrow>
                if unlock_result env \<noteq> 0 then with_clients (Some (Inr c4)) st1
                else with_clients (check_completed_threads env (unlock_list env c4))
                       (st1\<lparr>last_node := node_block e\<rparr>))))"

text \<open>Whether a round gets as far as creating a thread.\<close>

definition creates_thread :: "round \<Rightarrow> program \<Rightarrow> bool" where
  "creates_thread e st \<longleftrightarrow> data_block e \<noteq> NULL \<and> keep_running st \<and> \<not> signalled e \<and>
     0 \<le> accepted e \<and> create_result e = 0"

text \<open>
  The loop over the rounds that happen; when they run out while the program keeps running it
  waits for a client and does not return.
\<close>

fun accept_loop :: "round list \<Rightarrow> program \<Rightarrow> program cres option" where
  "accept_loop es st =
     (if \<not> keep_running st then Some (Inr st)
      else case es of [] \<Rightarrow> None
        | e # es' \<Rightarrow>
            (case accept_round e st of
               None \<Rightarrow> None
             | Some (Inl t) \<Rightarrow> Some (Inl t)
             | Some (Inr st') \<Rightarrow> accept_loop es' st'))"

declare accept_loop.simps [simp del]

section \<open>main\<close>

text \<open>An exit of the program: with the status alone, or after \<open>cleanup\<close>.\<close>

definition exit_now :: "int \<Rightarrow> program \<Rightarrow> (int \<times> program) cres option" where
  "exit_now status st = Some (Inr (status, st))"

definition exit_cleanup :: "setup_env \<Rightarrow> int \<Rightarrow> program \<Rightarrow> (int \<times> program) cres option" where
  "exit_cleanup env status st =
     map_option (\<lambda>r. cbind r (\<lambda>s. Inr (status, st\<lparr>srv := s\<rparr>))) (cleanup (setup_pthreads env) (srv st))"

definition main :: "setup_env \<Rightarrow> string list \<Rightarrow> round list \<Rightarrow> program \<Rightarrow> (int \<times> program) cres option" where
  "main env argv rounds st =
     (if sigint_result env \<noteq> 0 then exit_now (-1) st
      else if sigterm_result env \<noteq> 0 then exit_now (-1) st
      else if file_mutex_init env \<noteq> 0 then exit_now (-1) st
      else if list_mutex_init env \<noteq> 0 then exit_now (-1) st
      else
      let st1 = st\<lparr>mutexes := 2\<rparr> in
      if getaddrinfo_result env \<noteq> 0 then exit_cleanup env (-1) st1
      else
      let st2 = st1\<lparr>addrinfo := True\<rparr> in
      if socket_result env < 0 then exit_now (-1) st2
      else
      let st3 = st2\<lparr>srv := (srv st2)\<lparr>listening := True\<rparr>\<rparr> in
      if setsockopt_result env < 0 then exit_cleanup env (-1) st3
      else
      let st4 = st3\<lparr>addrinfo := False\<rparr> in
      if bind_result env < 0 then exit_cleanup env (-1) st4
      else
      let daemon = (1 < length argv \<and> argv ! 1 = ''-d'') in
      if daemon \<and> fork_result env = -1 then exit_cleanup env (-1) st4
      else if daemon \<and> fork_result env = 0 \<and> setsid_result env = -1 then exit_cleanup env (-1) st4
      else if daemon \<and> fork_result env \<noteq> 0 then exit_now 0 st4
      else
      let st5 = upd_clients (\<lambda>c. c\<lparr>slh_first := NULL\<rparr>) (st4\<lparr>last_node := NULL\<rparr>) in
      if listen_result env < 0 then exit_cleanup env (-1) st5
      else
      (case accept_loop rounds st5 of
         None \<Rightarrow> None
       | Some (Inl t) \<Rightarrow> Some (Inl t)
       | Some (Inr st6) \<Rightarrow> exit_cleanup env 0 st6))"

section \<open>The time stamp\<close>

text \<open>
  \<open>print_timestamp\<close>, the handler of \<open>SIGALRM\<close>: the results of the clock, of \<open>localtime\<close>
  and of \<open>strftime\<close> (0, or the number of characters in \<open>stamp\<close>) come from the environment.
  After a failed \<open>fopen\<close> it goes on with the NULL stream.
\<close>

record clock_env =
  clock_result :: int
  localtime_ok :: bool
  stamp :: "byte list"

definition timestamp_line :: "byte list \<Rightarrow> byte list" where
  "timestamp_line s = ''timestamp:'' @ s @ '' '' @ [newline]"

definition print_timestamp :: "session_env \<Rightarrow> clock_env \<Rightarrow> server \<Rightarrow> server cres option" where
  "print_timestamp env clk s =
     (if clock_result clk \<noteq> 0 \<or> \<not> localtime_ok clk \<or> stamp clk = [] then Some (Inr s)
      else
     (case lock_file env s of
        Inl t \<Rightarrow> Some (Inl t)
      | Inr (rc, s1) \<Rightarrow>
          if rc \<noteq> 0 then Some (Inr s1)
          else if \<not> fopen_ok env then
            map_option (\<lambda>r. cbind r (\<lambda>s2. Inl NullDeref)) (cleanup (pthreads env) s1)
          else
            Some (cbind (dev_put (kernel env, device s1) (timestamp_line (stamp clk))) (\<lambda>(ok, y).
              Inr (snd (unlock_file env (s1\<lparr>device := snd y\<rparr>)))))))"

text \<open>\<open>set_timer\<close>: the interval in seconds that is set, and the result of the function.\<close>

definition set_timer :: "int \<Rightarrow> int \<Rightarrow> int \<times> nat option" where
  "set_timer sigaction_result setitimer_result =
     (if sigaction_result \<noteq> 0 then (-1, None)
      else if setitimer_result \<noteq> 0 then (-1, None)
      else (0, Some 10))"

end
