(* ===== verification/Server_Threads.thy ===== *)
theory Server_Threads
  imports Server_Main
begin

text \<open>
  The server with its threads running at the same time. A session of \<open>message_handler_thread\<close>
  is cut where another thread may run: after \<open>malloc\<close>, after each \<open>recv\<close>, before it takes the
  file mutex, inside the critical section, and before it takes the list mutex. \<open>cleanup\<close> is cut
  at its locks and at each \<open>pthread_join\<close>, which waits until the thread has returned. A step that
  has to wait is the result \<open>Inl Deadlock\<close> of the sequential model: here it is not enabled, and
  another thread may go first. The steps are made of the definitions of the sequential model.
\<close>

section \<open>Program counters\<close>

datatype cleaning = Checking | Locking | Joining | Removing

datatype thread_pc =
    Starting "byte list list"
  | Receiving "byte list" "byte list list"
  | Commanding "byte list"
  | Storing "byte list"
  | Opening "byte list"
  | Cleaning cleaning
  | Writing "byte list"
  | Replying bool
  | Unlocking
  | Marking bool
  | Finished

datatype main_pc = Accepting | Main_cleaning cleaning | Exited

section \<open>cleanup in steps\<close>

text \<open>
  \<open>pthread_join\<close> of a thread: the thread itself gets the error \<open>EDEADLK\<close>, a thread that has
  returned gives its value, and for any other thread the caller waits.
\<close>

abbreviation (input) EDEADLK :: int where "EDEADLK \<equiv> 35"

definition pthread_join :: "(nat \<Rightarrow> ptr option) \<Rightarrow> nat option \<Rightarrow> nat \<Rightarrow> (int \<times> ptr) option" where
  "pthread_join returned self t =
     (if self = Some t then Some (EDEADLK, NULL) else map_option (Pair 0) (returned t))"

fun clean_step ::
    "(nat \<Rightarrow> ptr option) \<Rightarrow> nat option \<Rightarrow> pthread_env \<Rightarrow> cleaning \<Rightarrow> server \<Rightarrow>
     (cleaning option \<times> server) cres option" where
  "clean_step returned self env Checking sv =
     map_option (\<lambda>r. cbind r (\<lambda>c. Inr (Some Locking, sv\<lparr>threads := c\<rparr>)))
       (if SLIST_EMPTY (threads sv) then Some (Inr (threads sv))
        else check_completed_threads (env\<lparr>join_result := pthread_join returned self\<rparr>) (threads sv))"
| "clean_step returned self env Locking sv =
     Some (cbind (lock_list env (threads sv)) (\<lambda>(rc, c).
       Inr (Some (if rc \<noteq> 0 then Removing else Joining), sv\<lparr>threads := c\<rparr>)))"
| "clean_step returned self env Joining sv =
     (let c = threads sv in
      if SLIST_EMPTY c then Some (Inr (Some Removing, sv\<lparr>threads := unlock_list env c\<rparr>))
      else map_option (\<lambda>r. cbind r (\<lambda>c'. Inr (Some Joining, sv\<lparr>threads := c'\<rparr>)))
        (reap (env\<lparr>join_result := pthread_join returned self\<rparr>) NULL (slh_first c) c))"
| "clean_step returned self env Removing sv =
     Some (Inr (None, sv\<lparr>device_file := False, listening := False\<rparr>))"

section \<open>A session in steps\<close>

fun thread_step ::
    "(nat \<Rightarrow> ptr option) \<Rightarrow> nat \<Rightarrow> session_env \<Rightarrow> ptr \<Rightarrow> thread_pc \<Rightarrow> server \<Rightarrow>
     (thread_pc \<times> server) cres option" where
  "thread_step returned t env data (Starting chunks) sv =
     Some (Inr (case thread_buffer env of
         None \<Rightarrow> Marking False | Some junk \<Rightarrow> Receiving junk chunks, sv))"
| "thread_step returned t env data (Receiving buf []) sv =
     Some (cbind (get_tdata (threads sv) data) (\<lambda>td. Inl NullDeref))"
| "thread_step returned t env data (Receiving buf (chunk # chunks)) sv =
     Some (cbind (get_tdata (threads sv) data) (\<lambda>td.
       let buf' = chunk @ drop (length chunk) buf in
       Inr (if newline \<in> set chunk
            then (if take 18 buf' = ''AESDCHAR_IOCSEEKTO'' then Commanding buf' else Storing chunk)
            else Receiving buf' chunks, sv)))"
| "thread_step returned t env data (Commanding buf) sv =
     (case get_tdata (threads sv) data of
        Inl e \<Rightarrow> Some (Inl e)
      | Inr td \<Rightarrow>
          map_option (\<lambda>r. cbind r (\<lambda>(rc, sv'). Inr (Marking (rc = 0), sv')))
            (handle_ioctl env (td_clientfd td) buf sv))"
| "thread_step returned t env data (Storing chunk) sv =
     Some (cbind (lock_file env sv) (\<lambda>(rc, sv').
       Inr (if rc \<noteq> 0 then Marking False else Opening chunk, sv')))"
| "thread_step returned t env data (Opening chunk) sv =
     Some (Inr (if fopen_ok env then Writing chunk else Cleaning Checking, sv))"
| "thread_step returned t env data (Cleaning stage) sv =
     map_option (\<lambda>r. cbind r (\<lambda>(next, sv').
         Inr (case next of None \<Rightarrow> Marking False | Some stage' \<Rightarrow> Cleaning stage', sv')))
       (clean_step returned (Some t) (pthreads env) stage sv)"
| "thread_step returned t env data (Writing chunk) sv =
     Some (cbind (dev_put (kernel env, device sv) chunk) (\<lambda>(ok, y).
       Inr (Replying ok, sv\<lparr>device := snd y\<rparr>)))"
| "thread_step returned t env data (Replying ok) sv =
     (case get_tdata (threads sv) data of
        Inl e \<Rightarrow> Some (Inl e)
      | Inr td \<Rightarrow>
     (case (if ok then dev_contents (fill env) (kernel env, device sv)
            else Inr (Some [], kernel env, device sv)) of
        Inl e \<Rightarrow> Some (Inl e)
      | Inr (None, y) \<Rightarrow> None
      | Inr (Some content, y) \<Rightarrow>
          Some (Inr (Unlocking,
            send (td_clientfd td) (send_lines (buffer_size - 1) content) (sv\<lparr>device := snd y\<rparr>)))))"
| "thread_step returned t env data Unlocking sv =
     (let (rc, sv') = unlock_file env sv in Some (Inr (Marking (rc = 0), sv')))"
| "thread_step returned t env data (Marking ok) sv =
     map_option (\<lambda>r. cbind r (\<lambda>sv'. Inr (Finished, sv'))) (finish env data ok sv)"
| "thread_step returned t env data Finished sv = Some (Inl Deadlock)"

section \<open>The process\<close>

text \<open>
  The program, the argument and the program counter of every thread that was created, and where
  \<open>main\<close> is. The environment of each thread is a parameter, as is that of the end of \<open>main\<close>.
\<close>

record process =
  prog :: program
  running :: "nat \<rightharpoonup> ptr \<times> thread_pc"
  at_main :: main_pc

definition returned :: "process \<Rightarrow> nat \<Rightarrow> ptr option" where
  "returned y t = (case running y t of Some (data, Finished) \<Rightarrow> Some data | _ \<Rightarrow> None)"

text \<open>
  What can happen: a round of the accept loop, whose client will send the given chunks; a signal
  while \<open>main\<close> is not in \<open>accept\<close>; \<open>main\<close> finding \<open>keep_running\<close> false at the head of its loop;
  a step of a thread; a step of \<open>cleanup\<close> in \<open>main\<close>.
\<close>

datatype event = Accept round "byte list list" | Signal | Leave | Step nat | Clean

fun perform :: "(nat \<Rightarrow> session_env) \<Rightarrow> pthread_env \<Rightarrow> event \<Rightarrow> process \<Rightarrow> process cres option" where
  "perform envs menv (Accept e chunks) y =
     (if at_main y \<noteq> Accepting then Some (Inl Deadlock)
      else map_option (\<lambda>r. cbind r (\<lambda>st. Inr
        \<lparr>prog = st,
         running = (if creates_thread e (prog y)
            then (running y)(new_thread e \<mapsto> (data_block e, Starting chunks)) else running y),
         at_main = (if keep_running st then Accepting else Main_cleaning Checking)\<rparr>))
        (accept_round e (prog y)))"
| "perform envs menv Signal y =
     (if at_main y = Exited then Some (Inl Deadlock)
      else Some (Inr (y\<lparr>prog := end_program_singal (prog y)\<rparr>)))"
| "perform envs menv Leave y =
     (if at_main y = Accepting \<and> \<not> keep_running (prog y)
      then Some (Inr (y\<lparr>at_main := Main_cleaning Checking\<rparr>)) else Some (Inl Deadlock))"
| "perform envs menv (Step t) y =
     (if at_main y = Exited then Some (Inl Deadlock)
      else case running y t of
          None \<Rightarrow> Some (Inl Deadlock)
        | Some (data, pc) \<Rightarrow>
            map_option (\<lambda>r. cbind r (\<lambda>(pc', sv). Inr
              (y\<lparr>prog := (prog y)\<lparr>srv := sv\<rparr>, running := (running y)(t \<mapsto> (data, pc'))\<rparr>)))
              (thread_step (returned y) t (envs t) data pc (srv (prog y))))"
| "perform envs menv Clean y =
     (case at_main y of
        Main_cleaning stage \<Rightarrow>
          map_option (\<lambda>r. cbind r (\<lambda>(next, sv). Inr
            (y\<lparr>prog := (prog y)\<lparr>srv := sv\<rparr>,
               at_main := (case next of None \<Rightarrow> Exited | Some stage' \<Rightarrow> Main_cleaning stage')\<rparr>)))
            (clean_step (returned y) None menv stage (srv (prog y)))
      | _ \<Rightarrow> Some (Inl Deadlock))"

fun run :: "(nat \<Rightarrow> session_env) \<Rightarrow> pthread_env \<Rightarrow> event list \<Rightarrow> process \<Rightarrow> process cres option" where
  "run envs menv [] y = Some (Inr y)"
| "run envs menv (ev # evs) y =
     (case perform envs menv ev y of
        None \<Rightarrow> None | Some (Inl t) \<Rightarrow> Some (Inl t) | Some (Inr y') \<Rightarrow> run envs menv evs y')"

definition serving :: "program \<Rightarrow> process" where
  "serving st = \<lparr>prog = st, running = Map.empty, at_main = Accepting\<rparr>"

section \<open>A session without interference\<close>

text \<open>
  The steps of one thread alone, at most as many as the counter says. A session takes one step for
  each chunk and at most eight others.
\<close>

fun alone :: "nat \<Rightarrow> (nat \<Rightarrow> ptr option) \<Rightarrow> nat \<Rightarrow> session_env \<Rightarrow> ptr \<Rightarrow> thread_pc \<Rightarrow> server \<Rightarrow>
    server cres option" where
  "alone 0 rt t env data pc sv = (if pc = Finished then Some (Inr sv) else None)"
| "alone (Suc n) rt t env data pc sv =
     (if pc = Finished then Some (Inr sv)
      else case thread_step rt t env data pc sv of
          None \<Rightarrow> None
        | Some (Inl e) \<Rightarrow> Some (Inl e)
        | Some (Inr (pc', sv')) \<Rightarrow> alone n rt t env data pc' sv')"

end
