(* ===== verification/Server_Replies.thy ===== *)
theory Server_Replies
  imports Server_Session
begin

text \<open>
  What a session sends: the file after a chunk was stored, and the answer to a seek command,
  which is exact only while each command read is at least as long as the one before.
\<close>

section \<open>The answer to a seek command\<close>

text \<open>Each piece overwrites the start of the buffer; what precedes the first NUL is sent.\<close>

fun overlays :: "byte list \<Rightarrow> byte list list \<Rightarrow> byte list list" where
  "overlays buf [] = []"
| "overlays buf (d # ds) =
     (let buf' = d @ drop (length d) buf in takeWhile (\<lambda>c. c \<noteq> NUL) buf' # overlays buf' ds)"

lemma locate_at:
  "k < length ss \<Longrightarrow> d < ss ! k \<Longrightarrow> locate ss (sum_list (take k ss) + d) = Some (k, d)"
proof (induction ss arbitrary: k)
  case (Cons s ss)
  then show ?case by (cases k) auto
qed simp

text \<open>A buffer that ends in NUL still does after a shorter piece was read into it.\<close>

definition text_buffer :: "byte list \<Rightarrow> bool" where
  "text_buffer buf \<longleftrightarrow> length buf = 1024 \<and> buf ! 1023 = NUL"

lemma text_buffer_overlay: "text_buffer buf \<Longrightarrow> length d \<le> 1023 \<Longrightarrow> text_buffer (d @ drop (length d) buf)"
  by (auto simp: text_buffer_def nth_append)

lemma text_buffer_strlen:
  "text_buffer buf \<Longrightarrow> c_strlen buf = Inr (length (takeWhile (\<lambda>c. c \<noteq> NUL) buf))"
  by (auto simp: text_buffer_def c_strlen_def in_set_conv_nth intro: exI [of _ 1023])

lemma text_buffer_zero: "text_buffer (replicate 1024 NUL)"
  by (simp add: text_buffer_def)

lemma take_length_takeWhile: "take (length (takeWhile P xs)) xs = takeWhile P xs"
  by (metis takeWhile_eq_take)

text \<open>One round of the loop, from a position inside a stored command.\<close>

lemma read_send_step:
  assumes rep: "represents (device srv) (cs, p)" and env: "good_env (kernel env)" "private_data fp = Aesd_dev"
    and k: "k < length cs" "i < length (cs ! k)" "length (cs ! k) \<le> 1023"
    and pos: "unat (f_pos fp) = length (concat (take k cs)) + i" and buf: "text_buffer buf"
    and d: "d = drop i (cs ! k)" and buf': "buf' = d @ drop (length d) buf"
  shows "\<exists>pos'. unat pos' = length (concat (take (Suc k) cs)) \<and>
    read_send_loop env fd buf fp srv =
      read_send_loop env fd buf' (fp\<lparr>f_pos := pos'\<rparr>) (send fd (takeWhile (\<lambda>c. c \<noteq> NUL) buf') srv)"
proof -
  let ?n = "length d"
  have inv: "mem_inv (device srv)" and v: "cmds (view_of (device srv)) = map (map Some) cs"
    using rep by (simp_all add: represents_def)
  have lens: "map (length \<circ> map Some) cs = map length cs" by simp
  have cut: "concat cs = concat (take k cs) @ cs ! k @ concat (drop (Suc k) cs)"
    by (metis k(1) concat.simps(2) concat_append id_take_nth_drop)
  have total: "length (concat cs) \<le> 10 * KMALLOC_MAX"
    using esizes_bound [OF inv] stored_length [OF inv] v by (simp add: length_concat comp_def)
  then have bound: "unat (f_pos fp) + ?n \<le> 10 * KMALLOC_MAX"
    using cut k pos d by (simp add: cut)
  have nonneg: "\<not> f_pos fp <s 0"
    using bound unfolding sless_zero_iff by simp
  note adv = pos_advance [OF nonneg bound]
  have "locate (map length (map (map Some) cs)) (unat (f_pos fp)) = Some (k, i)"
    using locate_at [of k "map length cs" i] k pos
    by (simp add: comp_def length_concat take_map)
  then have size: "read_size (map (map Some) cs) (unat (f_pos fp)) 1024 = ?n"
    using k by (simp add: read_size_def d)
  have content: "take ?n (drop (unat (f_pos fp)) (concat (map (map Some) cs))) = map Some d"
    unfolding map_concat [symmetric] pos cut using k by (simp add: d drop_map take_map)
  have ready: "read_ready (kernel env) (device srv) fp 1024 (f_pos fp)"
    using rep env nonneg by (simp add: read_ready_def represents_def good_env_def)
  have n: "?n \<noteq> 0" "?n \<le> 1023" using k d by simp_all
  have run: "aesd_read (kernel env) (device srv) (Some fp) (Some buffer_size) 1024 (Some (f_pos fp)) =
      Inr (word_of_nat ?n, map Some d, f_pos fp + word_of_nat ?n, device srv)"
    using aesd_read_step [OF ready refl, of buffer_size] n size content by (simp add: v)
  have "text_buffer buf'"
    unfolding buf' by (rule text_buffer_overlay [OF buf n(2)])
  then have len: "c_strlen buf' = Inr (length (takeWhile (\<lambda>c. c \<noteq> NUL) buf'))"
    by (rule text_buffer_strlen)
  have "read_send_loop env fd buf fp srv =
      read_send_loop env fd buf' (fp\<lparr>f_pos := f_pos fp + word_of_nat ?n\<rparr>)
        (send fd (takeWhile (\<lambda>c. c \<noteq> NUL) buf') srv)"
    using run adv(3,4) n len
    by (subst read_send_loop.simps) (simp add: Let_def buf' [symmetric] take_length_takeWhile)
  moreover have "unat (f_pos fp + word_of_nat ?n) = length (concat (take (Suc k) cs))"
    using adv(1) pos k d by (simp add: take_Suc_conv_app_nth)
  ultimately show ?thesis by blast
qed

lemma send_all: "send fd b (srv\<lparr>sent := sent srv @ map (Pair fd) bs\<rparr>) = srv\<lparr>sent := sent srv @ map (Pair fd) (bs @ [b])\<rparr>"
  by (simp add: send_def)

text \<open>At the end of the file the loop stops.\<close>

lemma read_send_end:
  assumes rep: "represents (device srv) (cs, p)" and env: "good_env (kernel env)" "private_data fp = Aesd_dev"
    and pos: "unat (f_pos fp) = length (concat cs)"
  shows "read_send_loop env fd buf fp srv = Some (Inr srv)"
proof -
  have inv: "mem_inv (device srv)" and v: "cmds (view_of (device srv)) = map (map Some) cs"
    using rep by (simp_all add: represents_def)
  have "length (concat cs) \<le> 10 * KMALLOC_MAX"
    using esizes_bound [OF inv] stored_length [OF inv] v by (simp add: length_concat comp_def)
  then have "\<not> f_pos fp <s 0"
    using pos unfolding sless_zero_iff by simp
  then have ready: "read_ready (kernel env) (device srv) fp 1024 (f_pos fp)"
    using rep env by (simp add: read_ready_def represents_def good_env_def)
  have "read_size (map (map Some) cs) (unat (f_pos fp)) 1024 = 0"
    using read_size_zero [of "map (map Some) cs" "unat (f_pos fp)" 1024] pos
    by (simp add: length_concat comp_def)
  then have "aesd_read (kernel env) (device srv) (Some fp) (Some buffer_size) 1024 (Some (f_pos fp)) =
      Inr (0, [], f_pos fp, device srv)"
    using aesd_read_step [OF ready refl, of buffer_size] by (simp add: v)
  then show ?thesis
    by (subst read_send_loop.simps) simp
qed

lemma represents_nonempty:
  assumes "represents s (cs, p)" "c \<in> set cs"
  shows "c \<noteq> []"
proof -
  have inv: "mem_inv s" and v: "map (cells_of (kheap s)) (dev_items s) = map (map Some) cs"
    using assms(1) by (simp_all add: represents_def view_of_def)
  have "map Some c \<in> set (map (cells_of (kheap s)) (dev_items s))"
    unfolding v using assms(2) by simp
  then obtain e where e: "e \<in> set (dev_items s)" "map Some c = cells_of (kheap s) e" by auto
  have ok: "entry_ok (kheap s) e" by (rule mem_inv_items [OF inv e(1)])
  then have "unat (esize e) \<noteq> 0" by (simp add: entry_ok_def unat_eq_zero)
  with entry_ok_cells [OF ok] e(2) show ?thesis by auto
qed

lemma send_sel [simp]:
  "device (send fd b srv) = device srv" "threads (send fd b srv) = threads srv"
  "file_mutex (send fd b srv) = file_mutex srv" "sent (send fd b srv) = sent srv @ [(fd, b)]"
  by (simp_all add: send_def)

lemma send_send: "(send fd b srv)\<lparr>sent := x\<rparr> = srv\<lparr>sent := x\<rparr>"
  by (simp add: send_def)

lemma read_send_rest:
  assumes "good_env (kernel env)" "\<forall>c \<in> set cs. length c \<le> 1023"
  shows "represents (device srv) (cs, p) \<Longrightarrow> private_data fp = Aesd_dev \<Longrightarrow> k \<le> length cs \<Longrightarrow>
    unat (f_pos fp) = length (concat (take k cs)) \<Longrightarrow> text_buffer buf \<Longrightarrow>
    read_send_loop env fd buf fp srv =
      Some (Inr (srv\<lparr>sent := sent srv @ map (Pair fd) (overlays buf (drop k cs))\<rparr>))"
proof (induction "length cs - k" arbitrary: k buf fp srv)
  case 0
  then have "k = length cs" by simp
  with read_send_end [OF "0.prems"(1) assms(1) "0.prems"(2)] "0.prems"(4) show ?case by simp
next
  case (Suc n)
  then have k: "k < length cs" by simp
  then have len: "length (cs ! k) \<le> 1023" and ne: "0 < length (cs ! k)"
    using assms(2) represents_nonempty [OF Suc.prems(1), of "cs ! k"] by auto
  let ?buf = "cs ! k @ drop (length (cs ! k)) buf"
  have pos: "unat (f_pos fp) = length (concat (take k cs)) + 0" using Suc.prems(4) by simp
  obtain pos' where step: "unat pos' = length (concat (take (Suc k) cs))"
      "read_send_loop env fd buf fp srv = read_send_loop env fd ?buf (fp\<lparr>f_pos := pos'\<rparr>)
         (send fd (takeWhile (\<lambda>c. c \<noteq> NUL) ?buf) srv)"
    using read_send_step [OF Suc.prems(1) assms(1) Suc.prems(2) k ne len pos Suc.prems(5) refl refl, of fd]
    by auto
  have "n = length cs - Suc k" using Suc.hyps(2) by simp
  then have "read_send_loop env fd ?buf (fp\<lparr>f_pos := pos'\<rparr>) (send fd (takeWhile (\<lambda>c. c \<noteq> NUL) ?buf) srv) =
      Some (Inr (srv\<lparr>sent := sent srv @ map (Pair fd)
        (takeWhile (\<lambda>c. c \<noteq> NUL) ?buf # overlays ?buf (drop (Suc k) cs))\<rparr>))"
    using Suc.hyps(1) [of "Suc k" "send fd (takeWhile (\<lambda>c. c \<noteq> NUL) ?buf) srv" "fp\<lparr>f_pos := pos'\<rparr>" ?buf]
      Suc.prems k step(1) text_buffer_overlay [OF Suc.prems(5) len]
    by (simp add: send_send)
  moreover have "drop k cs = cs ! k # drop (Suc k) cs"
    using k by (simp add: Cons_nth_drop_Suc)
  ultimately show ?case
    unfolding step(2) by (simp add: Let_def)
qed

text \<open>From the middle of a command.\<close>

lemma read_send_from:
  assumes "good_env (kernel env)" "\<forall>c \<in> set cs. length c \<le> 1023" "represents (device srv) (cs, p)"
    and "private_data fp = Aesd_dev" "k < length cs" "i < length (cs ! k)"
    and "unat (f_pos fp) = length (concat (take k cs)) + i" "text_buffer buf"
  shows "read_send_loop env fd buf fp srv =
    Some (Inr (srv\<lparr>sent := sent srv @ map (Pair fd) (overlays buf (drop i (cs ! k) # drop (Suc k) cs))\<rparr>))"
proof -
  let ?d = "drop i (cs ! k)"
  let ?buf = "?d @ drop (length ?d) buf"
  have len: "length (cs ! k) \<le> 1023" using assms(2,5) by simp
  obtain pos' where step: "unat pos' = length (concat (take (Suc k) cs))"
      "read_send_loop env fd buf fp srv = read_send_loop env fd ?buf (fp\<lparr>f_pos := pos'\<rparr>)
         (send fd (takeWhile (\<lambda>c. c \<noteq> NUL) ?buf) srv)"
    using read_send_step [OF assms(3,1,4-6) len assms(7,8) refl refl, of fd] by auto
  have "text_buffer ?buf"
    using len by (intro text_buffer_overlay [OF assms(8)]) simp
  then show ?thesis
    unfolding step(2)
    using read_send_rest [OF assms(1,2), of "send fd (takeWhile (\<lambda>c. c \<noteq> NUL) ?buf) srv" p
        "fp\<lparr>f_pos := pos'\<rparr>" "Suc k" ?buf fd] assms(3-5) step(1)
    by (simp add: send_send Let_def)
qed

section \<open>The command as a client prints it\<close>

fun decimal :: "nat \<Rightarrow> byte list" where
  "decimal n = (if n < 10 then [char_of (48 + n)] else decimal (n div 10) @ [char_of (48 + n mod 10)])"

declare decimal.simps [simp del]

definition seek_text :: "nat \<Rightarrow> nat \<Rightarrow> byte list" where
  "seek_text k i = ''AESDCHAR_IOCSEEKTO:'' @ decimal k @ '','' @ decimal i"

lemma of_char_digit: "k < 10 \<Longrightarrow> of_char (char_of (48 + k) :: char) = (48 + k :: nat)"
  by simp

lemma decimal_digits: "list_all is_digit (decimal n)"
proof (induction n rule: decimal.induct)
  case (1 n)
  have "is_digit (char_of (48 + k))" if "k < 10" for k :: nat
    using that of_char_digit [OF that] by (simp add: is_digit_def)
  then show ?case
    using 1 by (subst decimal.simps) auto
qed

lemma decimal_nonempty: "decimal n \<noteq> []"
  by (subst decimal.simps) simp

lemma number_snoc: "number (ds @ [c]) = 10 * number ds + (of_char c - 48)"
  by (simp add: number_def)

lemma number_decimal: "number (decimal n) = n"
proof (induction n rule: decimal.induct)
  case (1 n)
  show ?case
  proof (cases "n < 10")
    case True
    then have "decimal n = [] @ [char_of (48 + n)]" by (subst decimal.simps) simp
    then show ?thesis
      using of_char_digit [OF True] by (simp only: number_snoc) (simp add: number_def)
  next
    case False
    then have "decimal n = decimal (n div 10) @ [char_of (48 + n mod 10)]" by (subst decimal.simps) simp
    then show ?thesis
      using of_char_digit [of "n mod 10"] 1 False by (simp only: number_snoc) simp
  qed
qed

lemma digit_not_space: "is_digit c \<Longrightarrow> \<not> is_space c"
  by (auto simp: is_digit_def is_space_def)

lemma digit_not_sign: "is_digit c \<Longrightarrow> c \<noteq> CHR ''-'' \<and> c \<noteq> CHR ''+''"
  by (auto simp: is_digit_def)

lemma scan_u_decimal:
  assumes "n < 2 ^ 64" "rest = [] \<or> \<not> is_digit (hd rest)"
  shows "scan_u (decimal n @ rest) = Some (word_of_nat n, rest)"
proof -
  obtain c cs where dec: "decimal n = c # cs"
    using decimal_nonempty [of n] by (cases "decimal n") auto
  then have c: "is_digit c" using decimal_digits [of n] by simp
  have sign: "scan_sign (dropWhile is_space (decimal n @ rest)) = (False, decimal n @ rest)"
    using dec digit_not_space [OF c] digit_not_sign [OF c] by simp
  have digits: "\<forall>x \<in> set (decimal n). is_digit x"
    using decimal_digits [of n] by (simp add: list_all_iff)
  have "takeWhile is_digit rest = []" "dropWhile is_digit rest = rest"
    using assms(2) by (cases rest; simp)+
  then have "takeWhile is_digit (decimal n @ rest) = decimal n" "dropWhile is_digit (decimal n @ rest) = rest"
    using digits by (simp_all add: takeWhile_append2 dropWhile_append2)
  then show ?thesis
    using sign assms(1) decimal_nonempty [of n]
    by (simp add: scan_u_def number_decimal strtoul_def unsigned_of_nat take_bit_nat_eq_self)
qed

lemma scan_literal_append: "scan_literal lit (lit @ s) = Some s"
  by (simp add: scan_literal_def)

lemma sscanf_seek_text:
  assumes "k < 2 ^ 64" "i < 2 ^ 64" "rest = [] \<or> \<not> is_digit (hd rest)"
  shows "sscanf_seekto (seek_text k i @ rest) =
    Some \<lparr>write_cmd = word_of_nat k, write_cmd_offset = word_of_nat i\<rparr>"
proof -
  have "seek_text k i @ rest = ''AESDCHAR_IOCSEEKTO:'' @ (decimal k @ ('','' @ (decimal i @ rest)))"
    by (simp add: seek_text_def)
  moreover have "scan_u (decimal k @ ('','' @ (decimal i @ rest))) = Some (word_of_nat k, '','' @ (decimal i @ rest))"
    by (rule scan_u_decimal [OF assms(1)]) (simp add: is_digit_def)
  ultimately show ?thesis
    using scan_u_decimal [OF assms(2,3)] unfolding sscanf_seekto_def
    by (simp only: scan_literal_append Option.bind.simps case_prod_conv)
qed

section \<open>Sessions that get everything they ask for\<close>

definition session_ready :: "session_env \<Rightarrow> ptr \<Rightarrow> server \<Rightarrow> bool" where
  "session_ready env data srv \<longleftrightarrow>
     good_env (kernel env) \<and> file_lock_result env = 0 \<and> file_unlock_result env = 0 \<and>
     cmd_malloc env \<and> 0 \<le> open_fd env \<and> fopen_ok env \<and> file_mutex srv = Unlocked \<and>
     lock_result (pthreads env) = 0 \<and> unlock_result (pthreads env) = 0 \<and>
     list_mutex (threads srv) = Unlocked \<and> data \<noteq> NULL \<and> tdata (threads srv) data \<noteq> None"

text \<open>What carrying out a seek command needs of it.\<close>

definition device_ready :: "session_env \<Rightarrow> server \<Rightarrow> bool" where
  "device_ready env srv \<longleftrightarrow>
     good_env (kernel env) \<and> file_lock_result env = 0 \<and> file_unlock_result env = 0 \<and>
     cmd_malloc env \<and> 0 \<le> open_fd env \<and> file_mutex srv = Unlocked"

lemma session_device: "session_ready env data srv \<Longrightarrow> device_ready env srv"
  by (simp add: session_ready_def device_ready_def)

text \<open>\<open>client_thread_node\<close> is not the address of a node of the list.\<close>

definition node_unset :: "session_env \<Rightarrow> server \<Rightarrow> bool" where
  "node_unset env srv \<longleftrightarrow> (\<exists>ps. list_ok (threads srv) ps \<and> client_thread_node env \<notin> set ps)"

definition completed :: "ptr \<Rightarrow> bool \<Rightarrow> clients \<Rightarrow> clients" where
  "completed data ok c = (case tdata c data of None \<Rightarrow> c
     | Some td \<Rightarrow> c\<lparr>tdata := (tdata c)(data \<mapsto> td\<lparr>td_complete := ok\<rparr>)\<rparr>)"

lemma finish_unset:
  assumes "lock_result (pthreads env) = 0" "unlock_result (pthreads env) = 0"
    "list_mutex (threads srv) = Unlocked" "data \<noteq> 0" "tdata (threads srv) data \<noteq> None"
    and "node_unset env srv"
  shows "finish env data ok srv = Some (Inr (srv\<lparr>threads := completed data ok (threads srv)\<rparr>))"
proof -
  obtain ps where ps: "seg (node (threads srv)) (slh_first (threads srv)) ps 0" "client_thread_node env \<notin> set ps"
    using assms(6) by (auto simp: node_unset_def list_ok_def)
  obtain td where td: "tdata (threads srv) data = Some td" using assms(5) by blast
  let ?c = "(threads srv)\<lparr>tdata := (tdata (threads srv))(data \<mapsto> td\<lparr>td_complete := ok\<rparr>), list_mutex := Locked\<rparr>"
  have "mark_loop (client_thread_node env) True (slh_first (threads srv)) ?c = Some (Inr ?c)"
    using ps by (intro mark_loop_other [of _ _ ps]) simp_all
  then show ?thesis
    using assms(1-4) td
    by (cases srv, cases "threads srv")
      (simp add: finish_def get_tdata_live set_thread_complete_success_def lock_list_def unlock_list_def
        completed_def)
qed

lemma ioctl_result_position:
  assumes "n < 2 ^ 31"
  shows "ioctl_result (word_of_nat n) = int n"
proof -
  have "sint (word_of_nat n :: 64 word) = int n"
    using assms by (simp add: signed_of_nat signed_take_bit_int_eq_self)
  moreover have "sint (ucast (word_of_nat n :: 64 word) :: 32 word) = int n"
    using assms by (simp add: unsigned_of_nat take_bit_nat_eq_self signed_of_nat signed_take_bit_int_eq_self)
  ultimately show ?thesis by (simp add: ioctl_result_def)
qed

lemma handle_ioctl_replies:
  assumes ready: "device_ready env srv" and rep: "represents (device srv) (cs, p)"
    and small: "\<forall>c \<in> set cs. length c \<le> 1023" and k: "k < length cs" "i < length (cs ! k)"
    and cmd: "get_ioctl_command env buf = Inr (Some \<lparr>write_cmd = word_of_nat k, write_cmd_offset = word_of_nat i\<rparr>)"
  shows "handle_ioctl env fd buf srv =
    Some (Inr (int (length (concat (take k cs)) + i),
      srv\<lparr>sent := sent srv @ map (Pair fd)
        (overlays (replicate 1024 NUL) (drop i (cs ! k) # drop (Suc k) cs))\<rparr>))"
proof -
  let ?q = "length (concat (take k cs)) + i" and ?b = "c_buffer (aesd_device (device srv))"
  let ?a = "\<lparr>write_cmd = word_of_nat k, write_cmd_offset = word_of_nat i\<rparr>"
  let ?p = "word_of_nat ?q :: loff_t"
  have inv: "mem_inv (device srv)" and v: "cmds (view_of (device srv)) = map (map Some) cs"
    using rep by (simp_all add: represents_def)
  have items: "length (dev_items (device srv)) = length cs"
    using arg_cong [OF v, of length] by (simp add: view_of_def)
  have ten: "length cs \<le> 10"
    unfolding items [symmetric] using inv by (auto simp: mem_inv_def length_cb_items cb_inv_def)
  have uk: "unat (word_of_nat k :: uint32_t) = k" "unat (word_of_nat i :: uint32_t) = i"
    using k ten small nth_mem [OF k(1)] by (fastforce simp: unat_of_nat take_bit_nat_eq_self)+
  have seek: "seek_ready (kernel env) (device srv) opened_file"
    using ready rep by (simp add: seek_ready_def device_ready_def good_env_def represents_def)
  have out: "unat (out_offs ?b) + k \<le> 2 ^ 31"
    using k ten cb_inv_out [of ?b] inv by (simp add: mem_inv_def)
  have kd: "k < length (dev_items (device srv))" using k items by simp
  have base: "seek_base ?b k = length (concat (take k cs))" "unat (esize (seek_slot ?b k)) = length (cs ! k)"
    using seek_base_items [OF inv refl, of k] seek_slot_items [OF inv refl kd] kd k v
    by (simp_all add: take_map length_concat comp_def)
  have io: "aesd_ioctl (kernel env) (device srv) opened_file AESDCHAR_IOCSEEKTO (Some ?a) =
      Inr (?p, opened_file\<lparr>f_pos := ?p\<rparr>, device srv)"
    using aesd_ioctl_admitted [OF seek refl, of k ?a ?p] uk kd out base k(2) by simp
  have "length (concat (take k cs)) \<le> length (take k cs) * 1023"
    unfolding length_concat using small
    by (intro order_trans [OF sum_list_bound [of _ 1023]]) (auto dest: in_set_takeD)
  then have q: "?q < 2 ^ 31"
    using k ten small nth_mem [OF k(1)] by fastforce
  then have uq: "unat ?p = ?q" by (intro unat_of_nat64) simp
  have res: "ioctl_result ?p = int ?q"
    by (rule ioctl_result_position [OF q])
  have "read_send_loop env fd (replicate 1024 NUL) (opened_file\<lparr>f_pos := ?p\<rparr>) (srv\<lparr>file_mutex := Locked\<rparr>) =
      Some (Inr (srv\<lparr>file_mutex := Locked, sent := sent srv @ map (Pair fd)
        (overlays (replicate 1024 NUL) (drop i (cs ! k) # drop (Suc k) cs))\<rparr>))"
    using read_send_from [of env cs "srv\<lparr>file_mutex := Locked\<rparr>" p "opened_file\<lparr>f_pos := ?p\<rparr>" k i
        "replicate 1024 NUL" fd] ready rep small k uq text_buffer_zero
    by (simp add: device_ready_def)
  then show ?thesis
    using ready cmd io res
    by (cases srv) (simp add: handle_ioctl_def device_ready_def lock_file_def unlock_file_def Let_def)
qed

section \<open>Whole sessions\<close>

abbreviation seek_prefix :: "byte list" where "seek_prefix \<equiv> ''AESDCHAR_IOCSEEKTO''"

lemma recv_loop_first:
  "newline \<in> set d \<Longrightarrow> (\<forall>c \<in> set pre. newline \<notin> set c) \<Longrightarrow>
     snd (recv_loop buf (pre @ d # rest)) = Some d"
  by (induction pre arbitrary: buf) (simp_all add: Let_def)

lemma recv_loop_closed:
  "(\<forall>c \<in> set pre. newline \<notin> set c) \<Longrightarrow> snd (recv_loop buf pre) = None"
  by (induction pre arbitrary: buf) (simp_all add: Let_def)

lemma store_and_send_log:
  assumes ready: "session_ready env data srv" and unset: "node_unset env srv"
    and rep: "represents (device srv) (cs, p)" and d: "d \<noteq> []" "length p + length d \<le> 2 ^ 32"
    and no_nul: "NUL \<notin> set (concat (fst (log_write d (cs, p))))"
  shows "\<exists>s'. represents s' (log_write d (cs, p)) \<and>
    store_and_send env data fd d (srv\<lparr>file_mutex := Locked\<rparr>) =
      Some (Inr (srv\<lparr>threads := completed data True (threads srv), device := s',
                     sent := sent srv @ [(fd, concat (fst (log_write d (cs, p))))]\<rparr>))"
proof -
  let ?out = "concat (fst (log_write d (cs, p)))"
  have "dev_rep (kernel env, device srv) (cs, p)"
    using ready rep by (simp add: dev_rep_def session_ready_def)
  from store.put_then_contents [OF this d(1), of "fill env"] d(2)
  obtain y where y: "dev_put (kernel env, device srv) d = Inr (True, y)" "dev_rep y (log_write d (cs, p))"
      "dev_contents (fill env) y = Inr (Some ?out, y)"
    by auto
  let ?srv = "srv\<lparr>device := snd y, sent := sent srv @ [(fd, ?out)]\<rparr>"
  have "finish env data True ?srv = Some (Inr (?srv\<lparr>threads := completed data True (threads srv)\<rparr>))"
    using finish_unset [of env ?srv data True] ready unset
    by (simp add: session_ready_def node_unset_def)
  moreover have "send_lines (buffer_size - 1) ?out = ?out"
    using no_nul by (intro send_lines_all) simp_all
  ultimately have "store_and_send env data fd d (srv\<lparr>file_mutex := Locked\<rparr>) =
      Some (Inr (?srv\<lparr>threads := completed data True (threads srv)\<rparr>))"
    using y ready
    by (cases srv) (simp add: store_and_send_def Let_def send_def unlock_file_def session_ready_def)
  with y(2) show ?thesis
    by (intro exI [of _ "snd y"]) (simp add: dev_rep_def)
qed

lemma session_stores:
  assumes ready: "session_ready env data srv" and unset: "node_unset env srv"
    and buffer: "thread_buffer env = Some junk" and td: "tdata (threads srv) data = Some td"
    and rep: "represents (device srv) (cs, p)"
    and chunks: "newline \<in> set d" "\<forall>c \<in> set pre. newline \<notin> set c"
    and data_cmd: "take 18 (fst (recv_loop junk (pre @ d # rest))) \<noteq> seek_prefix"
    and room: "length p + length d \<le> 2 ^ 32"
    and no_nul: "NUL \<notin> set (concat (fst (log_write d (cs, p))))"
  shows "\<exists>s'. represents s' (log_write d (cs, p)) \<and>
    message_handler_thread env data (pre @ d # rest) srv =
      Some (Inr (srv\<lparr>threads := completed data True (threads srv), device := s',
                     sent := sent srv @ [(td_clientfd td, concat (fst (log_write d (cs, p))))]\<rparr>))"
proof -
  have d: "d \<noteq> []" using chunks(1) by auto
  from store_and_send_log [OF ready unset rep d room no_nul, of "td_clientfd td"]
  obtain s' where s': "represents s' (log_write d (cs, p))"
      "store_and_send env data (td_clientfd td) d (srv\<lparr>file_mutex := Locked\<rparr>) =
        Some (Inr (srv\<lparr>threads := completed data True (threads srv), device := s',
                     sent := sent srv @ [(td_clientfd td, concat (fst (log_write d (cs, p))))]\<rparr>))"
    by blast
  obtain buf where "recv_loop junk (pre @ d # rest) = (buf, Some d)"
    using recv_loop_first [OF chunks, of junk rest] by (metis prod.collapse)
  then have "message_handler_thread env data (pre @ d # rest) srv =
      store_and_send env data (td_clientfd td) d (srv\<lparr>file_mutex := Locked\<rparr>)"
    using ready buffer td data_cmd
    by (simp add: message_handler_thread_def session_ready_def lock_file_def get_tdata_live)
  with s' show ?thesis by auto
qed

text \<open>A seek command received in one chunk, in a buffer with a NUL behind it.\<close>

lemma seek_text_command:
  assumes "k < 2 ^ 64" "i < 2 ^ 64" "cmd_malloc env" "NUL \<in> set tail"
  shows "get_ioctl_command env (seek_text k i @ newline # tail) =
    Inr (Some \<lparr>write_cmd = word_of_nat k, write_cmd_offset = word_of_nat i\<rparr>)"
proof -
  let ?buf = "seek_text k i @ newline # tail"
  have digit: "NUL \<notin> set (decimal n)" for n
    using decimal_digits [of n] by (auto simp: list_all_iff is_digit_def)
  then have "takeWhile (\<lambda>c. c \<noteq> NUL) ?buf = seek_text k i @ newline # takeWhile (\<lambda>c. c \<noteq> NUL) tail"
    using digit [of k] digit [of i] by (subst takeWhile_append2) (auto simp: seek_text_def)
  moreover have "c_strlen ?buf = Inr (length (takeWhile (\<lambda>c. c \<noteq> NUL) ?buf))"
    using assms(4) by (simp add: c_strlen_def)
  ultimately show ?thesis
    using sscanf_seek_text [OF assms(1,2), of "newline # takeWhile (\<lambda>c. c \<noteq> NUL) tail"] assms(3)
      take_length_takeWhile [of "\<lambda>c. c \<noteq> NUL" ?buf]
    by (simp add: get_ioctl_command_def is_digit_def)
qed

lemma session_seeks:
  assumes ready: "session_ready env data srv" and unset: "node_unset env srv"
    and buffer: "thread_buffer env = Some junk" and td: "tdata (threads srv) data = Some td"
    and rep: "represents (device srv) (cs, p)" and small: "\<forall>c \<in> set cs. length c \<le> 1023"
    and k: "k < length cs" "i < length (cs ! k)"
    and chunk: "chunk = seek_text k i @ [newline]" "NUL \<in> set (drop (length chunk) junk)"
  shows "message_handler_thread env data (chunk # rest) srv =
    Some (Inr (srv\<lparr>threads := completed data (k = 0 \<and> i = 0) (threads srv),
      sent := sent srv @ map (Pair (td_clientfd td))
        (overlays (replicate 1024 NUL) (drop i (cs ! k) # drop (Suc k) cs))\<rparr>))"
proof -
  let ?buf = "chunk @ drop (length chunk) junk"
  let ?out = "map (Pair (td_clientfd td)) (overlays (replicate 1024 NUL) (drop i (cs ! k) # drop (Suc k) cs))"
  let ?srv = "srv\<lparr>sent := sent srv @ ?out\<rparr>"
  have ten: "length cs \<le> 10"
  proof -
    have inv: "mem_inv (device srv)" and v: "map (cells_of (kheap (device srv))) (dev_items (device srv)) = map (map Some) cs"
      using rep by (simp_all add: represents_def view_of_def)
    have "length cs = length (dev_items (device srv))"
      using arg_cong [OF v, of length] by simp
    then show ?thesis using inv by (auto simp: mem_inv_def length_cb_items cb_inv_def)
  qed
  have "get_ioctl_command env ?buf =
      Inr (Some \<lparr>write_cmd = word_of_nat k, write_cmd_offset = word_of_nat i\<rparr>)"
    using seek_text_command [of k i env "drop (length chunk) junk"] ready k ten small nth_mem [OF k(1)] chunk
    by (fastforce simp: session_ready_def)
  from handle_ioctl_replies [OF session_device [OF ready] rep small k this, of "td_clientfd td"]
  have io: "handle_ioctl env (td_clientfd td) ?buf srv = Some (Inr (int (length (concat (take k cs)) + i), ?srv))"
    by simp
  have "length (concat (take k cs)) + i = 0 \<longleftrightarrow> k = 0 \<and> i = 0"
    using represents_nonempty [OF rep] k by (cases cs; cases k) auto
  then have zero: "int (length (concat (take k cs)) + i) = 0 \<longleftrightarrow> k = 0 \<and> i = 0"
    by linarith
  have fin: "finish env data ok ?srv = Some (Inr (?srv\<lparr>threads := completed data ok (threads srv)\<rparr>))" for ok
    using finish_unset [of env ?srv data ok] ready unset
    by (simp add: session_ready_def node_unset_def)
  have "recv_loop junk (chunk # rest) = (?buf, Some chunk)" "take 18 ?buf = seek_prefix"
    by (simp_all add: chunk(1) seek_text_def)
  then show ?thesis
    using buffer td ready io fin [of "k = 0 \<and> i = 0"] zero
    by (cases srv) (simp add: message_handler_thread_def session_ready_def get_tdata_live)
qed

end
