(* ===== verification/Server_Properties.thy ===== *)
theory Server_Properties
  imports Server_Replies
begin

text \<open>
  The properties of a client session: storing and sending back, the seek command and its answer,
  and the exits that crash or block the server.
\<close>

section \<open>Inputs of the witnesses\<close>

definition sample_clients :: clients where
  "sample_clients = \<lparr>node = Map.empty, slh_first = NULL, list_mutex = Unlocked,
     tdata = [1 \<mapsto> \<lparr>td_complete = False, td_clientfd = 7\<rparr>], open_sockets = {7}\<rparr>"

definition sample_server :: "driver \<Rightarrow> server" where
  "sample_server s = \<lparr>threads = sample_clients, file_mutex = Unlocked, device = s, sent = [],
     device_file = True, listening = True\<rparr>"

definition sample_pthreads :: pthread_env where
  "sample_pthreads = \<lparr>lock_result = 0, unlock_result = 0, join_result = \<lambda>t. Some (0, t), stale_ptr = NULL\<rparr>"

definition sample_session :: session_env where
  "sample_session = \<lparr>thread_buffer = Some (replicate 1024 NUL), cmd_malloc = True, file_lock_result = 0,
     file_unlock_result = 0, fopen_ok = True, open_fd = 5, kernel = sample_env, fill = (\<lambda>i. NUL),
     client_thread_node = 99, pthreads = sample_pthreads\<rparr>"

lemma sample_session_ready: "session_ready sample_session 1 (sample_server s)"
  by (simp add: session_ready_def sample_session_def sample_server_def sample_clients_def
      sample_pthreads_def sample_good)

lemma sample_node_unset: "node_unset sample_session (sample_server s)"
  by (auto simp: node_unset_def list_ok_def sample_server_def sample_clients_def intro!: exI [of _ "[]"])

lemma sample_data: "tdata (threads (sample_server s)) 1 = Some \<lparr>td_complete = False, td_clientfd = 7\<rparr>"
  by (simp add: sample_server_def sample_clients_def)

lemma sample_buffer: "thread_buffer sample_session = Some (replicate 1024 NUL)"
  by (simp add: sample_session_def)

lemma sample_sel [simp]:
  "device (sample_server s) = s" "sent (sample_server s) = []" "file_mutex (sample_server s) = Unlocked"
  "threads (sample_server s) = sample_clients"
  by (simp_all add: sample_server_def)

definition hi_line :: "byte list" where "hi_line = ''hi'' @ [newline]"
definition hello_line :: "byte list" where "hello_line = ''hello'' @ [newline]"

section \<open>Sessions\<close>

text \<open>C14: A session stores the first chunk that holds a newline as one write to the device, drops
  the chunks it received before, sends the client the complete commands the device then holds, and
  ends with its data marked successful and the file mutex free.\<close>

theorem session_stores_the_chunk_with_the_newline:
  assumes "session_ready env data srv" and "node_unset env srv"
    and "thread_buffer env = Some junk" and "tdata (threads srv) data = Some td"
    and "represents (device srv) (cs, p)"
    and "newline \<in> set d" and "\<forall>c \<in> set pre. newline \<notin> set c"
    and "take 18 (fst (recv_loop junk (pre @ d # rest))) \<noteq> ''AESDCHAR_IOCSEEKTO''"
    and "length p + length d \<le> 2 ^ 32"
    and "NUL \<notin> set (concat (fst (log_write d (cs, p))))"
  shows "\<exists>s'. represents s' (log_write d (cs, p)) \<and>
    message_handler_thread env data (pre @ d # rest) srv =
      Some (Inr (srv\<lparr>threads := completed data True (threads srv), device := s',
                     sent := sent srv @ [(td_clientfd td, concat (fst (log_write d (cs, p))))]\<rparr>))"
  by (rule session_stores [OF assms])

theorem session_stores_the_chunk_with_the_newline_witness:
  "\<exists>srv'. message_handler_thread sample_session 1 [''lost'', hi_line] (sample_server fresh_driver) = Some (Inr srv') \<and>
     represents (device srv') ([hi_line], []) \<and> sent srv' = [(7, hi_line)]"
proof -
  have head: "take 18 (fst (recv_loop (replicate 1024 NUL) ([''lost''] @ hi_line # []))) \<noteq> ''AESDCHAR_IOCSEEKTO''"
    by (simp add: hi_line_def Let_def numeral_eq_Suc)
  from session_stores_the_chunk_with_the_newline [OF sample_session_ready sample_node_unset sample_buffer
      sample_data _ _ _ head, of fresh_driver "[]" "[]"] fresh_represents
  show ?thesis by (fastforce simp: hi_line_def keep_last_def)
qed

text \<open>C37: A client that closes the connection before a newline arrived makes the session use the
  stream it never opened: the thread dereferences NULL.\<close>

theorem session_without_newline_crashes:
  assumes "thread_buffer env = Some junk" and "data \<noteq> NULL" and "tdata (threads srv) data = Some td"
    and "\<forall>c \<in> set chunks. newline \<notin> set c"
  shows "message_handler_thread env data chunks srv = Some (Inl NullDeref)"
proof -
  obtain buf where "recv_loop junk chunks = (buf, None)"
    using recv_loop_closed [OF assms(4), of junk] by (metis prod.collapse)
  with assms(1-3) show ?thesis
    by (simp add: message_handler_thread_def get_tdata_live)
qed

theorem session_without_newline_crashes_witness:
  "message_handler_thread sample_session 1 [''hi''] (sample_server fresh_driver) = Some (Inl NullDeref)"
  using session_without_newline_crashes [OF sample_buffer _ sample_data, of "[''hi'']" fresh_driver] by simp

text \<open>What a client prints as a seek command is parsed back to the same two numbers, cut to 32
  bits, whatever follows that is not a digit.\<close>

theorem seek_text_parses_back:
  assumes "k < 2 ^ 64" and "i < 2 ^ 64" and "rest = [] \<or> \<not> is_digit (hd rest)"
  shows "sscanf_seekto (seek_text k i @ rest) =
    Some \<lparr>write_cmd = word_of_nat k, write_cmd_offset = word_of_nat i\<rparr>"
  by (rule sscanf_seek_text [OF assms])

theorem seek_text_parses_back_witness:
  "sscanf_seekto (seek_text 4294967298 10 @ [newline]) = Some \<lparr>write_cmd = 2, write_cmd_offset = 10\<rparr>"
proof -
  have "(word_of_nat 4294967298 :: uint32_t) = 2" by simp
  then show ?thesis
    using seek_text_parses_back [of 4294967298 10 "[newline]"] by (simp add: is_digit_def)
qed

text \<open>C21: A seek command that names a stored command and a byte of it is carried out and the
  device's commands from there on are sent, each one laid over what the buffer held before; the
  session then counts as failed unless the position was 0, because the position is taken for an
  error number.\<close>

theorem seek_session_replies:
  assumes "session_ready env data srv" and "node_unset env srv"
    and "thread_buffer env = Some junk" and "tdata (threads srv) data = Some td"
    and "represents (device srv) (cs, p)" and "\<forall>c \<in> set cs. length c \<le> 1023"
    and "k < length cs" "i < length (cs ! k)"
    and "chunk = seek_text k i @ [newline]" "NUL \<in> set (drop (length chunk) junk)"
  shows "message_handler_thread env data (chunk # rest) srv =
    Some (Inr (srv\<lparr>threads := completed data (k = 0 \<and> i = 0) (threads srv),
      sent := sent srv @ map (Pair (td_clientfd td))
        (overlays (replicate 1024 NUL) (drop i (cs ! k) # drop (Suc k) cs))\<rparr>))"
  by (rule session_seeks [OF assms])

lemma device_with_lines:
  assumes "list_all is_line ds" "length (concat ds) \<le> 2 ^ 32" "length ds \<le> 10"
  shows "\<exists>s. represents s (ds, [])"
proof -
  have ne: "[] \<notin> set ds" using assms(1) by (auto simp: list_all_iff is_line_def)
  show ?thesis
    using write_all_log [OF sample_good, of opened_file fresh_driver "([], [])" ds] fresh_represents ne assms
      log_write_lines [OF assms(1), of "[]"]
    by (auto simp: keep_last_short)
qed

lemma sample_lines: "list_all is_line [hi_line, hello_line, hi_line]"
  by (simp add: is_line_def hi_line_def hello_line_def)

theorem seek_session_replies_witness:
  "\<exists>s srv'. represents s ([hi_line, hello_line], []) \<and>
     message_handler_thread sample_session 1 [seek_text 1 2 @ [newline]] (sample_server s) = Some (Inr srv') \<and>
     sent srv' = [(7, ''llo'' @ [newline])] \<and> threads srv' = completed 1 False sample_clients"
proof -
  obtain s where s: "represents s ([hi_line, hello_line], [])"
    using device_with_lines [of "[hi_line, hello_line]"] sample_lines
    by (auto simp: hi_line_def hello_line_def)
  have "length (decimal 1) = 1" "length (decimal 2) = 1"
    by (simp_all add: decimal.simps)
  then have len: "length (seek_text 1 2 @ [newline]) = 23" by (simp add: seek_text_def)
  have nul: "NUL \<in> set (drop (length (seek_text 1 2 @ [newline])) (replicate 1024 NUL))"
    by (simp only: len) simp
  have small: "\<forall>c \<in> set [hi_line, hello_line]. length c \<le> 1023"
    by (simp add: hi_line_def hello_line_def)
  have rep: "represents (device (sample_server s)) ([hi_line, hello_line], [])" using s by simp
  from s seek_session_replies [OF sample_session_ready sample_node_unset sample_buffer sample_data rep small _ _ refl nul]
  show ?thesis
    by (fastforce simp: hello_line_def Let_def)
qed

text \<open>C35: Asking for two commands of which the second is shorter gets the second with the tail of the
  first behind it: bytes that are not in the file at that place.\<close>

theorem seek_session_repeats_old_bytes:
  assumes "session_ready env data srv" and "node_unset env srv"
    and "thread_buffer env = Some junk" and "tdata (threads srv) data = Some td"
    and "represents (device srv) ([c1, c2], p)" and "length c2 < length c1" "length c1 \<le> 1023"
    and "NUL \<notin> set (c1 @ c2)"
    and "chunk = seek_text 0 0 @ [newline]" "NUL \<in> set (drop (length chunk) junk)"
  shows "\<exists>srv'. message_handler_thread env data [chunk] srv = Some (Inr srv') \<and>
    sent srv' = sent srv @ [(td_clientfd td, c1), (td_clientfd td, c2 @ drop (length c2) c1)]"
proof -
  let ?z = "replicate 1024 NUL"
  have ne: "c1 \<noteq> []" using assms(6) by auto
  have nul: "\<forall>c \<in> set c1. c \<noteq> NUL" "\<forall>c \<in> set c2. c \<noteq> NUL" "\<forall>c \<in> set (drop (length c2) c1). c \<noteq> NUL"
    using assms(8) by (auto dest: in_set_dropD)
  have tail: "takeWhile (\<lambda>c. c \<noteq> NUL) (replicate (1024 - length c1) NUL) = []"
    by (simp add: takeWhile_eq_Nil_iff)
  have "overlays ?z [c1, c2] = [c1, c2 @ drop (length c2) c1]"
    using assms(6) nul tail by (simp add: Let_def takeWhile_append2)
  then show ?thesis
    using session_seeks [OF assms(1-5) _ _ _ assms(9,10), of "[]"] assms(6,7) ne
    by (auto simp: word_unat_eq_iff)
qed

theorem seek_session_repeats_old_bytes_witness:
  "\<exists>s srv'. represents s ([hello_line, hi_line], []) \<and>
     message_handler_thread sample_session 1 [seek_text 0 0 @ [newline]] (sample_server s) = Some (Inr srv') \<and>
     received_by 7 srv' = hello_line @ hi_line @ ''lo'' @ [newline]"
proof -
  obtain s where s: "represents s ([hello_line, hi_line], [])"
    using device_with_lines [of "[hello_line, hi_line]"] sample_lines
    by (auto simp: hi_line_def hello_line_def)
  have "length (decimal 0) = 1" by (simp add: decimal.simps)
  then have len: "length (seek_text 0 0 @ [newline]) = 23" by (simp add: seek_text_def)
  have nul: "NUL \<in> set (drop (length (seek_text 0 0 @ [newline])) (replicate 1024 NUL))"
    by (simp only: len) simp
  have rep: "represents (device (sample_server s)) ([hello_line, hi_line], [])" using s by simp
  from s seek_session_repeats_old_bytes [OF sample_session_ready sample_node_unset sample_buffer sample_data rep
      _ _ _ refl nul]
  show ?thesis
    by (fastforce simp: hello_line_def hi_line_def received_by_def)
qed

text \<open>While no command is shorter than the one before, the answer is exact.\<close>

lemma overlays_growing:
  "sorted (map length ds) \<Longrightarrow> \<forall>d \<in> set ds. NUL \<notin> set d \<and> length d \<le> 1023 \<Longrightarrow>
   (\<forall>d \<in> set ds. length w \<le> length d) \<Longrightarrow> length w \<le> 1023 \<Longrightarrow>
     overlays (w @ replicate (1024 - length w) NUL) ds = ds"
proof (induction ds arbitrary: w)
  case (Cons d ds)
  have d: "\<forall>c \<in> set d. c \<noteq> NUL" using Cons.prems(2) by auto
  have "takeWhile (\<lambda>c. c \<noteq> NUL) (replicate (1024 - length d) NUL) = []"
    by (simp add: takeWhile_eq_Nil_iff)
  then have "takeWhile (\<lambda>c. c \<noteq> NUL) (d @ replicate (1024 - length d) NUL) = d"
    using d by (simp add: takeWhile_append2)
  moreover have "drop (length d) (w @ replicate (1024 - length w) NUL) = replicate (1024 - length d) NUL"
    using Cons.prems(3) by simp
  ultimately show ?case
    using Cons by (simp add: Let_def)
qed simp

text \<open>C22: When none of the commands from the seek position on is shorter than the one before it, the
  client receives exactly the bytes of the file from that position on.\<close>

theorem seek_session_exact_for_growing_commands:
  assumes "session_ready env data srv" and "node_unset env srv"
    and "thread_buffer env = Some junk" and "tdata (threads srv) data = Some td"
    and "represents (device srv) (cs, p)" and "\<forall>c \<in> set cs. length c \<le> 1023 \<and> NUL \<notin> set c"
    and "k < length cs" "i < length (cs ! k)" "sorted (map length (drop k cs))"
    and "chunk = seek_text k i @ [newline]" "NUL \<in> set (drop (length chunk) junk)"
  shows "\<exists>srv'. message_handler_thread env data [chunk] srv = Some (Inr srv') \<and>
    received_by (td_clientfd td) srv' =
      received_by (td_clientfd td) srv @ drop (length (concat (take k cs)) + i) (concat cs)"
proof -
  let ?ds = "drop i (cs ! k) # drop (Suc k) cs" and ?fd = "td_clientfd td"
  have cut: "drop k cs = cs ! k # drop (Suc k) cs"
    using assms(7) by (simp add: Cons_nth_drop_Suc)
  have "concat cs = concat (take k cs) @ cs ! k @ concat (drop (Suc k) cs)"
    by (metis assms(7) concat.simps(2) concat_append id_take_nth_drop)
  then have out: "concat ?ds = drop (length (concat (take k cs)) + i) (concat cs)"
    using assms(8) by simp
  have mem: "set ?ds \<subseteq> insert (drop i (cs ! k)) (set cs)"
    by (auto dest: in_set_dropD)
  have one: "length (drop i (cs ! k)) \<le> 1023 \<and> NUL \<notin> set (drop i (cs ! k))"
    using assms(6) nth_mem [OF assms(7)] by (auto dest: in_set_dropD)
  have "overlays ([] @ replicate (1024 - length ([] :: byte list)) NUL) ?ds = ?ds"
  proof (rule overlays_growing [of ?ds "[]"])
    show "sorted (map length ?ds)"
      using assms(9) unfolding cut by auto
    show "\<forall>d \<in> set ?ds. NUL \<notin> set d \<and> length d \<le> 1023"
      using assms(6) one mem by blast
  qed simp_all
  then have "message_handler_thread env data [chunk] srv =
    Some (Inr (srv\<lparr>threads := completed data (k = 0 \<and> i = 0) (threads srv),
      sent := sent srv @ map (Pair ?fd) ?ds\<rparr>))"
    using session_seeks [OF assms(1-5) _ assms(7,8,10,11), of "[]"] assms(6) by simp
  moreover have "concat (map snd (filter (\<lambda>(j, bs). j = fd) (map (Pair fd) ds))) = concat ds"
    for fd :: int and ds :: "byte list list"
    by (induction ds) auto
  ultimately show ?thesis
    unfolding out [symmetric] by (intro exI conjI) (assumption, simp add: received_by_def del: concat.simps list.map)
qed

theorem seek_session_exact_for_growing_commands_witness:
  "\<exists>s srv'. represents s ([hi_line, hello_line], []) \<and>
     message_handler_thread sample_session 1 [seek_text 0 1 @ [newline]] (sample_server s) = Some (Inr srv') \<and>
     received_by 7 srv' = ''i'' @ newline # hello_line"
proof -
  obtain s where s: "represents s ([hi_line, hello_line], [])"
    using device_with_lines [of "[hi_line, hello_line]"] sample_lines
    by (auto simp: hi_line_def hello_line_def)
  have rep: "represents (device (sample_server s)) ([hi_line, hello_line], [])" using s by simp
  have small: "\<forall>c \<in> set [hi_line, hello_line]. length c \<le> 1023 \<and> NUL \<notin> set c"
    by (simp add: hi_line_def hello_line_def)
  have "length (decimal 0) = 1" "length (decimal 1) = 1" by (simp_all add: decimal.simps)
  then have len: "length (seek_text 0 1 @ [newline]) = 23" by (simp add: seek_text_def)
  have nul: "NUL \<in> set (drop (length (seek_text 0 1 @ [newline])) (replicate 1024 NUL))"
    by (simp only: len) simp
  from s seek_session_exact_for_growing_commands [OF sample_session_ready sample_node_unset sample_buffer
      sample_data rep small _ _ _ refl nul]
  show ?thesis
    by (fastforce simp: hello_line_def hi_line_def received_by_def)
qed

text \<open>C36: When the device cannot be opened for a seek command or refuses it, the session keeps the
  file mutex: every later session that has a line to store waits for good.\<close>

theorem failed_seek_session_blocks_the_others:
  assumes "file_lock_result env = 0" and "file_mutex srv = Unlocked"
    and "get_ioctl_command env buf = Inr (Some cmd)"
    and "open_fd env < 0 \<or> aesd_ioctl (kernel env) (device srv) opened_file AESDCHAR_IOCSEEKTO (Some cmd) =
      Inr (r, fp, d) \<and> ioctl_result r < 0"
  shows "\<exists>ret srv'. handle_ioctl env fd buf srv = Some (Inr (ret, srv')) \<and> ret \<noteq> 0 \<and>
    threads srv' = threads srv \<and>
    (\<forall>env' data' td' junk' chunk rest. thread_buffer env' = Some junk' \<and> data' \<noteq> NULL \<and>
       tdata (threads srv') data' = Some td' \<and> newline \<in> set chunk \<and>
       take 18 (chunk @ drop (length chunk) junk') \<noteq> ''AESDCHAR_IOCSEEKTO'' \<and> file_lock_result env' = 0 \<longrightarrow>
       message_handler_thread env' data' (chunk # rest) srv' = Some (Inl Deadlock))"
proof -
  have "\<exists>ret srv'. handle_ioctl env fd buf srv = Some (Inr (ret, srv')) \<and> ret \<noteq> 0 \<and>
      threads srv' = threads srv \<and> file_mutex srv' = Locked"
    using assms by (auto simp: handle_ioctl_def lock_file_def Let_def)
  moreover have "message_handler_thread env' data' (chunk # rest) srv' = Some (Inl Deadlock)"
    if "file_mutex srv' = Locked" "thread_buffer env' = Some junk'" "data' \<noteq> NULL"
      "tdata (threads srv') data' = Some td'" "newline \<in> set chunk"
      "take 18 (chunk @ drop (length chunk) junk') \<noteq> ''AESDCHAR_IOCSEEKTO''" "file_lock_result env' = 0"
    for srv' env' data' td' junk' chunk rest
    using that by (simp add: message_handler_thread_def lock_file_def get_tdata_live)
  ultimately show ?thesis by metis
qed

theorem failed_seek_session_blocks_the_others_witness:
  "\<exists>ret srv'. handle_ioctl sample_session 7 (seek_text 3 0 @ newline # [NUL]) (sample_server fresh_driver) =
     Some (Inr (ret, srv')) \<and> ret \<noteq> 0 \<and>
     message_handler_thread sample_session 1 [hi_line] srv' = Some (Inl Deadlock)"
proof -
  let ?srv = "sample_server fresh_driver" and ?a = "\<lparr>write_cmd = word_of_nat 3, write_cmd_offset = word_of_nat 0\<rparr>"
  have cmd: "get_ioctl_command sample_session (seek_text 3 0 @ newline # [NUL]) = Inr (Some ?a)"
    by (rule seek_text_command) (simp_all add: sample_session_def)
  have "aesd_ioctl sample_env fresh_driver opened_file AESDCHAR_IOCSEEKTO (Some ?a) =
      Inr (- EINVAL, opened_file, fresh_driver)"
    using fresh_mem_inv cb.items_empty sample_good
    by (intro aesd_ioctl_rejected)
      (simp_all add: seek_ready_def good_env_def, simp_all add: fresh_driver_def zero_dev_def empty_buffer_def)
  moreover have "ioctl_result (- EINVAL) < 0"
    by (simp add: ioctl_result_def EINVAL_def)
  ultimately obtain ret srv' where r: "handle_ioctl sample_session 7 (seek_text 3 0 @ newline # [NUL]) ?srv =
      Some (Inr (ret, srv'))" "ret \<noteq> 0" "threads srv' = threads ?srv"
    and later: "\<And>env' data' td' junk' chunk rest. thread_buffer env' = Some junk' \<Longrightarrow> data' \<noteq> NULL \<Longrightarrow>
       tdata (threads srv') data' = Some td' \<Longrightarrow> newline \<in> set chunk \<Longrightarrow>
       take 18 (chunk @ drop (length chunk) junk') \<noteq> ''AESDCHAR_IOCSEEKTO'' \<Longrightarrow> file_lock_result env' = 0 \<Longrightarrow>
       message_handler_thread env' data' (chunk # rest) srv' = Some (Inl Deadlock)"
    using failed_seek_session_blocks_the_others [OF _ _ cmd, of ?srv "- EINVAL" opened_file fresh_driver 7]
    by (auto simp: sample_session_def)
  have "message_handler_thread sample_session 1 [hi_line] srv' = Some (Inl Deadlock)"
    by (rule later [OF sample_buffer, of 1 "\<lparr>td_complete = False, td_clientfd = 7\<rparr>"])
      (simp_all add: r(3) sample_clients_def hi_line_def sample_session_def numeral_eq_Suc)
  with r show ?thesis by blast
qed

end
