(* ===== verification/Server_Clients.thy ===== *)
theory Server_Clients
  imports Server_Properties
begin

text \<open>
  Sessions that follow each other on one server: what each client is sent when every client
  stores one line, by induction on the sessions from the result of a single one.
\<close>

section \<open>Clients one after the other\<close>

text \<open>Sessions that run to their end in turn, each with the line its client sends.\<close>

fun serve :: "session_env \<Rightarrow> (ptr \<times> byte list) list \<Rightarrow> server \<Rightarrow> server cres option" where
  "serve env [] sv = Some (Inr sv)"
| "serve env ((data, line) # xs) sv =
     (case message_handler_thread env data [line] sv of
        None \<Rightarrow> None
      | Some (Inl t) \<Rightarrow> Some (Inl t)
      | Some (Inr sv') \<Rightarrow> serve env xs sv')"

text \<open>The socket of a client, from its thread's data.\<close>

definition socket_of :: "server \<Rightarrow> ptr \<Rightarrow> int" where
  "socket_of sv data = (case tdata (threads sv) data of None \<Rightarrow> -1 | Some td \<Rightarrow> td_clientfd td)"

lemma completed_sel [simp]:
  "node (completed data ok c) = node c" "slh_first (completed data ok c) = slh_first c"
  "list_mutex (completed data ok c) = list_mutex c" "dom (tdata (completed data ok c)) = dom (tdata c)"
  by (auto simp: completed_def split: option.splits)

lemma completed_data: "tdata (completed data ok c) x = None \<longleftrightarrow> tdata c x = None"
  by (auto simp: completed_def split: option.splits)

lemma socket_of_completed:
  "threads sv' = completed data ok (threads sv) \<Longrightarrow> socket_of sv' = socket_of sv"
  by (auto simp: socket_of_def completed_def fun_eq_iff split: option.splits)

lemma not_seek_prefix:
  assumes "is_line d" "take 18 d \<noteq> seek_prefix"
  shows "take 18 (d @ drop (length d) junk) \<noteq> seek_prefix"
proof (cases "18 \<le> length d")
  case True
  with assms(2) show ?thesis by simp
next
  case False
  then have "newline \<in> set (take 18 (d @ drop (length d) junk))"
    using assms(1) last_in_set [of d] by (simp add: is_line_def)
  moreover have "newline \<notin> set seek_prefix" by simp
  ultimately show ?thesis by metis
qed

lemma serve_lines:
  assumes "thread_buffer env = Some junk"
  shows "\<forall>(data, d) \<in> set xs. session_ready env data sv \<and> is_line d \<and> take 18 d \<noteq> seek_prefix \<and>
      NUL \<notin> set d \<and> length d \<le> 1024 \<Longrightarrow>
    node_unset env sv \<Longrightarrow> represents (device sv) (cs, []) \<Longrightarrow> length cs \<le> 10 \<Longrightarrow> NUL \<notin> set (concat cs) \<Longrightarrow>
    \<exists>sv'. serve env xs sv = Some (Inr sv') \<and>
      represents (device sv') (keep_last 10 (cs @ map snd xs), []) \<and>
      sent sv' = sent sv @ map (\<lambda>i. (socket_of sv (fst (xs ! i)),
        concat (keep_last 10 (cs @ map snd (take (Suc i) xs))))) [0..<length xs]"
proof (induction xs arbitrary: sv cs)
  case Nil
  then show ?case by (simp add: keep_last_short)
next
  case (Cons x xs)
  obtain data d where x: "x = (data, d)" by (cases x)
  have ready: "session_ready env data sv" and line: "is_line d" and prefix: "take 18 d \<noteq> seek_prefix"
    and d: "NUL \<notin> set d" "length d \<le> 1024"
    using Cons.prems(1) by (auto simp: x)
  obtain td where td: "tdata (threads sv) data = Some td"
    using ready by (auto simp: session_ready_def)
  let ?cs = "keep_last 10 (cs @ [d])"
  have out: "log_write d (cs, []) = (?cs, [])"
    using log_write_line [OF line, of cs "[]"] by simp
  have sub: "set ?cs \<subseteq> insert d (set cs)"
    using set_keep_last [of 10 "cs @ [d]"] by auto
  have no_nul: "NUL \<notin> set (concat ?cs)"
    using Cons.prems(5) d(1) sub by auto
  have head: "take 18 (fst (recv_loop junk ([] @ d # []))) \<noteq> seek_prefix"
    using not_seek_prefix [OF line prefix, of junk] line last_in_set [of d]
    by (simp add: Let_def is_line_def)
  have "newline \<in> set d" using line last_in_set [of d] by (simp add: is_line_def)
  from session_stores [OF ready Cons.prems(2) assms td Cons.prems(3) this _ head] d(2) out no_nul
  obtain s' where s': "represents s' (?cs, [])"
      "message_handler_thread env data [d] sv = Some (Inr (sv\<lparr>threads := completed data True (threads sv),
         device := s', sent := sent sv @ [(td_clientfd td, concat ?cs)]\<rparr>))"
    by auto
  let ?sv = "sv\<lparr>threads := completed data True (threads sv), device := s',
         sent := sent sv @ [(td_clientfd td, concat ?cs)]\<rparr>"
  have sock: "socket_of ?sv = socket_of sv" "td_clientfd td = socket_of sv data"
    by (rule socket_of_completed [of _ data True], simp) (simp add: socket_of_def td)
  have "\<exists>sv'. serve env xs ?sv = Some (Inr sv') \<and>
      represents (device sv') (keep_last 10 (?cs @ map snd xs), []) \<and>
      sent sv' = sent ?sv @ map (\<lambda>i. (socket_of ?sv (fst (xs ! i)),
        concat (keep_last 10 (?cs @ map snd (take (Suc i) xs))))) [0..<length xs]"
  proof (rule Cons.IH)
    show "\<forall>(data, d) \<in> set xs. session_ready env data ?sv \<and> is_line d \<and> take 18 d \<noteq> seek_prefix \<and>
      NUL \<notin> set d \<and> length d \<le> 1024"
      using Cons.prems(1) by (fastforce simp: session_ready_def completed_data)
    show "node_unset env ?sv"
      using Cons.prems(2) by (simp add: node_unset_def list_ok_def)
  qed (use s'(1) no_nul in simp_all)
  then obtain sv' where "serve env xs ?sv = Some (Inr sv')"
      "represents (device sv') (keep_last 10 (cs @ d # map snd xs), [])"
      "sent sv' = sent ?sv @ map (\<lambda>i. (socket_of sv (fst (xs ! i)),
        concat (keep_last 10 (cs @ d # map snd (take (Suc i) xs))))) [0..<length xs]"
    unfolding sock(1) keep_last_absorb by auto
  moreover have "[0..<length (x # xs)] = 0 # map Suc [0..<length xs]"
    by (metis length_Cons map_Suc_upt upt_conv_Cons zero_less_Suc)
  ultimately show ?case
    using s'(2) sock(2) by (intro exI [of _ sv']) (simp add: x comp_def)
qed

end
