(* ===== verification/Server_Loop.thy ===== *)
theory Server_Loop
  imports Server_Main
begin

text \<open>
  The accept loop and the end of the server: the invariant of the loop while clients are accepted,
  the end of the loop by a signal, and what \<open>cleanup\<close> then releases.
\<close>

section \<open>The whole list\<close>

lemma check_completed_none:
  assumes "list_ok c ps" "list_mutex c = Unlocked" "lock_result env = 0" "unlock_result env = 0"
    and "\<forall>p \<in> set ps. \<forall>n. node c p = Some n \<longrightarrow> \<not> node_complete n"
  shows "check_completed_threads env c = Some (Inr c)"
proof -
  have "check_loop env (slh_first c) (c\<lparr>list_mutex := Locked\<rparr>) = Some (Inr (c\<lparr>list_mutex := Locked\<rparr>))"
    using assms by (intro check_loop_none [of _ _ ps]) (auto simp: list_ok_def)
  with assms(2-4) show ?thesis
    by (cases c) (simp add: check_completed_threads_def lock_list_def unlock_list_def)
qed

lemma joined_locked [simp]: "joined env (c\<lparr>list_mutex := m\<rparr>) = joined env c"
  by (simp add: joined_def fun_eq_iff)

lemma joins_ok_locked [simp]: "joins_ok env (c\<lparr>list_mutex := m\<rparr>) ps = joins_ok env c ps"
  by (simp add: joins_ok_def)

lemma client_fd_locked [simp]: "client_fd env (c\<lparr>list_mutex := m\<rparr>) = client_fd env c"
  by (simp add: client_fd_def fun_eq_iff)

lemma list_ok_locked [simp]: "list_ok (c\<lparr>list_mutex := m\<rparr>) ps = list_ok c ps"
  by (simp add: list_ok_def)

lemma check_completed_some:
  assumes "list_ok c ps" "joins_ok env c ps" "list_mutex c = Unlocked" "lock_result env = 0"
    and "\<exists>p \<in> set ps. \<exists>n. node c p = Some n \<and> node_complete n"
  shows "check_completed_threads env c = Some (Inl UseAfterFree)"
proof -
  let ?P = "\<lambda>p. \<exists>n. node c p = Some n \<and> node_complete n"
  obtain xs x ys where ps: "ps = xs @ x # ys" "?P x" "\<forall>q \<in> set xs. \<not> ?P q"
    using split_list_first_prop [of ps ?P] assms(5) by auto
  obtain n where n: "node c x = Some n" "node_complete n" using ps(2) by blast
  have "check_loop env (slh_first c) (c\<lparr>list_mutex := Locked\<rparr>) = Some (Inl UseAfterFree)"
    using assms(1,2) ps n
    by (intro check_loop_completed [of _ "[]" xs x ys]) (auto simp: list_ok_def)
  with assms(3,4) show ?thesis
    by (simp add: check_completed_threads_def lock_list_def)
qed

lemma clean_threads_all:
  assumes "list_ok c ps" "joins_ok env c ps" "list_mutex c = Unlocked" "lock_result env = 0" "unlock_result env = 0"
  shows "\<exists>c'. clean_threads env c = Some (Inr c') \<and> SLIST_EMPTY c' \<and> list_mutex c' = Unlocked \<and>
    tdata c' = tdata c |` (- joined env c ` set ps) \<and>
    open_sockets c' = open_sockets c - client_fd env c ` set ps \<and> dom (node c') \<subseteq> dom (node c) - set ps"
proof -
  obtain c' where c': "clean_loop env (c\<lparr>list_mutex := Locked\<rparr>) = Some (Inr c')" "list_ok c' []"
      "tdata c' = tdata c |` (- joined env c ` set ps)"
      "open_sockets c' = open_sockets c - client_fd env c ` set ps" "dom (node c') \<subseteq> dom (node c) - set ps"
    using clean_loop_all [of "c\<lparr>list_mutex := Locked\<rparr>" ps env] assms(1,2) by auto
  with assms(3-5) show ?thesis
    by (intro exI [of _ "c'\<lparr>list_mutex := Unlocked\<rparr>"])
      (simp add: clean_threads_def lock_list_def unlock_list_def SLIST_EMPTY_def list_ok_def)
qed

section \<open>Accepting\<close>

definition good_round :: "round \<Rightarrow> bool" where
  "good_round e \<longleftrightarrow> data_block e \<noteq> NULL \<and> node_block e \<noteq> NULL \<and> 0 \<le> accepted e \<and> \<not> signalled e \<and>
     create_result e = 0 \<and> lock_result (round_pthreads e) = 0 \<and> unlock_result (round_pthreads e) = 0"

text \<open>
  The list of the accepted clients: their nodes in the order of acceptance, none marked complete,
  each with its data and its open socket; and between the rounds, when the mutex is free and
  \<open>last\<close> is the end of the list.
\<close>

definition clients_inv :: "round list \<Rightarrow> clients \<Rightarrow> bool" where
  "clients_inv es c \<longleftrightarrow>
     list_ok c (map node_block es) \<and>
     (\<forall>e \<in> set es. (\<exists>n. node c (node_block e) = Some n \<and> thread_id n = new_thread e \<and> \<not> node_complete n) \<and>
        (\<exists>b. tdata c (data_block e) = Some \<lparr>td_complete = b, td_clientfd = accepted e\<rparr>) \<and>
        accepted e \<in> open_sockets c)"

definition accepted_inv :: "round list \<Rightarrow> program \<Rightarrow> bool" where
  "accepted_inv es st \<longleftrightarrow>
     clients_inv es (threads (srv st)) \<and> list_mutex (threads (srv st)) = Unlocked \<and>
     last_node st = (if es = [] then NULL else node_block (last es))"

lemma clients_inv_cong:
  "clients_inv es c \<Longrightarrow> node c' = node c \<Longrightarrow> slh_first c' = slh_first c \<Longrightarrow>
   (\<And>e. e \<in> set es \<Longrightarrow> accepted e \<in> open_sockets c') \<Longrightarrow>
   (\<And>e b. e \<in> set es \<Longrightarrow> tdata c (data_block e) = Some \<lparr>td_complete = b, td_clientfd = accepted e\<rparr> \<Longrightarrow>
      \<exists>b'. tdata c' (data_block e) = Some \<lparr>td_complete = b', td_clientfd = accepted e\<rparr>) \<Longrightarrow>
     clients_inv es c'"
  unfolding clients_inv_def list_ok_def by metis

lemma clients_inv_locked [simp]: "clients_inv es (c\<lparr>list_mutex := m\<rparr>) = clients_inv es c"
  by (simp add: clients_inv_def list_ok_def)

lemma insert_keeps:
  assumes "list_ok c ps" "p \<notin> set ps" "p \<noteq> 0" "node c p = Some n"
  shows "\<exists>c'. (if (if ps = [] then NULL else last ps) = NULL then SLIST_INSERT_HEAD p c
               else SLIST_INSERT_AFTER (if ps = [] then NULL else last ps) p c) = Inr c' \<and>
    list_ok c' (ps @ [p]) \<and> tdata c' = tdata c \<and> open_sockets c' = open_sockets c \<and>
    list_mutex c' = list_mutex c \<and>
    (\<forall>q m. node c q = Some m \<longrightarrow> (\<exists>m'. node c' q = Some m' \<and> thread_id m' = thread_id m \<and>
       node_complete m' = node_complete m))"
proof (cases ps rule: rev_cases)
  case Nil
  with insert_head_ok [OF assms] assms show ?thesis
    by (auto simp: SLIST_INSERT_HEAD_def slist_simps)
next
  case (snoc xs q)
  have "q \<noteq> 0" "node c q \<noteq> None"
    using assms(1) seg_nodes [of "node c" "slh_first c" ps 0 q] snoc by (auto simp: list_ok_def)
  then obtain m where m: "q \<noteq> 0" "node c q = Some m" by auto
  have "q \<noteq> p" using snoc assms(2) by auto
  with insert_after_ok [of c xs q "[]" p n] assms snoc m show ?thesis
    by (auto simp: SLIST_INSERT_AFTER_def slist_simps)
qed

text \<open>A good round appends a node and touches nothing but the threads.\<close>

lemma accept_round_good:
  assumes inv: "accepted_inv es st" and good: "good_round e" and run: "keep_running st"
    and fresh: "node_block e \<notin> node_block ` set es" "data_block e \<notin> data_block ` set es"
  shows "\<exists>st'. accept_round e st = Some (Inr st') \<and> accepted_inv (es @ [e]) st' \<and> keep_running st' \<and>
    srv st' = (srv st)\<lparr>threads := threads (srv st')\<rparr> \<and>
    tdata (threads (srv st')) =
      (tdata (threads (srv st)))(data_block e \<mapsto> \<lparr>td_complete = False, td_clientfd = accepted e\<rparr>)"
proof -
  let ?p = "node_block e" and ?c = "threads (srv st)" and ?ps = "map node_block es"
  let ?c1 = "accept_client e (create_thread_data e ?c)"
  let ?n = "\<lparr>thread_id = new_thread e, node_clientfd = accepted e, node_complete = False, sle_next = NULL\<rparr>"
  let ?c3 = "(new_node e ?c1)\<lparr>list_mutex := Locked\<rparr>"
  have g: "data_block e \<noteq> 0" "?p \<noteq> 0" "0 \<le> accepted e" "\<not> signalled e" "create_result e = 0"
      "lock_result (round_pthreads e) = 0" "unlock_result (round_pthreads e) = 0"
    using good by (simp_all add: good_round_def)
  have i: "list_ok ?c ?ps" "list_mutex ?c = Unlocked" "last_node st = (if ?ps = [] then NULL else last ?ps)"
    using inv by (auto simp: accepted_inv_def clients_inv_def last_map)
  have sel: "node ?c3 = (node ?c)(?p \<mapsto> ?n)" "slh_first ?c3 = slh_first ?c" "list_mutex ?c1 = Unlocked"
      "tdata ?c3 = (tdata ?c)(data_block e \<mapsto> \<lparr>td_complete = False, td_clientfd = accepted e\<rparr>)"
      "open_sockets ?c3 = insert (accepted e) (open_sockets ?c)"
    using g i(2) by (auto simp: new_node_def accept_client_def create_thread_data_def)
  have nin: "?p \<notin> set ?ps" using fresh(1) by simp
  have new: "node_block x \<noteq> ?p" "data_block x \<noteq> data_block e" if "x \<in> set es" for x
    using fresh that by (metis image_eqI)+
  have "list_ok ?c3 ?ps"
    using i(1) nin by (simp add: list_ok_def sel seg_upd)
  from insert_keeps [OF this nin g(2), of ?n] sel(1) obtain c4 where c4:
      "(if last_node st = NULL then SLIST_INSERT_HEAD ?p ?c3 else SLIST_INSERT_AFTER (last_node st) ?p ?c3) = Inr c4"
      "list_ok c4 (?ps @ [?p])" "tdata c4 = tdata ?c3" "open_sockets c4 = open_sockets ?c3"
    and keep: "\<And>q m. node ?c3 q = Some m \<Longrightarrow> \<exists>m'. node c4 q = Some m' \<and> thread_id m' = thread_id m \<and>
       node_complete m' = node_complete m"
    unfolding i(3) by auto
  have nodes: "\<exists>n. node c4 (node_block x) = Some n \<and> thread_id n = new_thread x \<and> \<not> node_complete n"
    if "x \<in> set (es @ [e])" for x
  proof -
    have "\<exists>m. node ?c3 (node_block x) = Some m \<and> thread_id m = new_thread x \<and> \<not> node_complete m"
      using that inv new unfolding sel(1) by (auto simp: accepted_inv_def clients_inv_def)
    then show ?thesis using keep by metis
  qed
  let ?c5 = "c4\<lparr>list_mutex := Unlocked\<rparr>" and ?e = "round_pthreads e"
  have check: "check_completed_threads ?e ?c5 = Some (Inr ?c5)"
    using c4(2) g(6,7) nodes
    by (intro check_completed_none [of _ "?ps @ [?p]"]) (auto, fastforce+)
  let ?st' = "st\<lparr>srv := (srv st)\<lparr>threads := ?c5\<rparr>, last_node := ?p\<rparr>"
  have "lock_list ?e (new_node e ?c1) = Inr (0, ?c3)"
    using g(6) sel(3) by (simp add: lock_list_def new_node_def)
  then have "accept_round e st = Some (Inr ?st')"
    using g run c4(1) check
    by (cases "last_node st = 0") (simp_all add: accept_round_def Let_def unlock_list_def)
  moreover have "accepted_inv (es @ [e]) ?st'"
    using c4 nodes inv new unfolding accepted_inv_def clients_inv_def
    by (auto simp: sel)
  ultimately show ?thesis using run c4(3) sel(4) by (intro exI [of _ ?st']) simp
qed

text \<open>A round that creates no thread gives back what it took.\<close>

lemma accept_round_idle:
  assumes inv: "accepted_inv es st" and idle: "\<not> creates_thread e st"
    and fresh: "data_block e \<notin> data_block ` set es" "accepted e \<notin> accepted ` set es"
  shows "\<exists>st'. accept_round e st = Some (Inr st') \<and> accepted_inv es st' \<and>
    keep_running st' = (keep_running st \<and> \<not> (data_block e \<noteq> NULL \<and> signalled e)) \<and>
    srv st' = (srv st)\<lparr>threads := threads (srv st')\<rparr> \<and>
    tdata (threads (srv st')) =
      (if data_block e = NULL then tdata (threads (srv st)) else (tdata (threads (srv st)))(data_block e := None))"
proof (cases "data_block e = NULL")
  case True
  with inv show ?thesis by (auto simp: accept_round_def)
next
  case False
  let ?c = "threads (srv st)" and ?st = "if signalled e then end_program_singal st else st"
  let ?c1 = "accept_client e (create_thread_data e ?c)"
  let ?closed = "\<not> (\<not> keep_running ?st \<or> accepted e < 0)"
  let ?c2 = "(if ?closed then close_socket (accepted e) ?c1 else ?c1)\<lparr>tdata := (tdata ?c)(data_block e := None)\<rparr>"
  let ?st' = "?st\<lparr>srv := (srv st)\<lparr>threads := ?c2\<rparr>\<rparr>"
  have td: "tdata ?c1 = (tdata ?c)(data_block e \<mapsto> \<lparr>td_complete = False, td_clientfd = accepted e\<rparr>)"
    using False by (simp add: accept_client_def create_thread_data_def)
  have free: "free_tdata (data_block e) c = Inr (c\<lparr>tdata := (tdata ?c)(data_block e := None)\<rparr>)"
    if "tdata c = tdata ?c1" for c
    using False that by (simp add: free_tdata_def td)
  have "accept_round e st = Some (Inr ?st')"
    using idle False
    by (cases "signalled e"; cases "keep_running st"; cases "accepted e < 0")
      (simp_all add: accept_round_def Let_def free drop_client_def close_socket_def creates_thread_def end_program_singal_def)
  moreover have "clients_inv es ?c2"
  proof (rule clients_inv_cong [of es ?c])
    show "clients_inv es ?c" using inv by (simp add: accepted_inv_def)
  next
    fix x
    assume x: "x \<in> set es"
    have "accepted x \<in> open_sockets ?c"
      using inv x by (simp add: accepted_inv_def clients_inv_def)
    moreover have "accepted x \<noteq> accepted e" "data_block x \<noteq> data_block e"
      using fresh x by (metis image_eqI)+
    ultimately show "accepted x \<in> open_sockets ?c2"
      "\<And>b. tdata ?c (data_block x) = Some \<lparr>td_complete = b, td_clientfd = accepted x\<rparr> \<Longrightarrow>
         \<exists>b'. tdata ?c2 (data_block x) = Some \<lparr>td_complete = b', td_clientfd = accepted x\<rparr>"
      by (simp_all add: accept_client_def create_thread_data_def close_socket_def)
  qed (use False in \<open>simp_all add: accept_client_def create_thread_data_def close_socket_def\<close>)
  then have "accepted_inv es ?st'"
    using inv False
    by (simp add: accepted_inv_def end_program_singal_def accept_client_def create_thread_data_def close_socket_def)
  ultimately show ?thesis
    using False by (intro exI [of _ ?st']) (simp add: end_program_singal_def)
qed

text \<open>The round in which the signal arrives gives back its block and ends the loop.\<close>

definition stop_round :: "round \<Rightarrow> bool" where
  "stop_round e \<longleftrightarrow> data_block e \<noteq> NULL \<and> signalled e \<and> accepted e < 0"

lemma accept_loop_stops:
  "accepted_inv es st \<Longrightarrow> keep_running st \<Longrightarrow> (\<forall>e \<in> set fs. good_round e) \<Longrightarrow> stop_round e \<Longrightarrow>
   (\<forall>e \<in> set es. 0 \<le> accepted e) \<Longrightarrow>
   distinct (map node_block (es @ fs)) \<Longrightarrow> distinct (map data_block (es @ fs @ [e])) \<Longrightarrow>
     \<exists>st'. accept_loop (fs @ e # rest) st = Some (Inr st') \<and> accepted_inv (es @ fs) st'"
proof (induction fs arbitrary: es st)
  case Nil
  have "accepted e \<notin> accepted ` set es" using Nil.prems(4,5) by (auto simp: stop_round_def)
  with Nil accept_round_idle [of es st e] obtain st' where
    "accept_round e st = Some (Inr st')" "accepted_inv es st'" "\<not> keep_running st'"
    by (auto simp: stop_round_def creates_thread_def)
  with Nil.prems(2) show ?case
    by (subst accept_loop.simps) (simp add: accept_loop.simps [of _ st'])
next
  case (Cons f fs)
  then obtain st1 where st1: "accept_round f st = Some (Inr st1)" "accepted_inv (es @ [f]) st1" "keep_running st1"
    using accept_round_good [of es st f] by auto
  have "\<forall>e \<in> set (es @ [f]). 0 \<le> accepted e" using Cons.prems(3,5) by (simp add: good_round_def)
  with Cons.IH [OF st1(2,3)] Cons.prems obtain st' where
    "accept_loop (fs @ e # rest) st1 = Some (Inr st')" "accepted_inv ((es @ [f]) @ fs) st'"
    by auto
  with st1(1) Cons.prems(2) show ?case
    by (subst accept_loop.simps) auto
qed

section \<open>The end\<close>

definition joins_clients :: "pthread_env \<Rightarrow> round list \<Rightarrow> bool" where
  "joins_clients env es \<longleftrightarrow> (\<forall>e \<in> set es. join_result env (new_thread e) = Some (0, data_block e))"

lemma joins_clientsI:
  "\<forall>f \<in> set es. join_result env (new_thread f) \<in> {None, Some (0, data_block f)} \<Longrightarrow>
     \<forall>f \<in> set fs. f \<in> set es \<and> join_result env (new_thread f) \<noteq> None \<Longrightarrow> joins_clients env fs"
  unfolding joins_clients_def by (metis insert_iff empty_iff)

lemma accepted_joins:
  assumes "accepted_inv es st" "set fs \<subseteq> set es" "joins_clients env fs" "\<forall>e \<in> set es. good_round e"
    and "distinct (map data_block fs)"
  shows "joins_ok env (threads (srv st)) (map node_block fs)"
    and "joined env (threads (srv st)) ` node_block ` set fs = data_block ` set fs"
    and "client_fd env (threads (srv st)) ` node_block ` set fs = accepted ` set fs"
proof -
  let ?c = "threads (srv st)"
  have j: "joined env ?c (node_block e) = data_block e \<and> client_fd env ?c (node_block e) = accepted e \<and>
      tdata ?c (data_block e) \<noteq> None \<and> data_block e \<noteq> 0 \<and>
      (\<forall>n. node ?c (node_block e) = Some n \<longrightarrow> (\<exists>ret. join_result env (thread_id n) = Some (0, ret)))"
    if e: "e \<in> set fs" for e
  proof -
    have es: "e \<in> set es" using e assms(2) by blast
    obtain n where n: "node ?c (node_block e) = Some n" "thread_id n = new_thread e"
      using es assms(1) by (auto simp: accepted_inv_def clients_inv_def)
    have "join_result env (new_thread e) = Some (0, data_block e)" "data_block e \<noteq> 0"
      using e es assms(3,4) by (auto simp: joins_clients_def good_round_def)
    moreover obtain b where "tdata ?c (data_block e) = Some \<lparr>td_complete = b, td_clientfd = accepted e\<rparr>"
      using es assms(1) by (auto simp: accepted_inv_def clients_inv_def)
    ultimately show ?thesis
      using n by (simp add: joined_def client_fd_def)
  qed
  have m: "map (joined env ?c) (map node_block fs) = map data_block fs"
    using j by simp
  show "joins_ok env ?c (map node_block fs)"
    unfolding joins_ok_def m using j assms(5) by auto
  show "joined env ?c ` node_block ` set fs = data_block ` set fs"
    "client_fd env ?c ` node_block ` set fs = accepted ` set fs"
    unfolding image_image using j by (auto intro!: image_cong)
qed

lemma cleanup_accepted:
  assumes inv: "accepted_inv es st" and joins: "joins_clients env es" "\<forall>e \<in> set es. good_round e"
    and dist: "distinct (map data_block es)" and lock: "lock_result env = 0" "unlock_result env = 0"
  shows "\<exists>s. cleanup env (srv st) = Some (Inr s) \<and> SLIST_EMPTY (threads s) \<and> \<not> device_file s \<and> \<not> listening s \<and>
    (\<forall>e \<in> set es. node (threads s) (node_block e) = None \<and> tdata (threads s) (data_block e) = None \<and>
       accepted e \<notin> open_sockets (threads s))"
proof -
  let ?c = "threads (srv st)" and ?ps = "map node_block es"
  have c: "list_ok ?c ?ps" "list_mutex ?c = Unlocked"
    "\<forall>p \<in> set ?ps. \<forall>n. node ?c p = Some n \<longrightarrow> \<not> node_complete n"
    using inv by (auto simp: accepted_inv_def clients_inv_def)
  note j = accepted_joins [OF inv subset_refl joins dist]
  obtain c' where c': "clean_threads env ?c = Some (Inr c')" "SLIST_EMPTY c'"
      "tdata c' = tdata ?c |` (- data_block ` set es)"
      "open_sockets c' = open_sockets ?c - accepted ` set es" "dom (node c') \<subseteq> dom (node ?c) - set ?ps"
    using clean_threads_all [OF c(1) j(1) c(2) lock] unfolding set_map j(2,3) by blast
  have "check_completed_threads env ?c = Some (Inr ?c)"
    by (rule check_completed_none [OF c(1,2) lock c(3)])
  with c'(1) have "cleanup env (srv st) = Some (Inr ((srv st)\<lparr>threads := c', device_file := False, listening := False\<rparr>))"
    by (simp add: cleanup_def)
  with c' show ?thesis by auto
qed

text \<open>A thread that does not return holds up the end.\<close>

lemma cleanup_waits:
  assumes inv: "accepted_inv es st" and good: "\<forall>e \<in> set es. good_round e" and dist: "distinct (map data_block es)"
    and lock: "lock_result env = 0" "unlock_result env = 0"
    and answers: "\<forall>f \<in> set es. join_result env (new_thread f) \<in> {None, Some (0, data_block f)}"
    and stuck: "\<exists>f \<in> set es. join_result env (new_thread f) = None"
  shows "cleanup env (srv st) = Some (Inl Deadlock)"
proof -
  let ?c = "threads (srv st)" and ?stuck = "\<lambda>f. join_result env (new_thread f) = None"
  have c: "list_ok ?c (map node_block es)" "list_mutex ?c = Unlocked"
    "\<forall>p \<in> set (map node_block es). \<forall>n. node ?c p = Some n \<longrightarrow> \<not> node_complete n"
    using inv by (auto simp: accepted_inv_def clients_inv_def)
  obtain fs g gs where es: "es = fs @ g # gs" "?stuck g" "\<forall>f \<in> set fs. \<not> ?stuck f"
    using split_list_first_prop [of es ?stuck] stuck by blast
  obtain n where n: "node ?c (node_block g) = Some n" "thread_id n = new_thread g"
    using inv by (auto simp: es(1) accepted_inv_def clients_inv_def)
  have "joins_clients env fs" using joins_clientsI [OF answers] es(1,3) by simp
  then have "joins_ok env ?c (map node_block fs)"
    using accepted_joins(1) [OF inv, of fs env] good dist es(1) by auto
  then have "clean_loop env (?c\<lparr>list_mutex := Locked\<rparr>) = Some (Inl Deadlock)"
    using clean_loop_waits [of "?c\<lparr>list_mutex := Locked\<rparr>" "map node_block fs" "node_block g" "map node_block gs" env n]
      c(1) n es(1,2) by simp
  then have "clean_threads env ?c = Some (Inl Deadlock)"
    using c(2) lock by (simp add: clean_threads_def lock_list_def)
  moreover have "\<not> SLIST_EMPTY ?c"
    using c(1) es(1) by (cases fs) (auto simp: SLIST_EMPTY_def list_ok_def)
  moreover have "check_completed_threads env ?c = Some (Inr ?c)"
    by (rule check_completed_none [OF c(1,2) lock c(3)])
  ultimately show ?thesis by (simp add: cleanup_def)
qed

section \<open>Properties\<close>

text \<open>C26: \<open>check_completed_threads\<close> on a well-formed list leaves it alone while no node is marked
  complete; when one is, it joins the thread, frees the node and then reads the link of the
  freed node to go on.\<close>

theorem check_completed_threads_uses_freed_node:
  assumes "list_ok c ps" and "joins_ok env c ps" and "list_mutex c = Unlocked"
    and "lock_result env = 0" and "unlock_result env = 0"
  shows "check_completed_threads env c =
    (if \<exists>p \<in> set ps. \<exists>n. node c p = Some n \<and> node_complete n
     then Some (Inl UseAfterFree) else Some (Inr c))"
  using check_completed_some [OF assms(1-4)] check_completed_none [OF assms(1,3-5)] by auto

definition one_client :: "bool \<Rightarrow> clients" where
  "one_client done = \<lparr>node = [2 \<mapsto> \<lparr>thread_id = 1, node_clientfd = 7, node_complete = done, sle_next = NULL\<rparr>],
     slh_first = 2, list_mutex = Unlocked, tdata = [1 \<mapsto> \<lparr>td_complete = done, td_clientfd = 7\<rparr>],
     open_sockets = {7}\<rparr>"

definition answering :: pthread_env where
  "answering = \<lparr>lock_result = 0, unlock_result = 0, join_result = \<lambda>t. Some (0, t), stale_ptr = NULL\<rparr>"

lemma one_client_ok: "list_ok (one_client b) [2]" "joins_ok answering (one_client b) [2]"
  by (simp_all add: list_ok_def joins_ok_def joined_def one_client_def answering_def)

theorem check_completed_threads_uses_freed_node_witness:
  "check_completed_threads answering (one_client True) = Some (Inl UseAfterFree) \<and>
   check_completed_threads answering (one_client False) = Some (Inr (one_client False))"
  using check_completed_threads_uses_freed_node [OF one_client_ok, of True]
    check_completed_threads_uses_freed_node [OF one_client_ok, of False]
  by (simp add: one_client_def answering_def)

text \<open>\<open>clean_threads\<close> on a well-formed list whose threads can be joined ends, with the list
  empty, every node and every thread's data freed, their sockets closed and the mutex free.\<close>

theorem clean_threads_releases_everything:
  assumes "list_ok c ps" and "joins_ok env c ps" and "list_mutex c = Unlocked"
    and "lock_result env = 0" and "unlock_result env = 0"
  shows "\<exists>c'. clean_threads env c = Some (Inr c') \<and> SLIST_EMPTY c' \<and> list_mutex c' = Unlocked \<and>
    tdata c' = tdata c |` (- joined env c ` set ps) \<and>
    open_sockets c' = open_sockets c - client_fd env c ` set ps \<and> dom (node c') \<subseteq> dom (node c) - set ps"
  by (rule clean_threads_all [OF assms])

theorem clean_threads_releases_everything_witness:
  "\<exists>c'. clean_threads answering (one_client False) = Some (Inr c') \<and> SLIST_EMPTY c' \<and>
     tdata c' = Map.empty \<and> open_sockets c' = {}"
  using clean_threads_releases_everything [OF one_client_ok, of False]
  by (auto simp: one_client_def answering_def joined_def client_fd_def)

text \<open>\<open>set_thread_complete_success\<close> marks the node it is given when that node is in the list and
  changes nothing otherwise, and releases the list mutex.\<close>

theorem set_thread_complete_success_marks_the_node:
  assumes "list_ok c ps" and "list_mutex c = Unlocked" and "lock_result env = 0" and "unlock_result env = 0"
  shows "set_thread_complete_success env nd b c = Some (Inr
    (case (nd \<in> set ps, node c nd) of
       (True, Some n) \<Rightarrow> c\<lparr>node := (node c)(nd \<mapsto> n\<lparr>node_complete := b\<rparr>)\<rparr> | _ \<Rightarrow> c))"
proof -
  let ?c = "c\<lparr>list_mutex := Locked\<rparr>"
  have seg: "seg (node ?c) (slh_first c) ps 0" "distinct ps"
    using assms(1) by (simp_all add: list_ok_def)
  show ?thesis
  proof (cases "nd \<in> set ps")
    case True
    then obtain xs ys where ps: "ps = xs @ nd # ys" by (auto simp: in_set_conv_decomp)
    obtain n where n: "node c nd = Some n" using seg_nodes [OF seg(1) True] by auto
    have "mark_loop nd b (slh_first c) ?c = Some (Inr (set_node nd (n\<lparr>node_complete := b\<rparr>) ?c))"
      using seg ps n by (intro mark_loop_member [of _ _ xs nd ys]) simp_all
    with True n assms(2-4) show ?thesis
      by (cases c) (simp add: set_thread_complete_success_def lock_list_def unlock_list_def set_node_def)
  next
    case False
    with mark_loop_other [OF seg(1) False, of b] assms(2-4) show ?thesis
      by (cases c) (simp add: set_thread_complete_success_def lock_list_def unlock_list_def)
  qed
qed

theorem set_thread_complete_success_marks_the_node_witness:
  "set_thread_complete_success answering 2 True (one_client False) =
     Some (Inr ((one_client False)\<lparr>node := [2 \<mapsto> \<lparr>thread_id = 1, node_clientfd = 7, node_complete = True, sle_next = NULL\<rparr>]\<rparr>))"
  using set_thread_complete_success_marks_the_node [OF one_client_ok(1), of False answering 2 True]
  by (simp add: one_client_def answering_def)

definition setup_ok :: "setup_env \<Rightarrow> string list \<Rightarrow> bool" where
  "setup_ok env argv \<longleftrightarrow>
     sigint_result env = 0 \<and> sigterm_result env = 0 \<and> file_mutex_init env = 0 \<and> list_mutex_init env = 0 \<and>
     getaddrinfo_result env = 0 \<and> 0 \<le> socket_result env \<and> 0 \<le> setsockopt_result env \<and>
     0 \<le> bind_result env \<and> 0 \<le> listen_result env \<and>
     (1 < length argv \<and> argv ! 1 = ''-d'' \<longrightarrow> fork_result env = 0 \<and> setsid_result env \<noteq> -1) \<and>
     lock_result (setup_pthreads env) = 0 \<and> unlock_result (setup_pthreads env) = 0"

text \<open>The program when \<open>main\<close> enters its accept loop.\<close>

definition at_loop :: "program \<Rightarrow> program" where
  "at_loop st = st\<lparr>mutexes := 2, addrinfo := False, last_node := NULL,
     srv := (srv st)\<lparr>listening := True, threads := (threads (srv st))\<lparr>slh_first := NULL\<rparr>\<rparr>\<rparr>"

lemma main_runs:
  "setup_ok env argv \<Longrightarrow> main env argv rounds st =
     (case accept_loop rounds (at_loop st) of None \<Rightarrow> None | Some (Inl t) \<Rightarrow> Some (Inl t)
      | Some (Inr st') \<Rightarrow> exit_cleanup env 0 st')"
  by (auto simp: main_def setup_ok_def at_loop_def Let_def)

text \<open>C16: A server whose setup succeeds accepts clients until a signal arrives, however many: each stays
  in the list (the rounds mark none complete) until the end. Then \<open>main\<close> joins the threads. When every
  session returns, every node and block is freed, every client socket and the server socket closed
  and the device file removed, and the exit status is 0. When one session does not return, \<open>main\<close>
  waits for it for good and releases nothing more.\<close>

theorem main_exits_when_all_sessions_return:
  assumes "setup_ok env argv" and "keep_running st" and "list_mutex (threads (srv st)) = Unlocked"
    and "\<forall>e \<in> set es. good_round e" and "stop_round e"
    and "distinct (map node_block es)" and "distinct (map data_block (es @ [e]))"
    and "\<forall>f \<in> set es. join_result (setup_pthreads env) (new_thread f) \<in> {None, Some (0, data_block f)}"
  shows "if \<exists>f \<in> set es. join_result (setup_pthreads env) (new_thread f) = None
    then main env argv (es @ e # rest) st = Some (Inl Deadlock)
    else \<exists>st'. main env argv (es @ e # rest) st = Some (Inr (0, st')) \<and>
      SLIST_EMPTY (threads (srv st')) \<and> \<not> device_file (srv st') \<and> \<not> listening (srv st') \<and>
      (\<forall>f \<in> set es. node (threads (srv st')) (node_block f) = None \<and>
         tdata (threads (srv st')) (data_block f) = None \<and>
         accepted f \<notin> open_sockets (threads (srv st')))"
proof -
  let ?env = "setup_pthreads env"
  have "accepted_inv [] (at_loop st)" "keep_running (at_loop st)"
    using assms(2,3) by (simp_all add: accepted_inv_def clients_inv_def list_ok_def at_loop_def)
  from accept_loop_stops [OF this(1) _ assms(4,5)] assms(6,7) this(2) obtain st2 where st2:
      "accept_loop (es @ e # rest) (at_loop st) = Some (Inr st2)" "accepted_inv es st2"
    by auto
  have run: "main env argv (es @ e # rest) st = exit_cleanup env 0 st2"
    using main_runs [OF assms(1)] st2(1) by simp
  have env: "distinct (map data_block es)" "lock_result ?env = 0" "unlock_result ?env = 0"
    using assms(1,7) by (simp_all add: setup_ok_def)
  show ?thesis
  proof (cases "\<exists>f \<in> set es. join_result ?env (new_thread f) = None")
    case True
    with cleanup_waits [OF st2(2) assms(4) env assms(8)] run show ?thesis
      by (simp add: exit_cleanup_def)
  next
    case False
    then have "joins_clients ?env es" using joins_clientsI [OF assms(8)] by simp
    from cleanup_accepted [OF st2(2) this assms(4) env] obtain s where
      "cleanup ?env (srv st2) = Some (Inr s)" "SLIST_EMPTY (threads s)" "\<not> device_file s"
      "\<not> listening s" "\<forall>e \<in> set es. node (threads s) (node_block e) = None \<and>
         tdata (threads s) (data_block e) = None \<and> accepted e \<notin> open_sockets (threads s)"
      by blast
    with run False show ?thesis
      by (auto simp: exit_cleanup_def intro!: exI [of _ "st2\<lparr>srv := s\<rparr>"])
  qed
qed

definition fine_setup :: setup_env where
  "fine_setup = \<lparr>sigint_result = 0, sigterm_result = 0, file_mutex_init = 0, list_mutex_init = 0,
     getaddrinfo_result = 0, socket_result = 3, setsockopt_result = 0, bind_result = 0, fork_result = 0,
     setsid_result = 0, listen_result = 0, setup_pthreads = answering\<rparr>"

definition fine_round :: "nat \<Rightarrow> bool \<Rightarrow> round" where
  "fine_round k stop = \<lparr>data_block = k, accepted = (if stop then -1 else int k), signalled = stop, create_result = 0,
     new_thread = k, node_block = k + 100, round_pthreads = answering\<rparr>"

definition started :: program where
  "started = \<lparr>srv = \<lparr>threads = \<lparr>node = Map.empty, slh_first = NULL, list_mutex = Unlocked, tdata = Map.empty,
       open_sockets = {}\<rparr>, file_mutex = Unlocked, device = fresh_driver, sent = [], device_file = True,
     listening = False\<rparr>, last_node = NULL, keep_running = True, addrinfo = False, mutexes = 0\<rparr>"

theorem main_exits_when_all_sessions_return_witness:
  "(\<exists>st'. main fine_setup [''aesdsocket'', ''-d''] [fine_round 4 False, fine_round 5 False, fine_round 6 True] started =
      Some (Inr (0, st')) \<and> SLIST_EMPTY (threads (srv st')) \<and> 4 \<notin> open_sockets (threads (srv st'))) \<and>
   main (fine_setup\<lparr>setup_pthreads := answering\<lparr>join_result := (\<lambda>t. Some (0, t))(5 := None)\<rparr>\<rparr>) [''aesdsocket'']
      [fine_round 4 False, fine_round 5 False, fine_round 6 True] started = Some (Inl Deadlock)"
proof
  show "\<exists>st'. main fine_setup [''aesdsocket'', ''-d''] [fine_round 4 False, fine_round 5 False, fine_round 6 True] started =
      Some (Inr (0, st')) \<and> SLIST_EMPTY (threads (srv st')) \<and> 4 \<notin> open_sockets (threads (srv st'))"
    using main_exits_when_all_sessions_return [of fine_setup "[''aesdsocket'', ''-d'']" started
        "[fine_round 4 False, fine_round 5 False]" "fine_round 6 True" "[]"]
    by (auto simp: setup_ok_def fine_setup_def answering_def started_def good_round_def stop_round_def fine_round_def)
  show "main (fine_setup\<lparr>setup_pthreads := answering\<lparr>join_result := (\<lambda>t. Some (0, t))(5 := None)\<rparr>\<rparr>) [''aesdsocket'']
      [fine_round 4 False, fine_round 5 False, fine_round 6 True] started = Some (Inl Deadlock)"
    using main_exits_when_all_sessions_return [of
        "fine_setup\<lparr>setup_pthreads := answering\<lparr>join_result := (\<lambda>t. Some (0, t))(5 := None)\<rparr>\<rparr>" "[''aesdsocket'']"
        started "[fine_round 4 False, fine_round 5 False]" "fine_round 6 True" "[]"]
    by (simp add: setup_ok_def fine_setup_def answering_def started_def good_round_def stop_round_def fine_round_def)
qed

text \<open>A setup that fails ends the program with status -1, except in the parent that a successful
  fork leaves behind. The failures before the socket exists and after it differ in what they leave:
  those that go through \<open>cleanup\<close> remove the device file, and a failed \<open>socket\<close> or
  \<open>setsockopt\<close> leaves the result of \<open>getaddrinfo\<close> allocated.\<close>

theorem main_setup_failures:
  assumes "SLIST_EMPTY (threads (srv st))" and "list_mutex (threads (srv st)) = Unlocked"
    and "lock_result (setup_pthreads env) = 0" "unlock_result (setup_pthreads env) = 0"
    and "sigint_result env = 0" "sigterm_result env = 0" "file_mutex_init env = 0" "list_mutex_init env = 0"
    and "getaddrinfo_result env \<noteq> 0 \<or> socket_result env < 0 \<or> setsockopt_result env < 0 \<or>
         bind_result env < 0 \<or> listen_result env < 0" and "length argv \<le> 1" and "\<not> addrinfo st"
  shows "\<exists>st'. main env argv rounds st = Some (Inr (-1, st')) \<and>
    device_file (srv st') = (device_file (srv st) \<and> getaddrinfo_result env = 0 \<and> socket_result env < 0) \<and>
    addrinfo st' = (getaddrinfo_result env = 0 \<and> (socket_result env < 0 \<or> setsockopt_result env < 0))"
proof -
  let ?p = "setup_pthreads env"
  have clean: "\<exists>s'. cleanup ?p s = Some (Inr s') \<and> \<not> device_file s'"
    if "SLIST_EMPTY (threads s)" "list_mutex (threads s) = Unlocked" for s
    using that clean_threads_all [of "threads s" "[]" ?p] assms(3,4)
    by (auto simp: cleanup_def list_ok_def joins_ok_def SLIST_EMPTY_def)
  have clean_exit: "\<exists>s'. exit_cleanup env (-1) st1 = Some (Inr (-1, st1\<lparr>srv := s'\<rparr>)) \<and> \<not> device_file s'"
    if "SLIST_EMPTY (threads (srv st1))" "list_mutex (threads (srv st1)) = Unlocked" for st1
    using clean [OF that] by (auto simp: exit_cleanup_def)
  consider "getaddrinfo_result env \<noteq> 0" | "getaddrinfo_result env = 0" "socket_result env < 0"
    | "getaddrinfo_result env = 0" "\<not> socket_result env < 0" "setsockopt_result env < 0"
    | "getaddrinfo_result env = 0" "\<not> socket_result env < 0" "\<not> setsockopt_result env < 0"
        "bind_result env < 0 \<or> listen_result env < 0"
    using assms(9) by blast
  then show ?thesis
  proof cases
    case 1
    with assms clean_exit [of "st\<lparr>mutexes := 2\<rparr>"] show ?thesis
      by (auto simp: main_def Let_def)
  next
    case 2
    with assms show ?thesis by (simp add: main_def Let_def exit_now_def)
  next
    case 3
    with assms clean_exit [of "st\<lparr>mutexes := 2, addrinfo := True, srv := (srv st)\<lparr>listening := True\<rparr>\<rparr>"]
    show ?thesis by (auto simp: main_def Let_def)
  next
    case 4
    let ?st = "st\<lparr>mutexes := 2, srv := (srv st)\<lparr>listening := True\<rparr>, addrinfo := False\<rparr>"
    let ?st' = "st\<lparr>mutexes := 2, addrinfo := False, last_node := NULL,
      srv := (srv st)\<lparr>listening := True, threads := (threads (srv st))\<lparr>slh_first := NULL\<rparr>\<rparr>\<rparr>"
    from 4 assms clean_exit [of ?st] clean_exit [of ?st'] show ?thesis
      by (cases "bind_result env < 0") (auto simp: main_def Let_def SLIST_EMPTY_def)
  qed
qed

theorem main_setup_failures_witness:
  "\<exists>st'. main (fine_setup\<lparr>bind_result := -1\<rparr>) [''aesdsocket''] [] started = Some (Inr (-1, st')) \<and>
     \<not> device_file (srv st')"
  using main_setup_failures [of started "fine_setup\<lparr>bind_result := -1\<rparr>" "[''aesdsocket'']" "[]"]
  by (auto simp: fine_setup_def started_def answering_def SLIST_EMPTY_def)

text \<open>The time stamp is written to the device as one line: it completes a command that starts
  with whatever bytes were pending, and the file mutex is free afterwards.\<close>

theorem timestamp_completes_a_command:
  assumes "good_env (kernel env)" and "represents (device s) (cs, p)" and "file_mutex s = Unlocked"
    and "file_lock_result env = 0" "file_unlock_result env = 0" "fopen_ok env"
    and "clock_result clk = 0" "localtime_ok clk" "stamp clk \<noteq> []" "newline \<notin> set (stamp clk)"
    and "length p + length (stamp clk) \<le> 2 ^ 31"
  shows "\<exists>s'. print_timestamp env clk s = Some (Inr s') \<and> file_mutex s' = Unlocked \<and>
    represents (device s') (keep_last 10 (cs @ [p @ ''timestamp:'' @ stamp clk @ '' '' @ [newline]]), [])"
proof -
  let ?d = "timestamp_line (stamp clk)"
  have line: "is_line ?d"
    using assms(10) by (auto simp: is_line_def timestamp_line_def butlast_append)
  have rep: "dev_rep (kernel env, device s) (cs, p)"
    using assms(1,2) by (simp add: dev_rep_def)
  have room: "length p + length ?d \<le> 2 ^ 32"
    using assms(11) by (simp add: timestamp_line_def)
  from store.put_law [OF rep, of ?d] line room obtain y where y:
      "dev_put (kernel env, device s) ?d = Inr (True, y)" "dev_rep y (log_write ?d (cs, p))"
    by (auto simp: is_line_def)
  have "print_timestamp env clk s = Some (Inr (s\<lparr>device := snd y\<rparr>))"
    using assms(3-9) y(1) by (cases s) (simp add: print_timestamp_def lock_file_def unlock_file_def)
  then show ?thesis
    using y(2) assms(3) log_write_line [OF line, of cs p]
    by (intro exI [of _ "s\<lparr>device := snd y\<rparr>"]) (simp add: dev_rep_def timestamp_line_def del: log_write.simps)
qed

theorem timestamp_completes_a_command_witness:
  "\<exists>s'. print_timestamp
      \<lparr>thread_buffer = None, cmd_malloc = True, file_lock_result = 0, file_unlock_result = 0, fopen_ok = True,
       open_fd = 3, kernel = sample_env, fill = (\<lambda>i. NUL), client_thread_node = NULL, pthreads = answering\<rparr>
      \<lparr>clock_result = 0, localtime_ok = True, stamp = ''2026''\<rparr> (srv started) = Some (Inr s') \<and>
    represents (device s') ([''timestamp:2026 '' @ [newline]], [])"
  using timestamp_completes_a_command [of "\<lparr>thread_buffer = None, cmd_malloc = True, file_lock_result = 0,
       file_unlock_result = 0, fopen_ok = True, open_fd = 3, kernel = sample_env, fill = (\<lambda>i. NUL),
       client_thread_node = NULL, pthreads = answering\<rparr>" "srv started" "[]" "[]"
       "\<lparr>clock_result = 0, localtime_ok = True, stamp = ''2026''\<rparr>"] sample_good fresh_represents
  by (auto simp: started_def keep_last_def)

end
