(* ===== verification/Server_Steps.thy ===== *)
theory Server_Steps
  imports Server_Threads Server_Clients Server_Loop
begin

text \<open>
  The steps of a session and of \<open>cleanup\<close> without interference: a session that runs alone does
  what \<open>message_handler_thread\<close> does.
\<close>

section \<open>A session alone\<close>

lemma alone_Finished [simp]: "alone n rt t env data Finished sv = Some (Inr sv)"
  by (cases n) simp_all

lemma alone_Marking: "1 \<le> n \<Longrightarrow> alone n rt t env data (Marking ok) sv = finish env data ok sv"
  by (cases n; cases "finish env data ok sv") (auto simp: cres_simps split: sum.split)

lemma alone_Unlocking:
  "2 \<le> n \<Longrightarrow> alone n rt t env data Unlocking sv =
     (let (rc, sv') = unlock_file env sv in finish env data (rc = 0) sv')"
  by (cases n) (simp_all add: case_prod_beta Let_def alone_Marking)

lemma dev_put_env: "dev_put (k, s) d = Inr (ok, y) \<Longrightarrow> \<exists>s'. y = (k, s')"
  by (auto simp: dev_put_def cres_simps)

lemma alone_Writing:
  assumes "4 \<le> n" "get_tdata (threads sv) data = Inr td"
  shows "alone n rt t env data (Writing chunk) sv = store_and_send env data (td_clientfd td) chunk sv"
proof -
  obtain m where n: "n = Suc (Suc m)" "2 \<le> m"
    using assms(1) by (intro that [of "n - 2"]) auto
  show ?thesis
  proof (cases "dev_put (kernel env, device sv) chunk")
    case (Inl e)
    then show ?thesis by (simp add: n store_and_send_def)
  next
    case (Inr r)
    then obtain ok s' where r: "r = (ok, (kernel env, s'))"
      using dev_put_env by (metis surj_pair)
    have td: "get_tdata (threads (sv\<lparr>device := s'\<rparr>)) data = Inr td" using assms(2) by simp
    show ?thesis
      using Inr r td alone_Unlocking [OF n(2)]
      by (auto simp: n(1) store_and_send_def Let_def split: sum.split option.split)
  qed
qed

lemma alone_Opening:
  assumes "5 \<le> n" "get_tdata (threads sv) data = Inr td" "fopen_ok env"
  shows "alone n rt t env data (Opening chunk) sv = store_and_send env data (td_clientfd td) chunk sv"
proof -
  obtain m where "n = Suc m" "4 \<le> m" using assms(1) by (cases n) auto
  with assms(2,3) show ?thesis by (simp add: alone_Writing)
qed

lemma alone_Storing:
  assumes "6 \<le> n" "get_tdata (threads sv) data = Inr td" "fopen_ok env"
  shows "alone n rt t env data (Storing chunk) sv =
    (case lock_file env sv of
       Inl e \<Rightarrow> Some (Inl e)
     | Inr (rc, s1) \<Rightarrow>
         if rc \<noteq> 0 then finish env data False s1 else store_and_send env data (td_clientfd td) chunk s1)"
proof -
  obtain m where n: "n = Suc m" "5 \<le> m" using assms(1) by (cases n) auto
  show ?thesis
  proof (cases "lock_file env sv")
    case (Inr r)
    then have "threads (snd r) = threads sv"
      by (auto simp: lock_file_def split: if_splits mutex.splits)
    with Inr assms(2,3) n(2) show ?thesis
      by (cases r) (simp add: n(1) alone_Marking alone_Opening)
  qed (simp add: n)
qed

lemma alone_Commanding:
  assumes "2 \<le> n" "get_tdata (threads sv) data = Inr td"
  shows "alone n rt t env data (Commanding buf) sv =
    (case handle_ioctl env (td_clientfd td) buf sv of
       None \<Rightarrow> None
     | Some (Inl e) \<Rightarrow> Some (Inl e)
     | Some (Inr (rc, s1)) \<Rightarrow> finish env data (rc = 0) s1)"
proof -
  obtain m where "n = Suc m" "1 \<le> m" using assms(1) by (cases n) auto
  with assms(2) show ?thesis
    by (auto simp: alone_Marking split: sum.split option.split)
qed

lemma alone_Receiving:
  assumes "get_tdata (threads sv) data = Inr td" "fopen_ok env"
  shows "length chunks + 6 \<le> n \<Longrightarrow> alone n rt t env data (Receiving buf chunks) sv =
    (case recv_loop buf chunks of
       (b, None) \<Rightarrow> Some (Inl NullDeref)
     | (b, Some chunk) \<Rightarrow>
         alone 6 rt t env data (if take 18 b = ''AESDCHAR_IOCSEEKTO'' then Commanding b else Storing chunk) sv)"
proof (induction chunks arbitrary: n buf)
  case Nil
  then show ?case using assms by (cases n) simp_all
next
  case (Cons c cs)
  then obtain m where m: "n = Suc m" "length cs + 6 \<le> m" by (cases n) auto
  show ?case
  proof (cases "newline \<in> set c")
    case True
    with m assms alone_Storing [of m, OF _ assms] alone_Storing [of 6, OF _ assms]
      alone_Commanding [of m sv data td] alone_Commanding [of 6 sv data td]
    show ?thesis by (simp add: m(1) Let_def)
  next
    case False
    with m assms Cons.IH [of m] show ?thesis by (simp add: Let_def)
  qed
qed

text \<open>The steps of one session without interference, whose stream can be opened, are the session
  of the sequential model: the same end state and replies, the same crash, or the same wait for a
  mutex that is not released.\<close>

lemma session_steps_are_the_session:
  assumes "fopen_ok env" and "length chunks + 7 \<le> n"
  shows "alone n rt t env data (Starting chunks) sv = message_handler_thread env data chunks sv"
proof -
  obtain m where m: "n = Suc m" "length chunks + 6 \<le> m" using assms(2) by (cases n) auto
  show ?thesis
  proof (cases "thread_buffer env")
    case None
    with m show ?thesis by (simp add: message_handler_thread_def alone_Marking)
  next
    case (Some junk)
    show ?thesis
    proof (cases "get_tdata (threads sv) data")
      case (Inl e)
      with Some m show ?thesis
        by (cases m; cases chunks) (simp_all add: message_handler_thread_def)
    next
      case (Inr td)
      show ?thesis
        using m Some Inr alone_Receiving [OF Inr assms(1) m(2), of rt t junk]
          alone_Storing [of 6, OF _ Inr assms(1)] alone_Commanding [of 6, OF _ Inr] assms(1)
        by (auto simp: message_handler_thread_def split: prod.split option.split sum.split)
    qed
  qed
qed

end
