(* ===== verification/Server_Order.thy ===== *)
theory Server_Order
  imports Server_Steps
begin

text \<open>
  The order of the critical sections. While any number of sessions run, the threads that have had
  their turn (stored their line, or carried out their seek command) stand in one order: the device
  holds the last ten lines in that order, and each of them is sent what the device was at its turn.
  This file states it as an invariant of the program counters, the file mutex, the device and what
  was sent, and shows that each kind of step keeps it.
\<close>

section \<open>What clients send\<close>

text \<open>
  For every thread its environment, what its client sends (a line, or the command to seek to an
  offset in a stored command) and the socket of the client.
\<close>

record client_plan =
  env_of :: "nat \<Rightarrow> session_env"
  line_of :: "nat \<Rightarrow> byte list"
  seek_of :: "nat \<Rightarrow> (nat \<times> nat) option"
  fd_of :: "nat \<Rightarrow> int"

definition env_ok :: "session_env \<Rightarrow> bool" where
  "env_ok env \<longleftrightarrow> good_env (kernel env) \<and> file_lock_result env = 0 \<and> file_unlock_result env = 0 \<and>
     fopen_ok env \<and> lock_result (pthreads env) = 0 \<and> unlock_result (pthreads env) = 0"

definition good_line :: "byte list \<Rightarrow> bool" where
  "good_line d \<longleftrightarrow> is_line d \<and> length d \<le> 1024 \<and> NUL \<notin> set d"

text \<open>A buffer with a seek command, whose thread can carry it out.\<close>

definition sends_seek :: "session_env \<Rightarrow> byte list \<Rightarrow> nat \<Rightarrow> nat \<Rightarrow> bool" where
  "sends_seek env buf k i \<longleftrightarrow> take 18 buf = ''AESDCHAR_IOCSEEKTO'' \<and> 0 \<le> open_fd env \<and>
     get_ioctl_command env buf = Inr (Some \<lparr>write_cmd = word_of_nat k, write_cmd_offset = word_of_nat i\<rparr>)"

text \<open>What was received up to the first newline is the line or the command of the client.\<close>

fun received_ok :: "session_env \<Rightarrow> byte list \<Rightarrow> (nat \<times> nat) option \<Rightarrow> byte list \<times> byte list option \<Rightarrow> bool" where
  "received_ok env d q (buf, None) = False"
| "received_ok env d None (buf, Some c) = (c = d \<and> take 18 buf \<noteq> ''AESDCHAR_IOCSEEKTO'')"
| "received_ok env d (Some (k, i)) (buf, Some c) = sends_seek env buf k i"

text \<open>
  A seek that succeeds whenever it is carried out: its command is stored, its offset is inside every
  stored command and every line that may be stored, and these fit the buffer with a NUL behind them.
\<close>

definition can_seek :: "client_plan \<Rightarrow> nat \<Rightarrow> byte list list \<Rightarrow> bool" where
  "can_seek P t ls \<longleftrightarrow> (case seek_of P t of None \<Rightarrow> True | Some (k, i) \<Rightarrow>
     k < length ls \<and> (\<forall>c \<in> set ls. i < length c \<and> length c \<le> 1023) \<and>
     (\<forall>u. seek_of P u = None \<longrightarrow> i < length (line_of P u) \<and> length (line_of P u) \<le> 1023))"

section \<open>The invariant\<close>

fun critical :: "thread_pc \<Rightarrow> bool" where
  "critical (Opening d) = True"
| "critical (Writing d) = True"
| "critical (Replying ok) = True"
| "critical Unlocking = True"
| "critical _ = False"

fun had_turn :: "thread_pc \<Rightarrow> bool" where
  "had_turn (Replying ok) = True"
| "had_turn Unlocking = True"
| "had_turn (Marking ok) = True"
| "had_turn Finished = True"
| "had_turn _ = False"

text \<open>What a thread still has to receive or to write is what its client sends.\<close>

fun pc_ok :: "session_env \<Rightarrow> byte list \<Rightarrow> (nat \<times> nat) option \<Rightarrow> thread_pc \<Rightarrow> bool" where
  "pc_ok env d q (Starting chunks) =
     (case thread_buffer env of None \<Rightarrow> False | Some junk \<Rightarrow> received_ok env d q (recv_loop junk chunks))"
| "pc_ok env d q (Receiving buf chunks) = received_ok env d q (recv_loop buf chunks)"
| "pc_ok env d q (Commanding buf) = (case q of None \<Rightarrow> False | Some (k, i) \<Rightarrow> sends_seek env buf k i)"
| "pc_ok env d q (Cleaning stage) = False"
| "pc_ok env d q (Storing c) = (q = None \<and> c = d)"
| "pc_ok env d q (Opening c) = (q = None \<and> c = d)"
| "pc_ok env d q (Writing c) = (q = None \<and> c = d)"
| "pc_ok env d q (Replying ok) = (q = None \<and> ok)"
| "pc_ok env d q Unlocking = (q = None)"
| "pc_ok env d q (Marking ok) = (q = None \<longrightarrow> ok)"
| "pc_ok env d q Finished = True"

definition thread_ok :: "client_plan \<Rightarrow> nat \<Rightarrow> thread_pc \<Rightarrow> bool" where
  "thread_ok P t pc \<longleftrightarrow> env_ok (env_of P t) \<and> (seek_of P t = None \<longrightarrow> good_line (line_of P t)) \<and>
     pc_ok (env_of P t) (line_of P t) (seek_of P t) pc"

text \<open>
  The commands after the given threads had their turn: those that send a line store it. What each of
  them is sent: all the commands, its own included, or those from the place it seeks to, each laid
  over what the buffer of the session held before.
\<close>

definition stored_by :: "client_plan \<Rightarrow> nat \<Rightarrow> byte list list" where
  "stored_by P t = (case seek_of P t of None \<Rightarrow> [line_of P t] | Some q \<Rightarrow> [])"

definition commands :: "client_plan \<Rightarrow> byte list list \<Rightarrow> nat list \<Rightarrow> byte list list" where
  "commands P cs order = keep_last 10 (cs @ concat (map (stored_by P) order))"

definition answer_to :: "client_plan \<Rightarrow> nat \<Rightarrow> byte list list \<Rightarrow> (int \<times> byte list) list" where
  "answer_to P t ls = map (Pair (fd_of P t)) (case seek_of P t of
       None \<Rightarrow> [concat ls]
     | Some (k, i) \<Rightarrow> overlays (replicate 1024 NUL) (drop i (ls ! k) # drop (Suc k) ls))"

definition replies :: "client_plan \<Rightarrow> byte list list \<Rightarrow> nat list \<Rightarrow> (int \<times> byte list) list" where
  "replies P cs order =
     concat (map (\<lambda>i. answer_to P (order ! i) (commands P cs (take (Suc i) order))) [0..<length order])"

text \<open>Every seek of the order succeeded when it had its turn.\<close>

definition turns_ok :: "client_plan \<Rightarrow> byte list list \<Rightarrow> nat list \<Rightarrow> bool" where
  "turns_ok P cs order \<longleftrightarrow> (\<forall>i < length order. can_seek P (order ! i) (commands P cs (take i order)))"

text \<open>Where a thread is; the invariant with the threads in order and the holder of the file mutex.\<close>

definition is_at :: "(nat \<rightharpoonup> thread_pc) \<Rightarrow> nat \<Rightarrow> (thread_pc \<Rightarrow> bool) \<Rightarrow> bool" where
  "is_at pcs t Q \<longleftrightarrow> (case pcs t of None \<Rightarrow> False | Some pc \<Rightarrow> Q pc)"

fun is_replying :: "thread_pc \<Rightarrow> bool" where
  "is_replying (Replying ok) = True"
| "is_replying _ = False"

definition answered :: "(nat \<rightharpoonup> thread_pc) \<Rightarrow> nat option \<Rightarrow> nat list \<Rightarrow> nat list" where
  "answered pcs holder order =
     (case holder of None \<Rightarrow> order
      | Some t \<Rightarrow> if is_at pcs t is_replying then butlast order else order)"

definition order_inv ::
    "client_plan \<Rightarrow> byte list list \<Rightarrow> (int \<times> byte list) list \<Rightarrow> nat list \<Rightarrow> nat option \<Rightarrow>
     (nat \<rightharpoonup> thread_pc) \<Rightarrow> mutex \<Rightarrow> driver \<Rightarrow> (int \<times> byte list) list \<Rightarrow> bool" where
  "order_inv P cs before order holder pcs m dev out \<longleftrightarrow>
     distinct order \<and> (\<forall>t. t \<in> set order \<longleftrightarrow> is_at pcs t had_turn) \<and>
     (\<forall>t pc. pcs t = Some pc \<longrightarrow> thread_ok P t pc \<and> can_seek P t (commands P cs order)) \<and>
     (\<forall>t. holder = Some t \<longleftrightarrow> is_at pcs t critical) \<and> (m = Locked \<longleftrightarrow> holder \<noteq> None) \<and>
     (\<forall>t. holder = Some t \<longrightarrow> is_at pcs t had_turn \<longrightarrow> order \<noteq> [] \<and> last order = t) \<and>
     turns_ok P cs order \<and> represents dev (commands P cs order, []) \<and> NUL \<notin> set (concat cs) \<and>
     out = before @ replies P cs (answered pcs holder order)"

lemma is_at_upd [simp]: "is_at (pcs(t \<mapsto> pc)) u Q \<longleftrightarrow> (if u = t then Q pc else is_at pcs u Q)"
  by (simp add: is_at_def)

lemma is_at_some [simp]: "pcs t = Some pc \<Longrightarrow> is_at pcs t Q = Q pc"
  by (simp add: is_at_def)

lemma is_at_none [simp]: "pcs t = None \<Longrightarrow> \<not> is_at pcs t Q"
  by (simp add: is_at_def)

lemma replies_Nil [simp]: "replies P cs [] = []"
  by (simp add: replies_def)

lemma replies_snoc:
  "replies P cs (order @ [t]) = replies P cs order @ answer_to P t (commands P cs (order @ [t]))"
proof -
  let ?f = "\<lambda>order i. answer_to P (order ! i) (commands P cs (take (Suc i) order))"
  have "map (?f (order @ [t])) [0..<length order] = map (?f order) [0..<length order]"
    by (rule map_cong) (simp_all add: nth_append)
  from arg_cong [OF this, of concat] show ?thesis
    by (simp add: replies_def del: map_eq_conv)
qed

lemma commands_snoc: "commands P cs (order @ [t]) = keep_last 10 (commands P cs order @ stored_by P t)"
  by (simp add: commands_def keep_last_absorb)

lemma commands_seek: "seek_of P t = Some q \<Longrightarrow> commands P cs (order @ [t]) = commands P cs order"
  by (simp add: commands_def stored_by_def)

lemma length_commands: "length (commands P cs order) \<le> 10"
  by (simp add: commands_def)

text \<open>When all of them send lines.\<close>

lemma commands_lines:
  "\<forall>t \<in> set order. seek_of P t = None \<Longrightarrow> commands P cs order = keep_last 10 (cs @ map (line_of P) order)"
proof -
  assume "\<forall>t \<in> set order. seek_of P t = None"
  then have "concat (map (stored_by P) order) = map (line_of P) order"
    by (induction order) (simp_all add: stored_by_def)
  then show ?thesis by (simp add: commands_def)
qed

lemma replies_lines:
  "\<forall>t \<in> set order. seek_of P t = None \<Longrightarrow>
     replies P cs order = map (\<lambda>i. (fd_of P (order ! i),
       concat (keep_last 10 (cs @ map (line_of P) (take (Suc i) order))))) [0..<length order]"
proof (induction order rule: rev_induct)
  case (snoc t order)
  from snoc.prems commands_lines [of "order @ [t]" P cs]
  have "answer_to P t (commands P cs (order @ [t])) =
      [(fd_of P t, concat (keep_last 10 (cs @ map (line_of P) (order @ [t]))))]"
    by (simp add: answer_to_def)
  with snoc show ?case by (simp add: replies_snoc nth_append)
qed simp

text \<open>Seeks that succeed go on to succeed while lines are stored.\<close>

lemma can_seek_snoc:
  assumes "can_seek P u (commands P cs order)"
  shows "can_seek P u (commands P cs (order @ [t]))"
proof (cases "seek_of P t")
  case None
  then have c: "commands P cs (order @ [t]) = keep_last 10 (commands P cs order @ [line_of P t])"
    by (simp add: commands_snoc stored_by_def)
  have len: "length (commands P cs order) \<le> length (commands P cs (order @ [t]))"
    using length_commands [of P cs order] unfolding c by simp
  have sub: "set (commands P cs (order @ [t])) \<subseteq> insert (line_of P t) (set (commands P cs order))"
    using set_keep_last [of 10 "commands P cs order @ [line_of P t]"] unfolding c by simp
  show ?thesis
  proof (cases "seek_of P u")
    case (Some q)
    obtain k i where "q = (k, i)" by (cases q)
    with assms Some None len sub show ?thesis unfolding can_seek_def by auto
  qed (simp add: can_seek_def)
next
  case (Some q)
  with assms show ?thesis by (simp add: commands_seek)
qed

lemma turns_ok_Nil [simp]: "turns_ok P cs []"
  by (simp add: turns_ok_def)

lemma turns_ok_snoc:
  "turns_ok P cs (order @ [t]) \<longleftrightarrow> turns_ok P cs order \<and> can_seek P t (commands P cs order)"
  by (auto simp: turns_ok_def nth_append less_Suc_eq)

section \<open>The steps\<close>

lemma order_inv_start:
  "represents dev (cs, []) \<Longrightarrow> length cs \<le> 10 \<Longrightarrow> NUL \<notin> set (concat cs) \<Longrightarrow>
     order_inv P cs out [] None Map.empty Unlocked dev out"
  by (simp add: order_inv_def commands_def keep_last_short answered_def)

lemma order_inv_pc:
  "order_inv P cs s0 order h pcs m dev out \<Longrightarrow> pcs t = Some pc \<Longrightarrow> thread_ok P t pc"
  by (simp add: order_inv_def)

lemma order_inv_can_seek:
  "order_inv P cs s0 order h pcs m dev out \<Longrightarrow> pcs t = Some pc \<Longrightarrow> can_seek P t (commands P cs order)"
  by (simp add: order_inv_def)

lemma order_inv_represents:
  "order_inv P cs s0 order h pcs m dev out \<Longrightarrow> represents dev (commands P cs order, [])"
  by (simp add: order_inv_def)

lemma order_inv_holder:
  "order_inv P cs s0 order h pcs m dev out \<Longrightarrow> pcs t = Some pc \<Longrightarrow> critical pc \<longleftrightarrow> h = Some t"
  by (simp add: order_inv_def)

text \<open>A new thread, and a step that neither enters nor leaves the critical section nor stores.\<close>

lemma order_inv_new:
  assumes "order_inv P cs s0 order h pcs m dev out" "pcs t = None" "thread_ok P t (Starting chunks)"
    and "can_seek P t (commands P cs order)"
  shows "order_inv P cs s0 order h (pcs(t \<mapsto> Starting chunks)) m dev out"
proof -
  have "h \<noteq> Some t" using assms(1,2) by (simp add: order_inv_def)
  then have "answered (pcs(t \<mapsto> Starting chunks)) h order = answered pcs h order"
    by (auto simp: answered_def split: option.split)
  moreover have "t \<notin> set order" using assms(1,2) by (simp add: order_inv_def)
  ultimately show ?thesis
    using assms \<open>h \<noteq> Some t\<close> unfolding order_inv_def by simp
qed

lemma order_inv_local:
  assumes "order_inv P cs s0 order h pcs m dev out" "pcs t = Some pc"
    and "critical pc' = critical pc" "had_turn pc' = had_turn pc" "is_replying pc' = is_replying pc"
    and "thread_ok P t pc'"
  shows "order_inv P cs s0 order h (pcs(t \<mapsto> pc')) m dev out"
proof -
  have "answered (pcs(t \<mapsto> pc')) h order = answered pcs h order"
    using assms(2,5) by (auto simp: answered_def split: option.split)
  moreover have "is_at (pcs(t \<mapsto> pc')) u critical = is_at pcs u critical"
    "is_at (pcs(t \<mapsto> pc')) u had_turn = is_at pcs u had_turn" for u
    using assms(2-4) by auto
  ultimately show ?thesis
    using assms(1,2,6) unfolding order_inv_def by simp
qed

text \<open>Taking the file mutex.\<close>

lemma order_inv_lock:
  assumes "order_inv P cs s0 order h pcs Unlocked dev out" "pcs t = Some (Storing d)"
  shows "order_inv P cs s0 order (Some t) (pcs(t \<mapsto> Opening d)) Locked dev out"
proof -
  have h: "h = None" and nin: "t \<notin> set order" and none: "\<And>u. \<not> is_at pcs u critical"
    using assms by (auto simp: order_inv_def)
  then have "answered (pcs(t \<mapsto> Opening d)) (Some t) order = answered pcs h order"
    by (simp add: answered_def)
  then show ?thesis
    using assms h nin none order_inv_pc [OF assms] unfolding order_inv_def thread_ok_def
    by (auto split: if_splits)
qed

text \<open>Storing the line: the thread is the next in the order.\<close>

lemma order_inv_write:
  assumes inv: "order_inv P cs s0 order h pcs m dev out" and pc: "pcs t = Some (Writing d)"
    and dev: "represents dev' (commands P cs (order @ [t]), [])"
  shows "order_inv P cs s0 (order @ [t]) h (pcs(t \<mapsto> Replying True)) m dev' out"
proof -
  have h: "h = Some t" and nin: "t \<notin> set order"
    using inv pc order_inv_holder [OF inv pc] by (auto simp: order_inv_def)
  then have "answered (pcs(t \<mapsto> Replying True)) h (order @ [t]) = answered pcs h order"
    using pc by (simp add: answered_def)
  moreover have "is_at (pcs(t \<mapsto> Replying True)) u critical = is_at pcs u critical" for u
    using pc by simp
  moreover have "thread_ok P t (Replying True)"
    using order_inv_pc [OF inv pc] by (simp add: thread_ok_def)
  ultimately show ?thesis
    using inv h nin dev pc can_seek_snoc [of P _ cs order t] order_inv_can_seek [OF inv pc]
    unfolding order_inv_def by (simp add: turns_ok_snoc)
qed

text \<open>A seek command, carried out while nobody is in the critical section: it has its turn at once.\<close>

lemma order_inv_seek:
  assumes inv: "order_inv P cs s0 order h pcs Unlocked dev out" and pc: "pcs t = Some (Commanding buf)"
  shows "order_inv P cs s0 (order @ [t]) h (pcs(t \<mapsto> Marking ok)) Unlocked dev
    (out @ answer_to P t (commands P cs order))"
proof -
  have h: "h = None" and nin: "t \<notin> set order" using inv pc by (auto simp: order_inv_def)
  obtain q where q: "seek_of P t = Some q"
    using order_inv_pc [OF inv pc] by (auto simp: thread_ok_def split: option.splits)
  have "thread_ok P t (Marking ok)"
    using order_inv_pc [OF inv pc] q by (simp add: thread_ok_def)
  moreover have "out = s0 @ replies P cs order" using inv h by (simp add: order_inv_def answered_def)
  moreover have "is_at (pcs(t \<mapsto> Marking ok)) u critical = is_at pcs u critical" for u
    using pc by simp
  ultimately show ?thesis
    using inv h nin pc commands_seek [OF q, of cs order] order_inv_can_seek [OF inv pc] unfolding order_inv_def
    by (simp add: replies_snoc answered_def turns_ok_snoc)
qed

text \<open>The reply is the device as it is, and it is the last in the order.\<close>

lemma order_inv_reply:
  assumes inv: "order_inv P cs s0 order h pcs m dev out" and pc: "pcs t = Some (Replying ok)"
  shows "order_inv P cs s0 order h (pcs(t \<mapsto> Unlocking)) m dev
    (out @ [(fd_of P t, concat (commands P cs order))])"
proof -
  have h: "h = Some t" using order_inv_holder [OF inv pc] by simp
  have q: "seek_of P t = None" using order_inv_pc [OF inv pc] by (simp add: thread_ok_def)
  have last: "order \<noteq> []" "last order = t" and out: "out = s0 @ replies P cs (butlast order)"
    using inv pc h by (auto simp: order_inv_def answered_def)
  have "replies P cs order = replies P cs (butlast order) @ [(fd_of P t, concat (commands P cs order))]"
    using replies_snoc [of P cs "butlast order" t] last q append_butlast_last_id [of order]
    by (simp add: answer_to_def)
  then have "out @ [(fd_of P t, concat (commands P cs order))] =
      s0 @ replies P cs (answered (pcs(t \<mapsto> Unlocking)) h order)"
    by (simp add: answered_def h out)
  moreover have "is_at (pcs(t \<mapsto> Unlocking)) u critical = is_at pcs u critical"
    "is_at (pcs(t \<mapsto> Unlocking)) u had_turn = is_at pcs u had_turn" for u
    using pc by auto
  moreover have "thread_ok P t Unlocking" using order_inv_pc [OF inv pc] by (simp add: thread_ok_def)
  ultimately show ?thesis
    using inv pc unfolding order_inv_def by simp
qed

lemma order_inv_unlock:
  assumes inv: "order_inv P cs s0 order h pcs m dev out" and pc: "pcs t = Some Unlocking"
  shows "order_inv P cs s0 order None (pcs(t \<mapsto> Marking True)) Unlocked dev out"
proof -
  have h: "h = Some t" using order_inv_holder [OF inv pc] by simp
  then have "answered (pcs(t \<mapsto> Marking True)) None order = answered pcs h order"
    using pc by (simp add: answered_def)
  moreover have "is_at (pcs(t \<mapsto> Marking True)) u had_turn = is_at pcs u had_turn" for u
    using pc by simp
  moreover have "is_at pcs u critical \<longleftrightarrow> u = t" for u
    using inv h unfolding order_inv_def by (metis option.inject)
  moreover have "thread_ok P t (Marking True)" using order_inv_pc [OF inv pc] by (simp add: thread_ok_def)
  ultimately show ?thesis
    using inv pc unfolding order_inv_def by simp
qed

text \<open>What is sent back holds no NUL.\<close>

lemma order_inv_no_nul:
  assumes "order_inv P cs s0 order h pcs m dev out"
  shows "NUL \<notin> set (concat (commands P cs order))"
proof -
  have "NUL \<notin> set (concat (stored_by P t))" if "t \<in> set order" for t
  proof -
    have "is_at pcs t had_turn" using assms that by (simp add: order_inv_def)
    then obtain pc where "pcs t = Some pc"
      by (auto simp: is_at_def split: option.splits)
    then show ?thesis using order_inv_pc [OF assms]
      by (auto simp: stored_by_def thread_ok_def good_line_def split: option.split)
  qed
  moreover have "NUL \<notin> set (concat cs)" using assms by (simp add: order_inv_def)
  ultimately show ?thesis
    using set_keep_last [of 10 "cs @ concat (map (stored_by P) order)"] by (fastforce simp: commands_def)
qed

end
