(* ===== verification/Server_Concurrency.thy ===== *)
theory Server_Concurrency
  imports Server_Order
begin

text \<open>
  The process with its threads: which events may happen next, the states they lead to, and the
  invariant of those states. It joins the order of the critical sections to the list of the
  clients that \<open>main\<close> keeps, through acceptance, the sessions, the signal and the end.
\<close>

section \<open>Events\<close>

text \<open>
  What the theorems ask of an event. The allocator and the kernel give addresses and descriptors
  that are not in use. A round that creates a thread also has memory for the node and can lock the
  list, the new thread's calls succeed, and its client sends one line, or seeks to a place that the
  device holds whenever the command is carried out. \<open>client_thread_node\<close>, which the code never sets,
  is not by chance the address of a node.
\<close>

fun event_ok :: "client_plan \<Rightarrow> event \<Rightarrow> process \<Rightarrow> bool" where
  "event_ok P (Accept e chunks) y \<longleftrightarrow>
     (let c = threads (srv (prog y)); t = new_thread e in
      tdata c (data_block e) = None \<and> accepted e \<notin> open_sockets c \<and>
      (creates_thread e (prog y) \<longrightarrow>
         node_block e \<noteq> NULL \<and> node c (node_block e) = None \<and> running y t = None \<and>
         lock_result (round_pthreads e) = 0 \<and> unlock_result (round_pthreads e) = 0 \<and>
         accepted e = fd_of P t \<and> thread_ok P t (Starting chunks) \<and>
         (\<forall>ls p. represents (device (srv (prog y))) (ls, p) \<longrightarrow> can_seek P t ls) \<and>
         (\<forall>t. client_thread_node (env_of P t) \<noteq> node_block e)))"
| "event_ok P _ y \<longleftrightarrow> True"

inductive leads :: "client_plan \<Rightarrow> pthread_env \<Rightarrow> process \<Rightarrow> process \<Rightarrow> bool" for P menv where
  start: "leads P menv y y"
| more: "leads P menv y y' \<Longrightarrow> event_ok P ev y' \<Longrightarrow> perform (env_of P) menv ev y' = Some (Inr y'') \<Longrightarrow>
     leads P menv y y''"

section \<open>The invariant\<close>

definition pcs :: "process \<Rightarrow> nat \<rightharpoonup> thread_pc" where
  "pcs y = (\<lambda>t. map_option snd (running y t))"

abbreviation (input) the_clients :: "process \<Rightarrow> clients" where
  "the_clients y \<equiv> threads (srv (prog y))"

text \<open>From the time \<open>main\<close> holds the list mutex for good, clients leave the list.\<close>

fun joining :: "main_pc \<Rightarrow> bool" where
  "joining (Main_cleaning Joining) = True"
| "joining (Main_cleaning Removing) = True"
| "joining Exited = True"
| "joining _ = False"

definition workers_inv :: "client_plan \<Rightarrow> round list \<Rightarrow> process \<Rightarrow> bool" where
  "workers_inv P es y \<longleftrightarrow>
     clients_inv es (the_clients y) \<and>
     list_mutex (the_clients y) = (if at_main y = Main_cleaning Joining then Locked else Unlocked) \<and>
     (at_main y = Accepting \<longrightarrow> last_node (prog y) = (if es = [] then NULL else node_block (last es))) \<and>
     (at_main y = Main_cleaning Removing \<or> at_main y = Exited \<longrightarrow> es = []) \<and>
     distinct (map data_block es) \<and> distinct (map accepted es) \<and> finite (dom (running y)) \<and>
     (\<forall>e \<in> set es. data_block e \<noteq> NULL \<and> accepted e = fd_of P (new_thread e) \<and>
        (\<forall>t. client_thread_node (env_of P t) \<noteq> node_block e) \<and>
        (\<exists>pc. running y (new_thread e) = Some (data_block e, pc))) \<and>
     (\<forall>t data pc. running y t = Some (data, pc) \<longrightarrow> pc \<noteq> Finished \<or> \<not> joining (at_main y) \<longrightarrow>
        (\<exists>e \<in> set es. new_thread e = t \<and> data_block e = data))"

definition proc_inv :: "client_plan \<Rightarrow> byte list list \<Rightarrow> (int \<times> byte list) list \<Rightarrow> process \<Rightarrow> bool" where
  "proc_inv P cs s0 y \<longleftrightarrow> (\<exists>es order h. workers_inv P es y \<and>
     order_inv P cs s0 order h (pcs y) (file_mutex (srv (prog y))) (device (srv (prog y))) (sent (srv (prog y))))"

text \<open>A result that is fine: a state with the property, or a wait.\<close>

definition fine :: "(process \<Rightarrow> bool) \<Rightarrow> process cres option \<Rightarrow> bool" where
  "fine Q r \<longleftrightarrow> (case r of None \<Rightarrow> False | Some (Inl t) \<Rightarrow> t = Deadlock | Some (Inr y) \<Rightarrow> Q y)"

lemma fine_simps [simp]:
  "\<not> fine Q None" "fine Q (Some (Inl t)) \<longleftrightarrow> t = Deadlock" "fine Q (Some (Inr y)) \<longleftrightarrow> Q y"
  by (simp_all add: fine_def)

lemma fine_result: "fine Q (Some (Inr y)) \<Longrightarrow> Q y" by simp

lemma pcs_upd [simp]: "pcs (y\<lparr>prog := st, running := (running y)(t \<mapsto> (data, pc))\<rparr>) = (pcs y)(t \<mapsto> pc)"
  by (auto simp: pcs_def)

lemma pcs_same [simp]: "pcs (y\<lparr>prog := st\<rparr>) = pcs y" "pcs (y\<lparr>at_main := m\<rparr>) = pcs y"
  by (simp_all add: pcs_def)

lemma pcs_some: "running y t = Some (data, pc) \<Longrightarrow> pcs y t = Some pc"
  by (simp add: pcs_def)

section \<open>The sessions\<close>

text \<open>The data of a running thread.\<close>

lemma worker_data:
  assumes "workers_inv P es y" "running y t = Some (data, pc)" "pc \<noteq> Finished"
  shows "data \<noteq> 0" "\<exists>b. tdata (the_clients y) data = Some \<lparr>td_complete = b, td_clientfd = fd_of P t\<rparr>"
proof -
  obtain e where e: "e \<in> set es" "new_thread e = t" "data_block e = data"
    using assms unfolding workers_inv_def by blast
  with assms(1) show "data \<noteq> 0" "\<exists>b. tdata (the_clients y) data = Some \<lparr>td_complete = b, td_clientfd = fd_of P t\<rparr>"
    by (auto simp: workers_inv_def clients_inv_def)
qed

lemma workers_step:
  assumes inv: "workers_inv P es y" and t: "running y t = Some (data, pc)" "pc \<noteq> Finished"
    and c: "clients_inv es (threads sv)" "list_mutex (threads sv) = list_mutex (the_clients y)"
  shows "workers_inv P es (y\<lparr>prog := (prog y)\<lparr>srv := sv\<rparr>, running := (running y)(t \<mapsto> (data, pc'))\<rparr>)"
proof -
  have "\<exists>e \<in> set es. new_thread e = t \<and> data_block e = data"
    using inv t by (simp add: workers_inv_def)
  then show ?thesis
    using inv c t(1) unfolding workers_inv_def by auto
qed

lemma clients_inv_completed:
  assumes "clients_inv es c"
  shows "clients_inv es (completed data ok c)"
proof (rule clients_inv_cong [OF assms])
  fix e b
  assume "tdata c (data_block e) = Some \<lparr>td_complete = b, td_clientfd = accepted e\<rparr>"
  then show "\<exists>b'. tdata (completed data ok c) (data_block e) = Some \<lparr>td_complete = b', td_clientfd = accepted e\<rparr>"
    by (auto simp: completed_def split: option.split)
qed (use assms in \<open>auto simp: clients_inv_def completed_def split: option.split\<close>)

text \<open>How many steps a thread still has to take, at most.\<close>

fun steps_left :: "thread_pc \<Rightarrow> nat" where
  "steps_left (Starting chunks) = length chunks + 8"
| "steps_left (Receiving buf chunks) = length chunks + 7"
| "steps_left (Commanding buf) = 2"
| "steps_left (Storing d) = 6"
| "steps_left (Opening d) = 5"
| "steps_left (Writing d) = 4"
| "steps_left (Replying ok) = 3"
| "steps_left Unlocking = 2"
| "steps_left (Marking ok) = 1"
| "steps_left _ = 0"

text \<open>When a thread has to wait.\<close>

fun waits :: "server \<Rightarrow> thread_pc \<Rightarrow> bool" where
  "waits sv (Storing d) \<longleftrightarrow> file_mutex sv = Locked"
| "waits sv (Commanding buf) \<longleftrightarrow> file_mutex sv = Locked"
| "waits sv (Marking ok) \<longleftrightarrow> list_mutex (threads sv) = Locked"
| "waits sv Finished \<longleftrightarrow> True"
| "waits sv _ \<longleftrightarrow> False"

text \<open>The outcome of a step: the next place of the thread and the server, with the invariant.\<close>

definition next_ok ::
    "client_plan \<Rightarrow> byte list list \<Rightarrow> (int \<times> byte list) list \<Rightarrow> process \<Rightarrow> nat \<Rightarrow> ptr \<Rightarrow> thread_pc \<Rightarrow>
     (thread_pc \<times> server) cres option \<Rightarrow> bool" where
  "next_ok P cs s0 y t data pc r \<longleftrightarrow> (\<exists>pc' sv. r = Some (Inr (pc', sv)) \<and> steps_left pc' < steps_left pc \<and>
     proc_inv P cs s0 (y\<lparr>prog := (prog y)\<lparr>srv := sv\<rparr>, running := (running y)(t \<mapsto> (data, pc'))\<rparr>))"

lemma next_okI:
  assumes "workers_inv P es y" "running y t = Some (data, pc)" "pc \<noteq> Finished"
    and "steps_left pc' < steps_left pc"
    and "clients_inv es (threads sv)" "list_mutex (threads sv) = list_mutex (the_clients y)"
    and "order_inv P cs s0 order h ((pcs y)(t \<mapsto> pc')) (file_mutex sv) (device sv) (sent sv)"
  shows "next_ok P cs s0 y t data pc (Some (Inr (pc', sv)))"
  unfolding next_ok_def proc_inv_def
  using assms(4,7) workers_step [OF assms(1-3,5,6), of pc'] by auto

text \<open>The state of the sessions as the invariant sees it.\<close>

abbreviation (input) in_order ::
    "client_plan \<Rightarrow> byte list list \<Rightarrow> (int \<times> byte list) list \<Rightarrow> nat list \<Rightarrow> nat option \<Rightarrow> process \<Rightarrow> bool" where
  "in_order P cs s0 order h y \<equiv>
     order_inv P cs s0 order h (pcs y) (file_mutex (srv (prog y))) (device (srv (prog y))) (sent (srv (prog y)))"

lemma proc_invI: "workers_inv P es y \<Longrightarrow> in_order P cs s0 order h y \<Longrightarrow> proc_inv P cs s0 y"
  unfolding proc_inv_def by blast

lemma proc_invE:
  assumes "proc_inv P cs s0 y"
  obtains es order h where "workers_inv P es y" "in_order P cs s0 order h y"
  using assms unfolding proc_inv_def by blast

lemma workers_same: "workers_inv P es y \<Longrightarrow> clients_inv es (the_clients y)"
  by (simp add: workers_inv_def)

lemma step_Starting:
  assumes w: "workers_inv P es y" and ord: "in_order P cs s0 order h y"
    and t: "running y t = Some (data, Starting chunks)"
  shows "next_ok P cs s0 y t data (Starting chunks)
    (thread_step rt t (env_of P t) data (Starting chunks) (srv (prog y)))"
proof -
  obtain junk where junk: "thread_buffer (env_of P t) = Some junk" "thread_ok P t (Receiving junk chunks)"
    using order_inv_pc [OF ord pcs_some [OF t]] by (auto simp: thread_ok_def split: option.splits)
  have "order_inv P cs s0 order h ((pcs y)(t \<mapsto> Receiving junk chunks)) (file_mutex (srv (prog y)))
      (device (srv (prog y))) (sent (srv (prog y)))"
    using junk(2) by (intro order_inv_local [OF ord pcs_some [OF t]]) simp_all
  from next_okI [OF w t _ _ workers_same [OF w] refl this] junk(1) show ?thesis by simp
qed

lemma step_Receiving:
  assumes w: "workers_inv P es y" and ord: "in_order P cs s0 order h y"
    and t: "running y t = Some (data, Receiving buf chunks)"
  shows "next_ok P cs s0 y t data (Receiving buf chunks)
    (thread_step rt t (env_of P t) data (Receiving buf chunks) (srv (prog y)))"
proof -
  have ok: "thread_ok P t (Receiving buf chunks)"
    using order_inv_pc [OF ord pcs_some [OF t]] by simp
  then obtain c rest where c: "chunks = c # rest" by (cases chunks) (simp_all add: thread_ok_def)
  let ?buf = "c @ drop (length c) buf"
  let ?pc = "if newline \<in> set c
    then (if take 18 ?buf = ''AESDCHAR_IOCSEEKTO'' then Commanding ?buf else Storing c) else Receiving ?buf rest"
  obtain td where td: "get_tdata (the_clients y) data = Inr td"
    using worker_data [OF w t] by (auto simp: get_tdata_live)
  have "thread_ok P t ?pc"
    using ok by (cases "seek_of P t")
      (auto simp: c thread_ok_def Let_def sends_seek_def simp del: take_append)
  then have "order_inv P cs s0 order h ((pcs y)(t \<mapsto> ?pc)) (file_mutex (srv (prog y)))
      (device (srv (prog y))) (sent (srv (prog y)))"
    by (intro order_inv_local [OF ord pcs_some [OF t]]) simp_all
  moreover have "thread_step rt t (env_of P t) data (Receiving buf chunks) (srv (prog y)) =
      Some (Inr (?pc, srv (prog y)))"
    using td by (simp add: c Let_def del: take_append)
  ultimately show ?thesis
    using next_okI [OF w t, of ?pc "srv (prog y)"] workers_same [OF w] by (simp add: c del: take_append)
qed

text \<open>A seek command that can be carried out.\<close>

lemma step_Commanding:
  assumes w: "workers_inv P es y" and ord: "in_order P cs s0 order h y"
    and t: "running y t = Some (data, Commanding buf)" and free: "file_mutex (srv (prog y)) = Unlocked"
  shows "next_ok P cs s0 y t data (Commanding buf)
    (thread_step rt t (env_of P t) data (Commanding buf) (srv (prog y)))"
proof -
  let ?sv = "srv (prog y)" and ?ls = "commands P cs order"
  let ?sv' = "?sv\<lparr>sent := sent ?sv @ answer_to P t ?ls\<rparr>"
  have ok: "thread_ok P t (Commanding buf)" using order_inv_pc [OF ord pcs_some [OF t]] .
  then obtain k i where q: "seek_of P t = Some (k, i)" and seek: "sends_seek (env_of P t) buf k i"
    by (auto simp: thread_ok_def split: option.splits)
  have "cmd_malloc (env_of P t)" using seek by (auto simp: sends_seek_def get_ioctl_command_def split: if_splits)
  with ok seek free have ready: "device_ready (env_of P t) ?sv"
    by (simp add: device_ready_def thread_ok_def env_ok_def sends_seek_def)
  have rep: "represents (device ?sv) (?ls, [])" using ord by (simp add: order_inv_def)
  have k: "k < length ?ls" "\<forall>c \<in> set ?ls. i < length c \<and> length c \<le> 1023"
    using order_inv_can_seek [OF ord pcs_some [OF t]] q by (simp_all add: can_seek_def)
  then have "i < length (?ls ! k)" "\<forall>c \<in> set ?ls. length c \<le> 1023" by simp_all
  from handle_ioctl_replies [OF ready rep this(2) k(1) this(1)] seek obtain n where
    "handle_ioctl (env_of P t) (fd_of P t) buf ?sv = Some (Inr (n, ?sv'))"
    by (auto simp: sends_seek_def answer_to_def q)
  moreover obtain b where "get_tdata (the_clients y) data = Inr \<lparr>td_complete = b, td_clientfd = fd_of P t\<rparr>"
    using worker_data [OF w t] by (auto simp: get_tdata_live)
  ultimately have "thread_step rt t (env_of P t) data (Commanding buf) ?sv = Some (Inr (Marking (n = 0), ?sv'))"
    by simp
  with next_okI [OF w t, of "Marking (n = 0)" ?sv'] workers_same [OF w]
    order_inv_seek [OF ord [unfolded free] pcs_some [OF t], of "n = 0"] free
  show ?thesis by simp
qed

lemma step_Storing:
  assumes w: "workers_inv P es y" and ord: "in_order P cs s0 order h y"
    and t: "running y t = Some (data, Storing d)" and free: "file_mutex (srv (prog y)) = Unlocked"
  shows "next_ok P cs s0 y t data (Storing d)
    (thread_step rt t (env_of P t) data (Storing d) (srv (prog y)))"
proof -
  have "env_ok (env_of P t)" using order_inv_pc [OF ord pcs_some [OF t]] by (simp add: thread_ok_def)
  then have "thread_step rt t (env_of P t) data (Storing d) (srv (prog y)) =
      Some (Inr (Opening d, (srv (prog y))\<lparr>file_mutex := Locked\<rparr>))"
    using free by (simp add: env_ok_def lock_file_def)
  with next_okI [OF w t, of "Opening d" "(srv (prog y))\<lparr>file_mutex := Locked\<rparr>"] workers_same [OF w]
    order_inv_lock [OF ord [unfolded free] pcs_some [OF t]]
  show ?thesis by simp
qed

lemma step_Opening:
  assumes w: "workers_inv P es y" and ord: "in_order P cs s0 order h y"
    and t: "running y t = Some (data, Opening d)"
  shows "next_ok P cs s0 y t data (Opening d)
    (thread_step rt t (env_of P t) data (Opening d) (srv (prog y)))"
proof -
  have ok: "fopen_ok (env_of P t)" "thread_ok P t (Writing d)"
    using order_inv_pc [OF ord pcs_some [OF t]] by (simp_all add: thread_ok_def env_ok_def)
  have "order_inv P cs s0 order h ((pcs y)(t \<mapsto> Writing d)) (file_mutex (srv (prog y)))
      (device (srv (prog y))) (sent (srv (prog y)))"
    using ok by (intro order_inv_local [OF ord pcs_some [OF t]]) simp_all
  from next_okI [OF w t _ _ workers_same [OF w] refl this] ok show ?thesis by simp
qed

lemma step_Writing:
  assumes w: "workers_inv P es y" and ord: "in_order P cs s0 order h y"
    and t: "running y t = Some (data, Writing d)"
  shows "next_ok P cs s0 y t data (Writing d)
    (thread_step rt t (env_of P t) data (Writing d) (srv (prog y)))"
proof -
  let ?sv = "srv (prog y)" and ?k = "kernel (env_of P t)"
  have ok: "env_ok (env_of P t)" "good_line (line_of P t)" "d = line_of P t" "stored_by P t = [d]"
    using order_inv_pc [OF ord pcs_some [OF t]] by (simp_all add: thread_ok_def stored_by_def)
  then have line: "is_line d" "length d \<le> 1024" "d \<noteq> []" by (simp_all add: good_line_def is_line_def)
  have "dev_rep (?k, device ?sv) (commands P cs order, [])"
    using ord ok(1) by (simp add: order_inv_def dev_rep_def env_ok_def)
  from store.put_law [OF this line(3)] line(2) obtain x where
    x: "dev_put (?k, device ?sv) d = Inr (True, x)" "dev_rep x (log_write d (commands P cs order, []))"
    by auto
  have "represents (snd x) (commands P cs (order @ [t]), [])"
    using x(2) log_write_line [OF line(1), of "commands P cs order" "[]"] ok(4)
    by (simp add: dev_rep_def commands_snoc)
  from next_okI [OF w t, of "Replying True" "?sv\<lparr>device := snd x\<rparr>"] workers_same [OF w]
    order_inv_write [OF ord pcs_some [OF t] this] x(1)
  show ?thesis by simp
qed

lemma step_Replying:
  assumes w: "workers_inv P es y" and ord: "in_order P cs s0 order h y"
    and t: "running y t = Some (data, Replying ok)"
  shows "next_ok P cs s0 y t data (Replying ok)
    (thread_step rt t (env_of P t) data (Replying ok) (srv (prog y)))"
proof -
  let ?sv = "srv (prog y)" and ?k = "kernel (env_of P t)" and ?out = "concat (commands P cs order)"
  let ?sv' = "?sv\<lparr>device := device ?sv, sent := sent ?sv @ [(fd_of P t, ?out)]\<rparr>"
  have ok: "env_ok (env_of P t)" "ok"
    using order_inv_pc [OF ord pcs_some [OF t]] by (simp_all add: thread_ok_def)
  have "dev_rep (?k, device ?sv) (commands P cs order, [])"
    using ord ok(1) by (simp add: order_inv_def dev_rep_def env_ok_def)
  from store.contents_law [OF this, of "fill (env_of P t)"]
  have "dev_contents (fill (env_of P t)) (?k, device ?sv) = Inr (Some ?out, ?k, device ?sv)" by simp
  moreover obtain b where "get_tdata (the_clients y) data = Inr \<lparr>td_complete = b, td_clientfd = fd_of P t\<rparr>"
    using worker_data [OF w t] by (auto simp: get_tdata_live)
  moreover have "send_lines (buffer_size - 1) ?out = ?out"
    using order_inv_no_nul [OF ord] by (intro send_lines_all) simp_all
  ultimately have "thread_step rt t (env_of P t) data (Replying ok) ?sv = Some (Inr (Unlocking, ?sv'))"
    using ok(2) by (simp add: send_def)
  with next_okI [OF w t, of Unlocking ?sv'] workers_same [OF w] order_inv_reply [OF ord pcs_some [OF t]]
  show ?thesis by simp
qed

lemma step_Unlocking:
  assumes w: "workers_inv P es y" and ord: "in_order P cs s0 order h y"
    and t: "running y t = Some (data, Unlocking)"
  shows "next_ok P cs s0 y t data Unlocking
    (thread_step rt t (env_of P t) data Unlocking (srv (prog y)))"
proof -
  let ?sv = "(srv (prog y))\<lparr>file_mutex := Unlocked\<rparr>"
  have "env_ok (env_of P t)" using order_inv_pc [OF ord pcs_some [OF t]] by (simp add: thread_ok_def)
  then have "thread_step rt t (env_of P t) data Unlocking (srv (prog y)) = Some (Inr (Marking True, ?sv))"
    by (simp add: env_ok_def unlock_file_def)
  with next_okI [OF w t, of "Marking True" ?sv] workers_same [OF w] order_inv_unlock [OF ord pcs_some [OF t]]
  show ?thesis by simp
qed

lemma step_Marking:
  assumes w: "workers_inv P es y" and ord: "in_order P cs s0 order h y"
    and t: "running y t = Some (data, Marking ok)" and free: "list_mutex (the_clients y) = Unlocked"
  shows "next_ok P cs s0 y t data (Marking ok)
    (thread_step rt t (env_of P t) data (Marking ok) (srv (prog y)))"
proof -
  let ?sv = "(srv (prog y))\<lparr>threads := completed data ok (the_clients y)\<rparr>"
  have env: "env_ok (env_of P t)" using order_inv_pc [OF ord pcs_some [OF t]] by (simp add: thread_ok_def)
  have "node_unset (env_of P t) (srv (prog y))"
    using w unfolding node_unset_def workers_inv_def clients_inv_def
    by (intro exI [of _ "map node_block es"]) auto
  with env free worker_data [OF w t] have "finish (env_of P t) data ok (srv (prog y)) = Some (Inr ?sv)"
    by (intro finish_unset) (auto simp: env_ok_def)
  moreover have "order_inv P cs s0 order h ((pcs y)(t \<mapsto> Finished)) (file_mutex (srv (prog y)))
      (device (srv (prog y))) (sent (srv (prog y)))"
    using env order_inv_pc [OF ord pcs_some [OF t]]
    by (intro order_inv_local [OF ord pcs_some [OF t]]) (simp_all add: thread_ok_def)
  ultimately show ?thesis
    using next_okI [OF w t, of Finished ?sv] clients_inv_completed [OF workers_same [OF w], of data ok]
    by simp
qed

text \<open>A thread that need not wait makes a step and keeps the invariant; one that must, waits.\<close>

lemma step_fine:
  assumes w: "workers_inv P es y" and ord: "in_order P cs s0 order h y" and t: "running y t = Some (data, pc)"
  shows "if waits (srv (prog y)) pc
    then thread_step rt t (env_of P t) data pc (srv (prog y)) = Some (Inl Deadlock)
    else next_ok P cs s0 y t data pc (thread_step rt t (env_of P t) data pc (srv (prog y)))"
proof -
  note facts = order_inv_pc [OF ord pcs_some [OF t]]
  have env: "env_ok (env_of P t)" using facts by (simp add: thread_ok_def)
  show ?thesis
  proof (cases pc)
    case (Storing d)
    with env t step_Storing [OF w ord, of t data d rt] show ?thesis
      by (cases "file_mutex (srv (prog y))") (simp_all add: env_ok_def lock_file_def)
  next
    case (Commanding buf)
    obtain td where "get_tdata (the_clients y) data = Inr td"
      using worker_data [OF w t] Commanding by (auto simp: get_tdata_live)
    with Commanding env facts t step_Commanding [OF w ord, of t data buf rt] show ?thesis
      by (cases "file_mutex (srv (prog y))")
        (auto simp: env_ok_def thread_ok_def sends_seek_def handle_ioctl_def lock_file_def split: option.splits)
  next
    case (Marking ok)
    obtain td where "get_tdata (the_clients y) data = Inr td"
      using worker_data [OF w t] Marking by (auto simp: get_tdata_live)
    with Marking env t step_Marking [OF w ord, of t data ok rt] show ?thesis
      by (cases "list_mutex (the_clients y)")
        (simp_all add: env_ok_def finish_def set_thread_complete_success_def lock_list_def)
  next
    case (Cleaning stage)
    with facts show ?thesis by (simp add: thread_ok_def)
  qed (use t step_Starting [OF w ord] step_Receiving [OF w ord] step_Opening [OF w ord]
      step_Writing [OF w ord] step_Replying [OF w ord] step_Unlocking [OF w ord]
      in \<open>simp_all del: thread_step.simps(1-11) add: thread_step.simps(12)\<close>)
qed

end
