(* ===== verification/Server_Process.thy ===== *)
theory Server_Process
  imports Server_Concurrency
begin

text \<open>
  Every event of the process keeps the invariant: a step of a thread, a round of the accept loop,
  the signal, and the steps of \<open>cleanup\<close> in \<open>main\<close>.
\<close>

section \<open>Threads\<close>

lemma perform_Step:
  assumes inv: "proc_inv P cs s0 y" and t: "running y t = Some (data, pc)" and m: "at_main y \<noteq> Exited"
  shows "if waits (srv (prog y)) pc then perform (env_of P) menv (Step t) y = Some (Inl Deadlock)
    else \<exists>pc' y'. perform (env_of P) menv (Step t) y = Some (Inr y') \<and> proc_inv P cs s0 y' \<and>
      steps_left pc' < steps_left pc \<and> running y' = (running y)(t \<mapsto> (data, pc')) \<and> at_main y' = at_main y"
proof -
  obtain es order h where "workers_inv P es y" "in_order P cs s0 order h y"
    using proc_invE [OF inv] .
  from step_fine [OF this t, of "returned y"] t m show ?thesis
    by (auto simp: next_ok_def split: if_splits)
qed

section \<open>The accept loop\<close>

lemma workers_fresh:
  assumes w: "workers_inv P es y" and ok: "event_ok P (Accept e chunks) y"
  shows "data_block e \<notin> data_block ` set es" "accepted e \<notin> accepted ` set es"
    and "creates_thread e (prog y) \<Longrightarrow> node_block e \<notin> node_block ` set es"
proof -
  have used: "node (the_clients y) (node_block x) \<noteq> None \<and> tdata (the_clients y) (data_block x) \<noteq> None \<and>
      accepted x \<in> open_sockets (the_clients y)" if "x \<in> set es" for x
    using w that by (fastforce simp: workers_inv_def clients_inv_def)
  show "data_block e \<notin> data_block ` set es" "accepted e \<notin> accepted ` set es"
    and "creates_thread e (prog y) \<Longrightarrow> node_block e \<notin> node_block ` set es"
    using used ok unfolding event_ok.simps Let_def by (metis imageE)+
qed

lemma workers_accept:
  assumes w: "workers_inv P es y" and m: "at_main y = Accepting" and ok: "event_ok P (Accept e chunks) y"
    and new: "creates_thread e (prog y)"
  shows "\<exists>st. accept_round e (prog y) = Some (Inr st) \<and> keep_running st \<and>
    srv st = (srv (prog y))\<lparr>threads := threads (srv st)\<rparr> \<and>
    workers_inv P (es @ [e]) \<lparr>prog = st,
      running = (running y)(new_thread e \<mapsto> (data_block e, Starting chunks)), at_main = Accepting\<rparr>"
proof -
  let ?c = "the_clients y" and ?t = "new_thread e"
  have inv: "accepted_inv es (prog y)"
    using w m by (simp add: workers_inv_def accepted_inv_def)
  have good: "good_round e" and keep: "keep_running (prog y)"
    using new ok by (auto simp: good_round_def creates_thread_def Let_def)
  note fresh = workers_fresh [OF w ok]
  from accept_round_good [OF inv good keep fresh(3) [OF new] fresh(1)] obtain st where
    st: "accept_round e (prog y) = Some (Inr st)" "accepted_inv (es @ [e]) st" "keep_running st"
      "srv st = (srv (prog y))\<lparr>threads := threads (srv st)\<rparr>"
    by blast
  have t: "running y ?t = None" using ok new by (simp add: Let_def)
  have "workers_inv P (es @ [e]) \<lparr>prog = st, running = (running y)(?t \<mapsto> (data_block e, Starting chunks)),
      at_main = Accepting\<rparr>"
    using w m st(2) fresh(1,2) ok new t unfolding workers_inv_def accepted_inv_def
    by (auto simp: creates_thread_def Let_def)
  with st show ?thesis by blast
qed

lemma workers_idle:
  assumes w: "workers_inv P es y" and m: "at_main y = Accepting" and ok: "event_ok P (Accept e chunks) y"
    and idle: "\<not> creates_thread e (prog y)"
  shows "\<exists>st. accept_round e (prog y) = Some (Inr st) \<and> srv st = (srv (prog y))\<lparr>threads := threads (srv st)\<rparr> \<and>
    workers_inv P es \<lparr>prog = st, running = running y,
      at_main = (if keep_running st then Accepting else Main_cleaning Checking)\<rparr>"
proof -
  have inv: "accepted_inv es (prog y)"
    using w m by (simp add: workers_inv_def accepted_inv_def)
  from accept_round_idle [OF inv idle workers_fresh(1,2) [OF w ok]] obtain st where
    st: "accept_round e (prog y) = Some (Inr st)" "accepted_inv es st"
      "srv st = (srv (prog y))\<lparr>threads := threads (srv st)\<rparr>"
    by blast
  have "workers_inv P es \<lparr>prog = st, running = running y,
      at_main = (if keep_running st then Accepting else Main_cleaning Checking)\<rparr>"
    using w m st(2) unfolding workers_inv_def accepted_inv_def by simp
  with st show ?thesis by blast
qed

lemma perform_Accept:
  assumes inv: "proc_inv P cs s0 y" and ok: "event_ok P (Accept e chunks) y"
  shows "fine (proc_inv P cs s0) (perform (env_of P) menv (Accept e chunks) y)"
proof (cases "at_main y = Accepting")
  case True
  obtain es order h where w: "workers_inv P es y" and ord: "in_order P cs s0 order h y"
    using proc_invE [OF inv] .
  show ?thesis
  proof (cases "creates_thread e (prog y)")
    case new: True
    let ?t = "new_thread e"
    from workers_accept [OF w True ok new] obtain st where st: "accept_round e (prog y) = Some (Inr st)"
        "keep_running st" "srv st = (srv (prog y))\<lparr>threads := threads (srv st)\<rparr>"
        "workers_inv P (es @ [e]) \<lparr>prog = st,
          running = (running y)(?t \<mapsto> (data_block e, Starting chunks)), at_main = Accepting\<rparr>"
      by blast
    let ?y = "\<lparr>prog = st, running = (running y)(?t \<mapsto> (data_block e, Starting chunks)), at_main = Accepting\<rparr>"
    have same: "file_mutex (srv st) = file_mutex (srv (prog y))" "device (srv st) = device (srv (prog y))"
        "sent (srv st) = sent (srv (prog y))"
      by (simp_all add: arg_cong [OF st(3), of file_mutex] arg_cong [OF st(3), of device] arg_cong [OF st(3), of sent])
    have "pcs y ?t = None" using ok new by (simp add: Let_def pcs_def)
    moreover have "pcs ?y = (pcs y)(?t \<mapsto> Starting chunks)" by (auto simp: pcs_def)
    ultimately have "in_order P cs s0 order h ?y"
      using order_inv_new [OF ord, of ?t chunks] order_inv_represents [OF ord] ok new by (auto simp: same Let_def)
    with st(4) have "proc_inv P cs s0 ?y" by (rule proc_invI)
    with True new st(1,2) show ?thesis by simp
  next
    case idle: False
    from workers_idle [OF w True ok idle] obtain st where st: "accept_round e (prog y) = Some (Inr st)"
        "srv st = (srv (prog y))\<lparr>threads := threads (srv st)\<rparr>"
        "workers_inv P es \<lparr>prog = st, running = running y,
          at_main = (if keep_running st then Accepting else Main_cleaning Checking)\<rparr>"
      by blast
    let ?y = "\<lparr>prog = st, running = running y, at_main = (if keep_running st then Accepting else Main_cleaning Checking)\<rparr>"
    have same: "file_mutex (srv st) = file_mutex (srv (prog y))" "device (srv st) = device (srv (prog y))"
        "sent (srv st) = sent (srv (prog y))"
      by (simp_all add: arg_cong [OF st(2), of file_mutex] arg_cong [OF st(2), of device] arg_cong [OF st(2), of sent])
    have "in_order P cs s0 order h ?y" using ord by (simp add: same pcs_def)
    with st(3) have "proc_inv P cs s0 ?y" by (rule proc_invI)
    with True idle st(1) show ?thesis by simp
  qed
qed simp

lemma perform_Signal:
  assumes "proc_inv P cs s0 y"
  shows "fine (proc_inv P cs s0) (perform (env_of P) menv Signal y)"
proof -
  let ?y = "y\<lparr>prog := end_program_singal (prog y)\<rparr>"
  obtain es order h where "workers_inv P es y" "in_order P cs s0 order h y"
    using proc_invE [OF assms] .
  then have "workers_inv P es ?y" "in_order P cs s0 order h ?y"
    by (simp_all add: workers_inv_def end_program_singal_def)
  then have "proc_inv P cs s0 ?y" by (rule proc_invI)
  then show ?thesis by simp
qed

lemma perform_Leave:
  assumes "proc_inv P cs s0 y"
  shows "fine (proc_inv P cs s0) (perform (env_of P) menv Leave y)"
proof (cases "at_main y = Accepting")
  case True
  let ?y = "y\<lparr>at_main := Main_cleaning Checking\<rparr>"
  obtain es order h where "workers_inv P es y" "in_order P cs s0 order h y"
    using proc_invE [OF assms] .
  with True have "workers_inv P es ?y" "in_order P cs s0 order h ?y"
    by (simp_all add: workers_inv_def)
  then have "proc_inv P cs s0 ?y" by (rule proc_invI)
  then show ?thesis by simp
qed simp

section \<open>cleanup\<close>

text \<open>The first node of the list, joined, is taken out and freed with its thread's data.\<close>

lemma reap_first:
  assumes "clients_inv (e # es) c" "data_block e \<noteq> 0" "join_result env (new_thread e) = Some (0, data_block e)"
    and "distinct (map data_block (e # es))" "distinct (map accepted (e # es))"
  shows "\<exists>c'. reap env NULL (slh_first c) c = Some (Inr c') \<and>
    clients_inv es c' \<and> list_mutex c' = list_mutex c \<and> node c' = (node c)(node_block e := None) \<and>
    tdata c' = (tdata c)(data_block e := None) \<and> open_sockets c' = open_sockets c - {accepted e}"
proof -
  obtain n b where n: "node c (node_block e) = Some n" "thread_id n = new_thread e"
      and td: "tdata c (data_block e) = Some \<lparr>td_complete = b, td_clientfd = accepted e\<rparr>"
    using assms(1) by (auto simp: clients_inv_def)
  have first: "slh_first c = node_block e" "node_block e \<noteq> 0" and rest: "seg (node c) (sle_next n) (map node_block es) 0"
      "node_block e \<notin> node_block ` set es" "distinct (map node_block es)"
    using assms(1) n by (auto simp: clients_inv_def list_ok_def)
  let ?c = "c\<lparr>slh_first := sle_next n, node := (node c)(node_block e := None),
      tdata := (tdata c)(data_block e := None), open_sockets := open_sockets c - {accepted e}\<rparr>"
  have "reap env NULL (slh_first c) c = Some (Inr ?c)"
    using n first td assms(2,3)
    by (simp add: reap_def slist_simps SLIST_REMOVE_def free_node_def get_tdata_def free_tdata_def close_socket_def)
  moreover have "clients_inv es ?c"
  proof -
    have "node_block x \<noteq> node_block e \<and> data_block x \<noteq> data_block e \<and> accepted x \<noteq> accepted e" if "x \<in> set es" for x
      using that assms(4,5) rest(2) by (auto simp: image_iff)
    with assms(1) rest show ?thesis
      by (simp add: clients_inv_def list_ok_def seg_upd)
  qed
  ultimately show ?thesis by (intro exI [of _ ?c]) simp
qed

text \<open>
  The steps of \<open>cleanup\<close> in \<open>main\<close>: each keeps the invariant with the clients that are left and
  touches neither the device nor what was sent.
\<close>

definition clean_ok :: "client_plan \<Rightarrow> process \<Rightarrow> (cleaning option \<times> server) cres option \<Rightarrow> bool" where
  "clean_ok P y r \<longleftrightarrow> (\<exists>stage sv es. r = Some (Inr (stage, sv)) \<and>
     file_mutex sv = file_mutex (srv (prog y)) \<and> device sv = device (srv (prog y)) \<and> sent sv = sent (srv (prog y)) \<and>
     workers_inv P es (y\<lparr>prog := (prog y)\<lparr>srv := sv\<rparr>,
        at_main := (case stage of None \<Rightarrow> Exited | Some s \<Rightarrow> Main_cleaning s)\<rparr>))"

lemma clean_okI:
  "workers_inv P es (y\<lparr>prog := (prog y)\<lparr>srv := sv\<rparr>,
        at_main := (case stage of None \<Rightarrow> Exited | Some s \<Rightarrow> Main_cleaning s)\<rparr>) \<Longrightarrow>
     file_mutex sv = file_mutex (srv (prog y)) \<Longrightarrow> device sv = device (srv (prog y)) \<Longrightarrow>
     sent sv = sent (srv (prog y)) \<Longrightarrow> clean_ok P y (Some (Inr (stage, sv)))"
  unfolding clean_ok_def by blast

lemma clean_Checking:
  assumes w: "workers_inv P es y" and m: "at_main y = Main_cleaning Checking"
    and env: "lock_result menv = 0" "unlock_result menv = 0"
  shows "clean_step rt None menv Checking (srv (prog y)) = Some (Inr (Some Locking, srv (prog y)))"
    and "clean_ok P y (clean_step rt None menv Checking (srv (prog y)))"
proof -
  have "check_completed_threads (menv\<lparr>join_result := pthread_join rt None\<rparr>) (the_clients y) = Some (Inr (the_clients y))"
    using w m env
    by (intro check_completed_none [of _ "map node_block es"]) (auto simp: workers_inv_def clients_inv_def)
  then show step: "clean_step rt None menv Checking (srv (prog y)) = Some (Inr (Some Locking, srv (prog y)))"
    by simp
  have "workers_inv P es (y\<lparr>prog := (prog y)\<lparr>srv := srv (prog y)\<rparr>, at_main := Main_cleaning Locking\<rparr>)"
    using w m by (simp add: workers_inv_def)
  then show "clean_ok P y (clean_step rt None menv Checking (srv (prog y)))"
    unfolding step by (intro clean_okI [of _ es]) simp_all
qed

lemma clean_Locking:
  assumes w: "workers_inv P es y" and m: "at_main y = Main_cleaning Locking" and env: "lock_result menv = 0"
  shows "clean_ok P y (clean_step rt None menv Locking (srv (prog y)))"
proof -
  let ?sv = "(srv (prog y))\<lparr>threads := (the_clients y)\<lparr>list_mutex := Locked\<rparr>\<rparr>"
  have step: "clean_step rt None menv Locking (srv (prog y)) = Some (Inr (Some Joining, ?sv))"
    using w m env by (simp add: workers_inv_def lock_list_def)
  have "workers_inv P es (y\<lparr>prog := (prog y)\<lparr>srv := ?sv\<rparr>, at_main := Main_cleaning Joining\<rparr>)"
    using w m by (simp add: workers_inv_def)
  then show ?thesis unfolding step by (intro clean_okI [of _ es]) simp_all
qed

lemma clean_Joining_none:
  assumes w: "workers_inv P [] y" and m: "at_main y = Main_cleaning Joining" and env: "unlock_result menv = 0"
  shows "clean_ok P y (clean_step rt None menv Joining (srv (prog y)))"
proof -
  let ?sv = "(srv (prog y))\<lparr>threads := (the_clients y)\<lparr>list_mutex := Unlocked\<rparr>\<rparr>"
  have step: "clean_step rt None menv Joining (srv (prog y)) = Some (Inr (Some Removing, ?sv))"
    using w env by (simp add: workers_inv_def clients_inv_def list_ok_def SLIST_EMPTY_def unlock_list_def)
  have "workers_inv P [] (y\<lparr>prog := (prog y)\<lparr>srv := ?sv\<rparr>, at_main := Main_cleaning Removing\<rparr>)"
    using w m by (simp add: workers_inv_def)
  then show ?thesis unfolding step by (intro clean_okI [of _ "[]"]) simp_all
qed

text \<open>The join of a running thread waits, the join of a thread that has returned frees its node.\<close>

lemma clean_Joining_step:
  assumes w: "workers_inv P (e # es) y"
  shows "clean_step rt None menv Joining (srv (prog y)) =
    (case rt (new_thread e) of None \<Rightarrow> Some (Inl Deadlock)
     | Some d \<Rightarrow> map_option (\<lambda>r. cbind r (\<lambda>c. Inr (Some Joining, (srv (prog y))\<lparr>threads := c\<rparr>)))
         (reap (menv\<lparr>join_result := pthread_join rt None\<rparr>) NULL (slh_first (the_clients y)) (the_clients y)))"
proof -
  obtain n where "slh_first (the_clients y) = node_block e" "node_block e \<noteq> 0"
      "node (the_clients y) (node_block e) = Some n" "thread_id n = new_thread e"
    using w by (auto simp: workers_inv_def clients_inv_def list_ok_def)
  then show ?thesis
    by (simp add: SLIST_EMPTY_def slist_simps pthread_join_def reap_def split: option.split)
qed

lemma clean_Joining_first:
  assumes w: "workers_inv P (e # es) y" and m: "at_main y = Main_cleaning Joining"
    and fin: "returned y (new_thread e) = Some d"
  shows "clean_ok P y (clean_step (returned y) None menv Joining (srv (prog y)))"
proof -
  let ?env = "menv\<lparr>join_result := pthread_join (returned y) None\<rparr>"
  have e: "data_block e \<noteq> 0" "distinct (map data_block (e # es))" "distinct (map accepted (e # es))"
    using w unfolding workers_inv_def by (simp, blast+)
  obtain pc where "running y (new_thread e) = Some (data_block e, pc)"
    using w by (auto simp: workers_inv_def)
  with fin have d: "d = data_block e" "running y (new_thread e) = Some (data_block e, Finished)"
    by (auto simp: returned_def split: thread_pc.splits)
  have "clients_inv (e # es) (the_clients y)" using w by (simp add: workers_inv_def)
  from reap_first [OF this e(1) _ e(2,3), of ?env] obtain c where
    c: "reap ?env NULL (slh_first (the_clients y)) (the_clients y) = Some (Inr c)"
      "clients_inv es c" "list_mutex c = list_mutex (the_clients y)"
    using fin d(1) by (auto simp: pthread_join_def)
  let ?sv = "(srv (prog y))\<lparr>threads := c\<rparr>"
  have step: "clean_step (returned y) None menv Joining (srv (prog y)) = Some (Inr (Some Joining, ?sv))"
    using c(1) fin by (simp add: clean_Joining_step [OF w] del: clean_step.simps)
  have "workers_inv P es (y\<lparr>prog := (prog y)\<lparr>srv := ?sv\<rparr>, at_main := Main_cleaning Joining\<rparr>)"
    using w m c(2,3) d(2) unfolding workers_inv_def by (auto, fastforce)
  then show ?thesis unfolding step by (intro clean_okI [of _ es]) simp_all
qed

lemma clean_Removing:
  assumes w: "workers_inv P es y" and m: "at_main y = Main_cleaning Removing"
  shows "clean_ok P y (clean_step rt None menv Removing (srv (prog y)))"
proof -
  let ?sv = "(srv (prog y))\<lparr>device_file := False, listening := False\<rparr>"
  have "es = []" using w m by (simp add: workers_inv_def)
  with w m have "workers_inv P es (y\<lparr>prog := (prog y)\<lparr>srv := ?sv\<rparr>, at_main := Exited\<rparr>)"
    by (simp add: workers_inv_def)
  then show ?thesis unfolding clean_step.simps by (intro clean_okI [of _ es]) simp_all
qed

text \<open>\<open>main\<close> has to wait only for the join of the first client that is left.\<close>

definition join_waits :: "process \<Rightarrow> bool" where
  "join_waits y \<longleftrightarrow> at_main y = Main_cleaning Joining \<and> slh_first (the_clients y) \<noteq> NULL \<and>
     (\<exists>n. node (the_clients y) (slh_first (the_clients y)) = Some n \<and> returned y (thread_id n) = None)"

lemma perform_Clean:
  assumes inv: "proc_inv P cs s0 y" and m: "at_main y = Main_cleaning stage"
    and env: "lock_result menv = 0" "unlock_result menv = 0"
  shows "if join_waits y then perform (env_of P) menv Clean y = Some (Inl Deadlock)
    else \<exists>y'. perform (env_of P) menv Clean y = Some (Inr y') \<and> proc_inv P cs s0 y' \<and> running y' = running y"
proof -
  obtain es order h where w: "workers_inv P es y" and ord: "in_order P cs s0 order h y"
    using proc_invE [OF inv] .
  have go: "\<exists>y'. perform (env_of P) menv Clean y = Some (Inr y') \<and> proc_inv P cs s0 y' \<and> running y' = running y"
    if ok: "clean_ok P y (clean_step (returned y) None menv stage (srv (prog y)))"
  proof -
    obtain nxt sv es' where r: "clean_step (returned y) None menv stage (srv (prog y)) = Some (Inr (nxt, sv))"
        "file_mutex sv = file_mutex (srv (prog y))" "device sv = device (srv (prog y))" "sent sv = sent (srv (prog y))"
        "workers_inv P es' (y\<lparr>prog := (prog y)\<lparr>srv := sv\<rparr>,
           at_main := (case nxt of None \<Rightarrow> Exited | Some s \<Rightarrow> Main_cleaning s)\<rparr>)"
      using ok by (auto simp: clean_ok_def)
    have "proc_inv P cs s0 (y\<lparr>prog := (prog y)\<lparr>srv := sv\<rparr>,
        at_main := (case nxt of None \<Rightarrow> Exited | Some s \<Rightarrow> Main_cleaning s)\<rparr>)"
      using ord r(2-4) by (intro proc_invI [OF r(5)]) (simp add: pcs_def)
    with m r(1) show ?thesis by simp
  qed
  show ?thesis
  proof (cases "stage = Joining")
    case False
    then have "\<not> join_waits y" using m by (simp add: join_waits_def)
    moreover have "clean_ok P y (clean_step (returned y) None menv stage (srv (prog y)))"
      using False m clean_Checking(2) [OF w _ env] clean_Locking [OF w _ env(1)] clean_Removing [OF w]
      by (cases stage) blast+
    ultimately show ?thesis using go by simp
  next
    case True
    show ?thesis
    proof (cases es)
      case Nil
      with w have "\<not> join_waits y" by (simp add: join_waits_def workers_inv_def clients_inv_def list_ok_def)
      with go clean_Joining_none [of P y menv] w m env(2) True Nil show ?thesis by simp
    next
      case (Cons e rest)
      have "join_waits y \<longleftrightarrow> returned y (new_thread e) = None"
        using w m True by (auto simp: join_waits_def workers_inv_def clients_inv_def list_ok_def Cons)
      moreover have "perform (env_of P) menv Clean y = Some (Inl Deadlock)" if "returned y (new_thread e) = None"
        using m True that clean_Joining_step [OF w [unfolded Cons], of "returned y" menv]
        by (simp del: clean_step.simps)
      ultimately show ?thesis
        using go clean_Joining_first [OF w [unfolded Cons], of _ menv] m True by auto
    qed
  qed
qed

section \<open>Every event\<close>

lemma event_fine:
  assumes inv: "proc_inv P cs s0 y" and ok: "event_ok P ev y"
    and env: "lock_result menv = 0" "unlock_result menv = 0"
  shows "fine (proc_inv P cs s0) (perform (env_of P) menv ev y)"
proof (cases ev)
  case (Step t)
  show ?thesis
  proof (cases "at_main y = Exited \<or> running y t = None")
    case False
    then obtain data pc where "running y t = Some (data, pc)" by auto
    with perform_Step [OF inv this, of menv] False Step show ?thesis
      by (auto split: if_splits simp del: perform.simps)
  qed (auto simp: Step)
next
  case Clean
  show ?thesis
  proof (cases "\<exists>stage. at_main y = Main_cleaning stage")
    case True
    with perform_Clean [OF inv _ env] Clean show ?thesis
      by (auto split: if_splits simp del: perform.simps)
  qed (auto simp: Clean split: main_pc.split)
qed (use ok inv perform_Accept perform_Signal perform_Leave in blast)+

lemma leads_inv:
  assumes "leads P menv y y'" "proc_inv P cs s0 y" "lock_result menv = 0" "unlock_result menv = 0"
  shows "proc_inv P cs s0 y'"
  using assms(1,2)
proof (induction rule: leads.induct)
  case (more y y' ev y'')
  then show ?case using event_fine [of P cs s0 y' ev menv] assms(3,4) by simp
qed

end
