(* ===== verification/Server_Outcome.thy ===== *)
theory Server_Outcome
  imports Server_Process
begin

text \<open>
  Where the events start and lead: \<open>main\<close> enters its loop ready to serve; threads always get on
  while the list mutex is free, and take a bounded number of steps; the end of \<open>main\<close> releases
  everything once all threads have returned, and never comes when a thread is still running.
\<close>

section \<open>Starting\<close>

definition ready_to_serve :: "byte list list \<Rightarrow> program \<Rightarrow> bool" where
  "ready_to_serve cs st \<longleftrightarrow> accepted_inv [] st \<and> keep_running st \<and> file_mutex (srv st) = Unlocked \<and>
     represents (device (srv st)) (cs, []) \<and> length cs \<le> 10 \<and> NUL \<notin> set (concat cs)"

lemma serving_inv:
  assumes "ready_to_serve cs st"
  shows "proc_inv P cs (sent (srv st)) (serving st)"
proof (rule proc_invI)
  show "workers_inv P [] (serving st)"
    using assms by (simp add: workers_inv_def ready_to_serve_def accepted_inv_def serving_def)
  have "pcs (serving st) = Map.empty" by (auto simp: pcs_def serving_def)
  with assms show "in_order P cs (sent (srv st)) [] None (serving st)"
    by (simp add: ready_to_serve_def serving_def order_inv_start)
qed

text \<open>\<open>main\<close> whose setup succeeds enters its loop ready to serve, with the device as it was.\<close>

lemma main_ready_to_serve:
  assumes "setup_ok env argv" and "keep_running st" and "list_mutex (threads (srv st)) = Unlocked"
    and "file_mutex (srv st) = Unlocked" and "represents (device (srv st)) (cs, [])"
    and "length cs \<le> 10" and "NUL \<notin> set (concat cs)"
  shows "ready_to_serve cs (at_loop st)" and "sent (srv (at_loop st)) = sent (srv st)"
    and "main env argv rounds st =
      (case accept_loop rounds (at_loop st) of None \<Rightarrow> None | Some (Inl t) \<Rightarrow> Some (Inl t)
       | Some (Inr st') \<Rightarrow> exit_cleanup env 0 st')"
  using assms main_runs [OF assms(1)]
  by (simp_all add: ready_to_serve_def accepted_inv_def clients_inv_def list_ok_def at_loop_def)

text \<open>The accept loop of the sequential model is the events of its rounds, without steps of threads.\<close>

lemma accept_loop_is_run:
  "accept_loop es st = Some (Inr st') \<Longrightarrow> keep_running st \<Longrightarrow> prog y = st \<Longrightarrow> at_main y = Accepting \<Longrightarrow>
     \<exists>n y'. run envs menv (map (\<lambda>e. Accept e (chunks e)) (take n es)) y = Some (Inr y') \<and>
       prog y' = st' \<and> at_main y' = Main_cleaning Checking"
proof (induction es arbitrary: st y)
  case Nil
  then show ?case by (simp add: accept_loop.simps)
next
  case (Cons e es)
  then obtain st1 where st1: "accept_round e st = Some (Inr st1)" "accept_loop es st1 = Some (Inr st')"
    by (auto simp: accept_loop.simps [of "e # es"] split: option.splits sum.splits)
  obtain y1 where y1: "perform envs menv (Accept e (chunks e)) y = Some (Inr y1)" "prog y1 = st1"
      "at_main y1 = (if keep_running st1 then Accepting else Main_cleaning Checking)"
    using Cons.prems(3,4) st1(1) by simp
  show ?case
  proof (cases "keep_running st1")
    case True
    with Cons.IH [OF st1(2) True y1(2)] y1(3) obtain n y' where
      "run envs menv (map (\<lambda>e. Accept e (chunks e)) (take n es)) y1 = Some (Inr y')"
      "prog y' = st'" "at_main y' = Main_cleaning Checking"
      by auto
    with y1(1) show ?thesis
      by (intro exI [of _ "Suc n"] exI [of _ y']) (simp del: perform.simps)
  next
    case False
    with st1(2) have "st' = st1" by (simp add: accept_loop.simps)
    with False y1 show ?thesis
      by (intro exI [of _ 1] exI [of _ y1]) (simp del: perform.simps)
  qed
qed

section \<open>Progress\<close>

lemma perform_Step_form:
  assumes "perform envs menv (Step t) y = Some (Inr y')"
  shows "\<exists>d pc pc' sv. at_main y \<noteq> Exited \<and> running y t = Some (d, pc) \<and>
    thread_step (returned y) t (envs t) d pc (srv (prog y)) = Some (Inr (pc', sv)) \<and>
    y' = y\<lparr>prog := (prog y)\<lparr>srv := sv\<rparr>, running := (running y)(t \<mapsto> (d, pc'))\<rparr>"
proof -
  have "at_main y \<noteq> Exited" "running y t \<noteq> None" using assms by (auto split: if_splits option.splits)
  then obtain d pc where t: "running y t = Some (d, pc)" by auto
  with assms \<open>at_main y \<noteq> Exited\<close> obtain pc' sv where
    "thread_step (returned y) t (envs t) d pc (srv (prog y)) = Some (Inr (pc', sv))"
    "y' = y\<lparr>prog := (prog y)\<lparr>srv := sv\<rparr>, running := (running y)(t \<mapsto> (d, pc'))\<rparr>"
    by (auto simp: cres_simps)
  with t \<open>at_main y \<noteq> Exited\<close> show ?thesis by blast
qed

definition all_finished :: "process \<Rightarrow> bool" where
  "all_finished y \<longleftrightarrow> (\<forall>t data pc. running y t = Some (data, pc) \<longrightarrow> pc = Finished)"

definition work :: "process \<Rightarrow> nat" where
  "work y = (\<Sum>t \<in> dom (running y). case running y t of None \<Rightarrow> 0 | Some (data, pc) \<Rightarrow> steps_left pc)"

lemma proc_inv_finite: "proc_inv P cs s0 y \<Longrightarrow> finite (dom (running y))"
  by (auto simp: proc_inv_def workers_inv_def)

lemma critical_goes_on: "critical pc \<Longrightarrow> \<not> waits sv pc"
  by (cases pc) simp_all

text \<open>The holder of the file mutex can go on; when nobody holds it, everybody can.\<close>

lemma someone_goes_on:
  assumes inv: "proc_inv P cs s0 y" and busy: "\<not> all_finished y"
    and free: "list_mutex (the_clients y) = Unlocked"
  shows "\<exists>t data pc. running y t = Some (data, pc) \<and> \<not> waits (srv (prog y)) pc"
proof -
  obtain es order h where ord: "in_order P cs s0 order h y" using proc_invE [OF inv] .
  obtain t data pc where t: "running y t = Some (data, pc)" "pc \<noteq> Finished"
    using busy by (auto simp: all_finished_def)
  show ?thesis
  proof (cases h)
    case None
    then have "file_mutex (srv (prog y)) = Unlocked"
      using ord by (cases "file_mutex (srv (prog y))") (simp_all add: order_inv_def)
    with t(2) free have "\<not> waits (srv (prog y)) pc" by (cases pc) simp_all
    with t(1) show ?thesis by blast
  next
    case (Some u)
    then have "is_at (pcs y) u critical" using ord by (auto simp: order_inv_def)
    then obtain d pc' where "running y u = Some (d, pc')" "critical pc'"
      by (auto simp: is_at_def pcs_def split: option.splits)
    then show ?thesis using critical_goes_on by blast
  qed
qed

lemma work_upd:
  assumes "finite (dom (running y))" "running y t = Some (data, pc)" "steps_left pc' < steps_left pc"
    and "running y' = (running y)(t \<mapsto> (data, pc'))"
  shows "work y' < work y"
proof -
  let ?f = "\<lambda>r t. case r t of None \<Rightarrow> 0 | Some (data :: nat, pc) \<Rightarrow> steps_left pc"
  have "dom (running y') = dom (running y)" using assms(2,4) by auto
  moreover have "(\<Sum>u \<in> dom (running y). ?f (running y') u) < (\<Sum>u \<in> dom (running y). ?f (running y) u)"
    using assms by (intro sum_strict_mono_ex1) (auto intro!: bexI [of _ t])
  ultimately show ?thesis by (simp add: work_def)
qed

lemma perform_Step_work:
  assumes inv: "proc_inv P cs s0 y" and step: "perform (env_of P) menv (Step t) y = Some (Inr y')"
  shows "proc_inv P cs s0 y'" "work y' < work y" "at_main y' = at_main y"
proof -
  obtain data pc where t: "running y t = Some (data, pc)" and m: "at_main y \<noteq> Exited"
    using perform_Step_form [OF step] by blast
  obtain pc' where y': "proc_inv P cs s0 y'" "steps_left pc' < steps_left pc"
      "running y' = (running y)(t \<mapsto> (data, pc'))" "at_main y' = at_main y"
    using perform_Step [OF inv t m, of menv] step
    by (auto split: if_splits simp del: perform.simps)
  show "proc_inv P cs s0 y'" "work y' < work y" "at_main y' = at_main y"
    using y' work_upd [OF proc_inv_finite [OF inv] t y'(2,3)] by simp_all
qed

lemma run_steps_work:
  "proc_inv P cs s0 y \<Longrightarrow> run (env_of P) menv (map Step ts) y = Some (Inr y') \<Longrightarrow>
     proc_inv P cs s0 y' \<and> length ts + work y' \<le> work y \<and> at_main y' = at_main y"
proof (induction ts arbitrary: y)
  case (Cons t ts)
  from Cons.prems(2) obtain y1 where y1: "perform (env_of P) menv (Step t) y = Some (Inr y1)"
      "run (env_of P) menv (map Step ts) y1 = Some (Inr y')"
    by (auto split: option.splits sum.splits simp del: perform.simps)
  note step = perform_Step_work [OF Cons.prems(1) y1(1)]
  from Cons.IH [OF step(1) y1(2)] step(2,3) show ?case by simp
qed simp

lemma list_mutex_free: "proc_inv P cs s0 y \<Longrightarrow> at_main y \<noteq> Main_cleaning Joining \<Longrightarrow> list_mutex (the_clients y) = Unlocked"
  by (auto simp: proc_inv_def workers_inv_def)

lemma step_enabled:
  assumes "proc_inv P cs s0 y" "\<not> joining (at_main y)" "\<not> all_finished y"
  shows "\<exists>t y'. perform (env_of P) menv (Step t) y = Some (Inr y')"
proof -
  have m: "at_main y \<noteq> Main_cleaning Joining" "at_main y \<noteq> Exited" using assms(2) by auto
  obtain t data pc where "running y t = Some (data, pc)" "\<not> waits (srv (prog y)) pc"
    using someone_goes_on [OF assms(1,3) list_mutex_free [OF assms(1) m(1)]] by blast
  with perform_Step [OF assms(1) _ m(2), of t data pc menv] show ?thesis
    by (auto simp del: perform.simps)
qed

lemma steps_finish:
  "proc_inv P cs s0 y \<Longrightarrow> \<not> joining (at_main y) \<Longrightarrow>
     \<exists>ts y'. run (env_of P) menv (map Step ts) y = Some (Inr y') \<and> all_finished y'"
proof (induction "work y" arbitrary: y rule: less_induct)
  case less
  show ?case
  proof (cases "all_finished y")
    case True
    then show ?thesis by (intro exI [of _ "[]"]) simp
  next
    case False
    then obtain t y1 where y1: "perform (env_of P) menv (Step t) y = Some (Inr y1)"
      using step_enabled [OF less.prems] by blast
    note step = perform_Step_work [OF less.prems(1) y1]
    obtain ts y' where "run (env_of P) menv (map Step ts) y1 = Some (Inr y')" "all_finished y'"
      using less.hyps [OF step(2,1)] less.prems(2) step(3) by auto
    with y1 show ?thesis by (intro exI [of _ "t # ts"]) (auto simp del: perform.simps)
  qed
qed

text \<open>Steps of threads lead somewhere and create no threads.\<close>

definition args :: "process \<Rightarrow> nat \<rightharpoonup> ptr" where
  "args y t = map_option fst (running y t)"

lemma dom_args:
  assumes "args y' = args y"
  shows "dom (running y') = dom (running y)"
proof -
  have "running y' t = None \<longleftrightarrow> running y t = None" for t
    using arg_cong [OF assms, of "\<lambda>f. f t = None"] by (simp add: args_def)
  then show ?thesis by (simp add: dom_def)
qed

lemma run_steps_args:
  "run envs menv (map Step ts) y = Some (Inr y') \<Longrightarrow> args y' = args y"
proof (induction ts arbitrary: y)
  case (Cons t ts)
  then obtain y1 where y1: "perform envs menv (Step t) y = Some (Inr y1)" "args y' = args y1"
    by (auto split: option.splits sum.splits simp del: perform.simps)
  from perform_Step_form [OF y1(1)] have "args y1 = args y" by (auto simp: args_def)
  with y1(2) show ?case by simp
qed simp

lemma leads_run:
  "leads P menv y0 y \<Longrightarrow> run (env_of P) menv evs y = Some (Inr y') \<Longrightarrow> (\<forall>ev \<in> set evs. \<forall>e chunks. ev \<noteq> Accept e chunks) \<Longrightarrow>
     leads P menv y0 y'"
proof (induction evs arbitrary: y)
  case (Cons ev evs)
  then obtain y1 where y1: "perform (env_of P) menv ev y = Some (Inr y1)" "run (env_of P) menv evs y1 = Some (Inr y')"
    by (auto split: option.splits sum.splits simp del: perform.simps)
  have "event_ok P ev y" using Cons.prems(3) by (cases ev) auto
  from leads.more [OF Cons.prems(1) this y1(1)] y1(2) show ?case
    by (rule Cons.IH) (use Cons.prems(3) in simp)
qed simp

lemma leads_steps:
  "leads P menv y0 y \<Longrightarrow> run (env_of P) menv (map Step ts) y = Some (Inr y') \<Longrightarrow> leads P menv y0 y'"
  by (rule leads_run) auto

lemma answered_take:
  assumes "order_inv P cs s0 order h at mx dev out"
  shows "\<exists>n \<le> length order. length order \<le> Suc n \<and> answered at h order = take n order \<and>
    (\<forall>t. at t = Some Finished \<longrightarrow> t \<in> set (take n order))"
proof -
  have fin: "t \<in> set order" if "at t = Some Finished" for t
    using assms that by (simp add: order_inv_def)
  consider t where "h = Some t" "is_at at t is_replying" | "answered at h order = order"
    by (cases "answered at h order = order") (auto simp: answered_def split: option.splits if_splits)
  then show ?thesis
  proof cases
    case 1
    then obtain ok where ok: "at t = Some (Replying ok)"
      by (auto simp: is_at_def split: option.splits elim: is_replying.elims)
    then have "order \<noteq> []" "last order = t" using assms 1(1) by (auto simp: order_inv_def)
    moreover have "u \<in> set (butlast order)" if "at u = Some Finished" for u
    proof -
      have "u \<noteq> t" using ok that by auto
      moreover have "set order = insert t (set (butlast order))"
        using \<open>order \<noteq> []\<close> \<open>last order = t\<close>
        by (metis append_butlast_last_id insert_is_Un list.simps(15) list.set(1) set_append sup_commute)
      ultimately show ?thesis using fin [OF that] by auto
    qed
    ultimately show ?thesis
      using 1 by (intro exI [of _ "length order - 1"]) (auto simp: answered_def butlast_conv_take)
  next
    case 2
    then show ?thesis using fin by (intro exI [of _ "length order"]) simp
  qed
qed

text \<open>The order of the sessions that had their turn, in every state the process reaches.\<close>

lemma order_of_reachable:
  assumes "ready_to_serve cs st" and "leads P menv (serving st) y"
    and "lock_result menv = 0" and "unlock_result menv = 0"
  shows "\<exists>order n. distinct order \<and> set order \<subseteq> dom (running y) \<and> n \<le> length order \<and> length order \<le> Suc n \<and>
    turns_ok P cs order \<and> represents (device (srv (prog y))) (commands P cs order, []) \<and>
    sent (srv (prog y)) = sent (srv st) @ replies P cs (take n order) \<and>
    (\<forall>t data. running y t = Some (data, Finished) \<longrightarrow> t \<in> set (take n order))"
proof -
  have "proc_inv P cs (sent (srv st)) y"
    using leads_inv [OF assms(2) serving_inv [OF assms(1)] assms(3,4)] .
  then obtain es order h where ord: "in_order P cs (sent (srv st)) order h y" by (rule proc_invE)
  obtain n where n: "n \<le> length order" "length order \<le> Suc n" "answered (pcs y) h order = take n order"
      "\<forall>t. pcs y t = Some Finished \<longrightarrow> t \<in> set (take n order)"
    using answered_take [OF ord] by blast
  have "\<forall>t data. running y t = Some (data, Finished) \<longrightarrow> t \<in> set (take n order)"
    using n(4) pcs_some by blast
  moreover have "set order \<subseteq> dom (running y)"
    using ord by (auto simp: order_inv_def is_at_def pcs_def split: option.splits)
  ultimately show ?thesis
    using ord n(1-3)
    by (intro exI [of _ order] exI [of _ n]) (simp add: order_inv_def)
qed

lemma order_when_finished:
  assumes "ready_to_serve cs st" and "leads P menv (serving st) y"
    and "lock_result menv = 0" and "unlock_result menv = 0" and fin: "all_finished y"
  shows "\<exists>order. distinct order \<and> set order = dom (running y) \<and>
    turns_ok P cs order \<and> represents (device (srv (prog y))) (commands P cs order, []) \<and>
    sent (srv (prog y)) = sent (srv st) @ replies P cs order"
proof -
  obtain order n where o: "distinct order" "set order \<subseteq> dom (running y)" "n \<le> length order"
    "turns_ok P cs order \<and> represents (device (srv (prog y))) (commands P cs order, [])"
    "sent (srv (prog y)) = sent (srv st) @ replies P cs (take n order)"
    "\<forall>t data. running y t = Some (data, Finished) \<longrightarrow> t \<in> set (take n order)"
    using order_of_reachable [OF assms(1-4)] by blast
  have "dom (running y) \<subseteq> set (take n order)"
    using fin o(6) unfolding all_finished_def by (metis domD subsetI surj_pair)
  with o(2) set_take_subset [of n order] have "set (take n order) = set order" "set order = dom (running y)" by auto
  moreover have "n = length order"
    using distinct_card [OF o(1)] distinct_card [OF distinct_take [OF o(1), of n]] calculation(1) o(3) by simp
  ultimately show ?thesis using o(1,4,5) by (intro exI [of _ order]) simp
qed

section \<open>The end of main\<close>

lemma run_append:
  "run envs menv (evs @ evs') y =
     (case run envs menv evs y of None \<Rightarrow> None | Some (Inl t) \<Rightarrow> Some (Inl t) | Some (Inr y') \<Rightarrow> run envs menv evs' y')"
  by (induction evs arbitrary: y) (auto split: option.split sum.split simp del: perform.simps)

text \<open>Joining the clients that are left, all of whose threads have returned.\<close>

lemma joining_all:
  "clients_inv es (the_clients y) \<Longrightarrow> at_main y = Main_cleaning Joining \<Longrightarrow> unlock_result menv = 0 \<Longrightarrow>
   distinct (map data_block es) \<Longrightarrow> distinct (map accepted es) \<Longrightarrow>
   (\<forall>e \<in> set es. data_block e \<noteq> NULL \<and> returned y (new_thread e) = Some (data_block e)) \<Longrightarrow>
     \<exists>c. run envs menv (replicate (length es + 2) Clean) y = Some (Inr (y\<lparr>prog := (prog y)\<lparr>srv :=
         (srv (prog y))\<lparr>threads := c, device_file := False, listening := False\<rparr>\<rparr>, at_main := Exited\<rparr>)) \<and>
       SLIST_EMPTY c \<and> tdata c = tdata (the_clients y) |` (- data_block ` set es) \<and>
       node c = node (the_clients y) |` (- node_block ` set es) \<and>
       open_sockets c = open_sockets (the_clients y) - accepted ` set es"
proof (induction es arbitrary: y)
  case Nil
  then have "SLIST_EMPTY (the_clients y)" by (simp add: clients_inv_def list_ok_def SLIST_EMPTY_def)
  with Nil.prems(2,3) show ?case
    by (auto simp: numeral_2_eq_2 unlock_list_def SLIST_EMPTY_def)
next
  case (Cons e es)
  let ?env = "menv\<lparr>join_result := pthread_join (returned y) None\<rparr>"
  from reap_first [OF Cons.prems(1) _ _ Cons.prems(4,5), of ?env] Cons.prems(6) obtain c1 where
    c1: "reap ?env NULL (slh_first (the_clients y)) (the_clients y) = Some (Inr c1)"
      "clients_inv es c1" "node c1 = (node (the_clients y))(node_block e := None)"
      "tdata c1 = (tdata (the_clients y))(data_block e := None)"
      "open_sockets c1 = open_sockets (the_clients y) - {accepted e}"
    by (auto simp: pthread_join_def)
  obtain n where n: "slh_first (the_clients y) = node_block e" "node_block e \<noteq> 0"
      "node (the_clients y) (node_block e) = Some n" "thread_id n = new_thread e"
    using Cons.prems(1) by (auto simp: clients_inv_def list_ok_def)
  let ?y = "y\<lparr>prog := (prog y)\<lparr>srv := (srv (prog y))\<lparr>threads := c1\<rparr>\<rparr>, at_main := Main_cleaning Joining\<rparr>"
  have step: "perform envs menv Clean y = Some (Inr ?y)"
    using n c1(1) Cons.prems(2) by (simp add: SLIST_EMPTY_def)
  have same: "returned ?y = returned y" by (simp add: returned_def fun_eq_iff)
  from Cons.IH [of ?y] c1(2) Cons.prems(3-6) same obtain c where
    c: "run envs menv (replicate (length es + 2) Clean) ?y = Some (Inr (?y\<lparr>prog := (prog ?y)\<lparr>srv :=
         (srv (prog ?y))\<lparr>threads := c, device_file := False, listening := False\<rparr>\<rparr>, at_main := Exited\<rparr>))"
      "SLIST_EMPTY c" "tdata c = tdata c1 |` (- data_block ` set es)"
      "node c = node c1 |` (- node_block ` set es)" "open_sockets c = open_sockets c1 - accepted ` set es"
    by auto
  then show ?case
    using step c1(3-5)
    by (intro exI [of _ c]) (auto simp: restrict_map_def fun_eq_iff simp del: perform.simps)
qed

lemma main_ends:
  assumes inv: "proc_inv P cs s0 y" and fin: "all_finished y" and m: "at_main y = Main_cleaning Checking"
    and env: "lock_result menv = 0" "unlock_result menv = 0"
  shows "\<exists>n y'. run (env_of P) menv (replicate n Clean) y = Some (Inr y') \<and> at_main y' = Exited \<and>
    SLIST_EMPTY (the_clients y') \<and> \<not> listening (srv (prog y')) \<and> \<not> device_file (srv (prog y')) \<and>
    device (srv (prog y')) = device (srv (prog y)) \<and> sent (srv (prog y')) = sent (srv (prog y)) \<and>
    (\<forall>t data pc. running y t = Some (data, pc) \<longrightarrow>
       tdata (the_clients y') data = None \<and> fd_of P t \<notin> open_sockets (the_clients y'))"
proof -
  obtain es order h where w: "workers_inv P es y" using proc_invE [OF inv] .
  let ?c = "(the_clients y)\<lparr>list_mutex := Locked\<rparr>"
  let ?y = "y\<lparr>prog := (prog y)\<lparr>srv := (srv (prog y))\<lparr>threads := ?c\<rparr>\<rparr>, at_main := Main_cleaning Joining\<rparr>"
  have "list_mutex (the_clients y) = Unlocked" using w m by (simp add: workers_inv_def)
  then have two: "run (env_of P) menv (replicate 2 Clean) y = Some (Inr ?y)"
    using clean_Checking(1) [OF w m env, of "returned y"] m env
    by (simp add: numeral_2_eq_2 lock_list_def del: clean_step.simps(1))
  have ret: "returned ?y (new_thread e) = Some (data_block e) \<and> data_block e \<noteq> NULL" if mem: "e \<in> set es" for e
  proof -
    obtain pc where "running y (new_thread e) = Some (data_block e, pc)" "data_block e \<noteq> NULL"
      using w mem by (auto simp: workers_inv_def)
    moreover from this fin have "pc = Finished" unfolding all_finished_def by blast
    ultimately show ?thesis by (simp add: returned_def)
  qed
  from joining_all [of es ?y menv "env_of P"] w env ret obtain c where c:
      "run (env_of P) menv (replicate (length es + 2) Clean) ?y = Some (Inr (?y\<lparr>prog := (prog ?y)\<lparr>srv :=
         (srv (prog ?y))\<lparr>threads := c, device_file := False, listening := False\<rparr>\<rparr>, at_main := Exited\<rparr>))"
      "SLIST_EMPTY c" "tdata c = tdata (the_clients y) |` (- data_block ` set es)"
      "open_sockets c = open_sockets (the_clients y) - accepted ` set es"
    by (auto simp: workers_inv_def)
  let ?gone = "y\<lparr>prog := (prog y)\<lparr>srv := (srv (prog y))\<lparr>threads := c, device_file := False, listening := False\<rparr>\<rparr>,
    at_main := Exited\<rparr>"
  have released: "tdata c data = None \<and> fd_of P t \<notin> open_sockets c" if t: "running y t = Some (data, pc)" for t data pc
  proof -
    obtain e where "e \<in> set es" "new_thread e = t" "data_block e = data" "accepted e = fd_of P t"
      using w m t unfolding workers_inv_def by (metis joining.simps(5))
    then have "data \<in> data_block ` set es" "fd_of P t \<in> accepted ` set es" by (blast, metis image_eqI)
    then show ?thesis using c(3,4) by simp
  qed
  have "run (env_of P) menv (replicate (2 + (length es + 2)) Clean) y = run (env_of P) menv (replicate (length es + 2) Clean) ?y"
    unfolding replicate_add run_append two by simp
  then have "run (env_of P) menv (replicate (2 + (length es + 2)) Clean) y = Some (Inr ?gone)"
    unfolding c(1) by simp
  with c(2) released show ?thesis by (intro exI [of _ "2 + (length es + 2)"] exI [of _ ?gone]) simp
qed

section \<open>A thread that still runs when main joins\<close>

lemma finished_only_by_marking:
  "thread_step rt t env data pc sv = Some (Inr (Finished, sv')) \<Longrightarrow> \<exists>ok. pc = Marking ok"
proof (cases pc)
  case (Receiving buf chunks)
  assume "thread_step rt t env data pc sv = Some (Inr (Finished, sv'))"
  with Receiving show ?thesis by (cases chunks) (auto simp: Let_def cres_simps split: if_splits)
qed (auto simp: Let_def cres_simps split: option.splits sum.splits if_splits prod.splits)

text \<open>
  While \<open>main\<close> joins it holds the list mutex, and a thread needs that mutex for its last step: the
  thread never returns and \<open>main\<close> never stops waiting for it.
\<close>

definition stuck_at :: "nat \<Rightarrow> ptr \<Rightarrow> process \<Rightarrow> bool" where
  "stuck_at t data y \<longleftrightarrow> at_main y = Main_cleaning Joining \<and> (\<exists>pc. running y t = Some (data, pc) \<and> pc \<noteq> Finished)"

lemma stuck_step:
  assumes inv: "proc_inv P cs s0 y" and stuck: "stuck_at t data y"
    and step: "perform (env_of P) menv (Step u) y = Some (Inr y')"
  shows "stuck_at t data y'"
proof -
  obtain pc where t: "at_main y = Main_cleaning Joining" "running y t = Some (data, pc)" "pc \<noteq> Finished"
    using stuck by (auto simp: stuck_at_def)
  have locked: "list_mutex (the_clients y) = Locked" using inv t(1) by (auto simp: proc_inv_def workers_inv_def)
  obtain d pc1 pc2 sv where u: "running y u = Some (d, pc1)"
    and r: "thread_step (returned y) u (env_of P u) d pc1 (srv (prog y)) = Some (Inr (pc2, sv))"
      "y' = y\<lparr>prog := (prog y)\<lparr>srv := sv\<rparr>, running := (running y)(u \<mapsto> (d, pc2))\<rparr>"
    using perform_Step_form [OF step] by blast
  with step t(1) have free: "\<not> waits (srv (prog y)) pc1"
    using perform_Step [OF inv u, of menv] by (auto simp del: perform.simps)
  have "pc2 \<noteq> Finished"
    using finished_only_by_marking [of "returned y" u "env_of P u" d pc1 "srv (prog y)" sv] r(1) locked free by auto
  with t u r(2) show ?thesis by (auto simp: stuck_at_def)
qed

lemma stuck_clean:
  assumes inv: "proc_inv P cs s0 y" and stuck: "stuck_at t data y"
    and step: "perform (env_of P) menv Clean y = Some (Inr y')"
  shows "stuck_at t data y'"
proof -
  obtain es order h where w: "workers_inv P es y" using proc_invE [OF inv] .
  obtain pc where t: "at_main y = Main_cleaning Joining" "running y t = Some (data, pc)" "pc \<noteq> Finished"
    using stuck by (auto simp: stuck_at_def)
  with w obtain e where "e \<in> set es" by (fastforce simp: workers_inv_def)
  then obtain e0 rest where es: "es = e0 # rest" by (cases es) auto
  obtain nxt sv where r: "clean_step (returned y) None menv Joining (srv (prog y)) = Some (Inr (nxt, sv))"
      "y' = y\<lparr>prog := (prog y)\<lparr>srv := sv\<rparr>, at_main := (case nxt of None \<Rightarrow> Exited | Some s \<Rightarrow> Main_cleaning s)\<rparr>"
    using step t(1) by (auto simp: cres_simps simp del: clean_step.simps)
  then have "nxt = Some Joining"
    using clean_Joining_step [OF w [unfolded es], of "returned y" menv]
    by (auto simp: cres_simps simp del: clean_step.simps split: option.splits)
  with r(2) have "at_main y' = Main_cleaning Joining \<and> running y' = running y" by simp
  with t show ?thesis by (simp add: stuck_at_def)
qed

lemma stuck_for_good:
  assumes "leads P menv y y'" "proc_inv P cs s0 y" "stuck_at t data y"
    and env: "lock_result menv = 0" "unlock_result menv = 0"
  shows "stuck_at t data y'"
  using assms(1-3)
proof (induction rule: leads.induct)
  case (more y y' ev y'')
  have inv: "proc_inv P cs s0 y'" using leads_inv [OF more.hyps(1) more.prems(1) env] .
  have stuck: "stuck_at t data y'" using more by blast
  show ?case
  proof (cases ev)
    case (Step u)
    with stuck_step [OF inv stuck] more.hyps(3) show ?thesis by blast
  next
    case Clean
    with stuck_clean [OF inv stuck] more.hyps(3) show ?thesis by blast
  qed (use more.hyps(3) stuck in \<open>auto simp: stuck_at_def\<close>)
qed

end
