(* ===== verification/Server_Threads_Properties.thy ===== *)
theory Server_Threads_Properties
  imports Server_Outcome
begin

text \<open>
  The properties of the server with its threads running at the same time, each with an instance.
\<close>

section \<open>A few clients\<close>

text \<open>Client 4 says hi, client 6 asks for the first command from its second byte on, others say hello.\<close>

definition sample_plan :: client_plan where
  "sample_plan = \<lparr>env_of = \<lambda>t. sample_session, line_of = \<lambda>t. if t = 4 then hi_line else hello_line,
     seek_of = \<lambda>t. if t = 6 then Some (0, 1) else None, fd_of = int\<rparr>"

abbreviation (input) seek_chunk :: "byte list" where "seek_chunk \<equiv> seek_text 0 1 @ [newline]"

lemma sample_plan_sel [simp]:
  "env_of sample_plan t = sample_session" "line_of sample_plan t = (if t = 4 then hi_line else hello_line)"
  "seek_of sample_plan t = (if t = 6 then Some (0, 1) else None)" "fd_of sample_plan t = int t"
  by (simp_all add: sample_plan_def)

lemma sample_session_env_ok: "env_ok sample_session"
  using sample_session_ready [of fresh_driver] by (simp add: env_ok_def session_ready_def)

lemma sample_good_lines: "good_line hi_line" "good_line hello_line"
  by (simp_all add: good_line_def is_line_def hi_line_def hello_line_def)

lemma sample_sends_line:
  assumes "seek_of P t = None" "env_of P t = sample_session" "good_line (line_of P t)"
    "take 18 (line_of P t) \<noteq> seek_prefix"
  shows "thread_ok P t (Starting [line_of P t])"
  using assms not_seek_prefix [of "line_of P t" "replicate 1024 NUL"] last_in_set [of "line_of P t"] sample_session_env_ok
  by (auto simp: thread_ok_def sample_buffer Let_def good_line_def is_line_def simp del: take_append)

lemma sample_sends_lines:
  "thread_ok sample_plan 4 (Starting [hi_line])" "thread_ok sample_plan 5 (Starting [hello_line])"
  using sample_sends_line [of sample_plan 4] sample_sends_line [of sample_plan 5] sample_good_lines
  by (simp_all add: hi_line_def hello_line_def)

lemma sample_sends_seek: "thread_ok sample_plan 6 (Starting [seek_chunk])"
proof -
  have "length (decimal 0) = 1" "length (decimal 1) = 1" by (simp_all add: decimal.simps)
  then have len: "length seek_chunk = 23" by (simp add: seek_text_def)
  have "NUL \<in> set (drop (length seek_chunk) (replicate 1024 NUL))"
    by (simp only: len) simp
  then have "get_ioctl_command sample_session (seek_chunk @ drop (length seek_chunk) (replicate 1024 NUL)) =
      Inr (Some \<lparr>write_cmd = word_of_nat 0, write_cmd_offset = word_of_nat 1\<rparr>)"
    using seek_text_command [of 0 1 sample_session] sample_session_ready [of fresh_driver]
    by (simp add: session_ready_def)
  moreover have "take 18 (seek_chunk @ drop (length seek_chunk) (replicate 1024 NUL)) = seek_prefix"
    by (simp add: seek_text_def)
  ultimately have "sends_seek sample_session (seek_chunk @ drop (length seek_chunk) (replicate 1024 NUL)) 0 1"
    using sample_session_ready [of fresh_driver] by (simp add: sends_seek_def session_ready_def)
  then show ?thesis
    using sample_session_env_ok by (simp add: thread_ok_def sample_buffer Let_def)
qed

lemma sample_can_seek: "t \<noteq> 6 \<Longrightarrow> can_seek sample_plan t ls" "can_seek sample_plan 6 [hi_line, hello_line]"
  by (simp_all add: can_seek_def hi_line_def hello_line_def)

lemma started_ready: "ready_to_serve [] started"
  using fresh_represents
  by (simp add: ready_to_serve_def accepted_inv_def clients_inv_def list_ok_def started_def)

lemma answering_sel [simp]: "lock_result answering = 0" "unlock_result answering = 0"
  by (simp_all add: answering_def)

lemma one_accepted:
  "\<exists>y. leads sample_plan answering (serving started) y \<and> at_main y = Accepting \<and>
     running y = [4 \<mapsto> (4, Starting [hi_line])] \<and> last_node (prog y) = 104 \<and>
     srv (prog y) = (srv started)\<lparr>threads := \<lparr>node = [104 \<mapsto> \<lparr>thread_id = 4, node_clientfd = 4,
       node_complete = False, sle_next = NULL\<rparr>], slh_first = 104, list_mutex = Unlocked,
       tdata = [4 \<mapsto> \<lparr>td_complete = False, td_clientfd = 4\<rparr>], open_sockets = {4}\<rparr>\<rparr> \<and> keep_running (prog y)"
proof -
  have ev: "event_ok sample_plan (Accept (fine_round 4 False) [hi_line]) (serving started)"
    using sample_sends_lines sample_can_seek
    by (simp add: serving_def started_def fine_round_def sample_session_def)
  note loop = check_loop.simps
  have "\<exists>y. perform (env_of sample_plan) answering (Accept (fine_round 4 False) [hi_line]) (serving started) =
      Some (Inr y) \<and> at_main y = Accepting \<and>
     running y = [4 \<mapsto> (4, Starting [hi_line])] \<and> last_node (prog y) = 104 \<and>
     srv (prog y) = (srv started)\<lparr>threads := \<lparr>node = [104 \<mapsto> \<lparr>thread_id = 4, node_clientfd = 4,
       node_complete = False, sle_next = NULL\<rparr>], slh_first = 104, list_mutex = Unlocked,
       tdata = [4 \<mapsto> \<lparr>td_complete = False, td_clientfd = 4\<rparr>], open_sockets = {4}\<rparr>\<rparr> \<and> keep_running (prog y)"
    by (simp add: serving_def started_def fine_round_def accept_round_def accept_client_def create_thread_data_def
        new_node_def set_node_def lock_list_def unlock_list_def SLIST_INSERT_HEAD_def get_node_def
        check_completed_threads_def loop creates_thread_def Let_def)
  then show ?thesis using leads.more [OF leads.start ev] by blast
qed

lemma two_accepted:
  "\<exists>y. leads sample_plan answering (serving started) y \<and> at_main y = Accepting \<and>
     running y = [4 \<mapsto> (4, Starting [hi_line]), 5 \<mapsto> (5, Starting [hello_line])]"
proof -
  obtain y where y: "leads sample_plan answering (serving started) y" "at_main y = Accepting"
      "running y = [4 \<mapsto> (4, Starting [hi_line])]" "last_node (prog y) = 104" "keep_running (prog y)"
      "srv (prog y) = (srv started)\<lparr>threads := \<lparr>node = [104 \<mapsto> \<lparr>thread_id = 4, node_clientfd = 4,
       node_complete = False, sle_next = NULL\<rparr>], slh_first = 104, list_mutex = Unlocked,
       tdata = [4 \<mapsto> \<lparr>td_complete = False, td_clientfd = 4\<rparr>], open_sockets = {4}\<rparr>\<rparr>"
    using one_accepted by blast
  have ev: "event_ok sample_plan (Accept (fine_round 5 False) [hello_line]) y"
    using sample_sends_lines sample_can_seek y by (simp add: fine_round_def sample_session_def)
  have "\<exists>y'. perform (env_of sample_plan) answering (Accept (fine_round 5 False) [hello_line]) y = Some (Inr y') \<and>
      at_main y' = Accepting \<and> running y' = [4 \<mapsto> (4, Starting [hi_line]), 5 \<mapsto> (5, Starting [hello_line])]"
    using y(2-6)
    by (simp add: fine_round_def accept_round_def accept_client_def create_thread_data_def
        new_node_def set_node_def lock_list_def unlock_list_def SLIST_INSERT_AFTER_def get_node_def
        check_completed_threads_def check_loop.simps creates_thread_def Let_def)
  then show ?thesis using leads.more [OF y(1) ev] by blast
qed

text \<open>A client that seeks, on a device that holds two commands.\<close>

definition started_on :: "driver \<Rightarrow> program" where
  "started_on s = started\<lparr>srv := (srv started)\<lparr>device := s\<rparr>\<rparr>"

lemma represents_unique: "represents s (ls, p) \<Longrightarrow> represents s (ls', p') \<Longrightarrow> ls = ls'"
  using inj_mapI [OF inj_mapI [OF inj_Some]] by (auto simp: represents_def dest: injD)

lemma started_on_ready:
  "represents s ([hi_line, hello_line], []) \<Longrightarrow> ready_to_serve [hi_line, hello_line] (started_on s)"
  using sample_good_lines
  by (simp add: ready_to_serve_def accepted_inv_def clients_inv_def list_ok_def started_on_def started_def good_line_def)

lemma seek_accepted:
  assumes "represents s ([hi_line, hello_line], [])"
  shows "\<exists>y. leads sample_plan answering (serving (started_on s)) y \<and> at_main y = Accepting \<and>
    running y = [6 \<mapsto> (6, Starting [seek_chunk])]"
proof -
  let ?y = "serving (started_on s)"
  have "can_seek sample_plan 6 ls" if "represents s (ls, p)" for ls p
    using represents_unique [OF assms that] sample_can_seek(2) by simp
  then have ev: "event_ok sample_plan (Accept (fine_round 6 False) [seek_chunk]) ?y"
    using sample_sends_seek by (auto simp: serving_def started_on_def started_def fine_round_def sample_session_def)
  have "\<exists>y. perform (env_of sample_plan) answering (Accept (fine_round 6 False) [seek_chunk]) ?y = Some (Inr y) \<and>
      at_main y = Accepting \<and> running y = [6 \<mapsto> (6, Starting [seek_chunk])]"
    by (simp add: serving_def started_on_def started_def fine_round_def accept_round_def accept_client_def
        create_thread_data_def new_node_def set_node_def lock_list_def unlock_list_def SLIST_INSERT_HEAD_def get_node_def
        check_completed_threads_def check_loop.simps creates_thread_def Let_def)
  then show ?thesis using leads.more [OF leads.start ev] by blast
qed

lemma seek_client_answered:
  "\<exists>s y ts y'. leads sample_plan answering (serving (started_on s)) y \<and>
     running y = [6 \<mapsto> (6, Starting [seek_chunk])] \<and>
     run (env_of sample_plan) answering (map Step ts) y = Some (Inr y') \<and> all_finished y' \<and>
     sent (srv (prog y')) = [(6, ''i'' @ [newline]), (6, hello_line)]"
proof -
  obtain s where s: "represents s ([hi_line, hello_line], [])"
    using device_with_lines [of "[hi_line, hello_line]"] sample_lines
    by (auto simp: hi_line_def hello_line_def)
  obtain y where y: "leads sample_plan answering (serving (started_on s)) y" "at_main y = Accepting"
      "running y = [6 \<mapsto> (6, Starting [seek_chunk])]"
    using seek_accepted [OF s] by blast
  have "proc_inv sample_plan [hi_line, hello_line] (sent (srv (started_on s))) y"
    using leads_inv [OF y(1) serving_inv [OF started_on_ready [OF s]]] by simp
  from steps_finish [OF this, of answering] y(2) obtain ts y' where
    y': "run (env_of sample_plan) answering (map Step ts) y = Some (Inr y')" "all_finished y'" by auto
  obtain order where o: "distinct order" "set order = dom (running y')"
      "sent (srv (prog y')) = sent (srv (started_on s)) @ replies sample_plan [hi_line, hello_line] order"
    using order_when_finished [OF started_on_ready [OF s] leads_steps [OF y(1) y'(1)] _ _ y'(2)] by auto
  have set: "set order = {6}" using o(2) dom_args [OF run_steps_args [OF y'(1)]] y(3) by simp
  then have "length order = 1" using distinct_card [OF o(1)] by simp
  then obtain t where "order = [t]" unfolding One_nat_def length_Suc_conv by auto
  with set have order: "order = [6]" by simp
  have "replies sample_plan [hi_line, hello_line] [6] = [(6, ''i'' @ [newline]), (6, hello_line)]"
    by (simp add: replies_def answer_to_def commands_def stored_by_def keep_last_short hi_line_def hello_line_def Let_def)
  then have "sent (srv (prog y')) = [(6, ''i'' @ [newline]), (6, hello_line)]"
    using o(3) unfolding order by (simp add: started_on_def started_def)
  with y y' show ?thesis by blast
qed

section \<open>Sessions at the same time\<close>

text \<open>C5: However the accept loop, the sessions and the signal interleave, at most one session is in the
  critical section, the file mutex is locked exactly while one is, and no event that may come next
  does anything undefined: it leads to a state or has to wait.\<close>

theorem sessions_exclude_each_other:
  assumes "ready_to_serve cs st" and "leads P menv (serving st) y"
    and "lock_result menv = 0" and "unlock_result menv = 0"
  shows "(\<forall>t d pc t' d' pc'. running y t = Some (d, pc) \<and> critical pc \<and> running y t' = Some (d', pc') \<and> critical pc' \<longrightarrow>
      t = t') \<and>
    (file_mutex (srv (prog y)) = Locked \<longleftrightarrow> (\<exists>t d pc. running y t = Some (d, pc) \<and> critical pc)) \<and>
    (\<forall>ev. event_ok P ev y \<longrightarrow> perform (env_of P) menv ev y = Some (Inl Deadlock) \<or>
       (\<exists>y'. perform (env_of P) menv ev y = Some (Inr y')))"
proof -
  have inv: "proc_inv P cs (sent (srv st)) y"
    using leads_inv [OF assms(2) serving_inv [OF assms(1)] assms(3,4)] .
  then obtain es order h where ord: "in_order P cs (sent (srv st)) order h y" by (rule proc_invE)
  have hold: "critical pc \<longleftrightarrow> h = Some t" if "running y t = Some (d, pc)" for t d pc
    using order_inv_holder [OF ord pcs_some [OF that]] .
  moreover have "(h \<noteq> None) = (\<exists>t d pc. running y t = Some (d, pc) \<and> critical pc)"
  proof
    assume "h \<noteq> None"
    then obtain t where "is_at (pcs y) t critical" using ord by (auto simp: order_inv_def)
    then obtain d pc where "running y t = Some (d, pc)" "critical pc"
      by (auto simp: is_at_def pcs_def split: option.splits)
    then show "\<exists>t d pc. running y t = Some (d, pc) \<and> critical pc" by blast
  qed (use hold in auto)
  moreover have "file_mutex (srv (prog y)) = Locked \<longleftrightarrow> h \<noteq> None" using ord by (simp add: order_inv_def)
  moreover have "perform (env_of P) menv ev y = Some (Inl Deadlock) \<or> (\<exists>y'. perform (env_of P) menv ev y = Some (Inr y'))"
    if "event_ok P ev y" for ev
    using event_fine [OF inv that assms(3,4)] by (auto simp: fine_def split: option.splits sum.splits)
  ultimately show ?thesis by (metis option.inject)
qed

theorem sessions_exclude_each_other_witness:
  "\<exists>y. running y 4 = Some (4, Starting [hi_line]) \<and> running y 5 = Some (5, Starting [hello_line]) \<and>
     file_mutex (srv (prog y)) = Unlocked \<and>
     (\<exists>y'. perform (env_of sample_plan) answering (Step 5) y = Some (Inr y'))"
proof -
  obtain y where y: "leads sample_plan answering (serving started) y" "at_main y = Accepting"
      "running y = [4 \<mapsto> (4, Starting [hi_line]), 5 \<mapsto> (5, Starting [hello_line])]"
    using two_accepted by blast
  have go: "perform (env_of sample_plan) answering (Step 5) y \<noteq> Some (Inl Deadlock)"
    using y(2,3) by (simp add: sample_buffer)
  note excl = sessions_exclude_each_other [OF started_ready y(1) answering_sel]
  from excl [THEN conjunct2, THEN conjunct1] y(3) have "file_mutex (srv (prog y)) \<noteq> Locked"
    by (auto split: if_splits)
  moreover from excl [THEN conjunct2, THEN conjunct2, rule_format, of "Step 5"] go
  have "\<exists>y'. perform (env_of sample_plan) answering (Step 5) y = Some (Inr y')"
    by (simp del: perform.simps)
  ultimately show ?thesis
    using y(3) by (intro exI [of _ y]) (cases "file_mutex (srv (prog y))"; simp del: perform.simps)
qed

text \<open>C2: However the sessions interleave, the clients that had their turn stand in one order: the
  device holds the last ten lines in that order, every seek named a stored command at its turn, and
  what was sent is the answers of a first part of the order (all of it, or all but the last): to each
  client once, all commands up to its own line, or those from the place it seeks to. A session that
  has returned is in that part.\<close>

theorem concurrent_sessions_in_one_order:
  assumes "ready_to_serve cs st" and "leads P menv (serving st) y"
    and "lock_result menv = 0" and "unlock_result menv = 0"
  shows "\<exists>order n. distinct order \<and> set order \<subseteq> dom (running y) \<and> n \<le> length order \<and> length order \<le> Suc n \<and>
    turns_ok P cs order \<and> represents (device (srv (prog y))) (commands P cs order, []) \<and>
    sent (srv (prog y)) = sent (srv st) @ replies P cs (take n order) \<and>
    (\<forall>t data. running y t = Some (data, Finished) \<longrightarrow> t \<in> set (take n order))"
  by (rule order_of_reachable [OF assms])

theorem concurrent_sessions_in_one_order_witness:
  "\<exists>y order. leads sample_plan answering (serving started) y \<and> set order = {4, 5} \<and> distinct order \<and>
     represents (device (srv (prog y))) (map (line_of sample_plan) order, []) \<and>
     sent (srv (prog y)) = [(int (order ! 0), line_of sample_plan (order ! 0)),
       (int (order ! 1), concat (map (line_of sample_plan) order))]"
proof -
  obtain y0 where y0: "leads sample_plan answering (serving started) y0" "at_main y0 = Accepting"
      "running y0 = [4 \<mapsto> (4, Starting [hi_line]), 5 \<mapsto> (5, Starting [hello_line])]"
    using two_accepted by blast
  have "proc_inv sample_plan [] (sent (srv started)) y0"
    using leads_inv [OF y0(1) serving_inv [OF started_ready]] by simp
  from steps_finish [OF this, of answering] y0(2) obtain ts y where
    y: "run (env_of sample_plan) answering (map Step ts) y0 = Some (Inr y)" "all_finished y" by auto
  have reach: "leads sample_plan answering (serving started) y"
    using leads_steps [OF y0(1) y(1)] .
  have "dom (running y) = {4, 5}"
    using dom_args [OF run_steps_args [OF y(1)]] y0(3) by auto
  then have fin: "\<exists>data. running y 4 = Some (data, Finished)" "\<exists>data. running y 5 = Some (data, Finished)"
    using y(2) unfolding all_finished_def by (metis domD insertCI surj_pair)+
  obtain order n where o: "distinct order" "set order \<subseteq> {4, 5}" "n \<le> length order"
      "represents (device (srv (prog y))) (commands sample_plan [] order, [])"
      "sent (srv (prog y)) = replies sample_plan [] (take n order)"
      "4 \<in> set (take n order)" "5 \<in> set (take n order)"
    using concurrent_sessions_in_one_order [OF started_ready reach answering_sel] fin \<open>dom (running y) = {4, 5}\<close>
    by (auto simp: started_def)
  have set: "set order = {4, 5}" using o(2,6,7) by (auto dest: in_set_takeD)
  then have len: "length order = 2" using distinct_card [OF o(1)] by simp
  have "card {4 :: nat, 5} \<le> card (set (take n order))" using o(6,7) by (intro card_mono) auto
  then have "n = 2" using card_length [of "take n order"] o(3) len by simp
  moreover have "\<forall>t \<in> set order. seek_of sample_plan t = None" using set by simp
  ultimately show ?thesis
    using reach set o(1,4,5) len commands_lines [of order sample_plan "[]"] replies_lines [of order sample_plan "[]"]
    by (intro exI [of _ y] exI [of _ order]) (simp add: keep_last_short numeral_2_eq_2 take_Suc_conv_app_nth)
qed

text \<open>C12: While \<open>main\<close> has not begun to join, the threads are never stuck: every run of their steps is
  bounded, from each state on it some thread can go on until all have returned, and so the sessions
  can all be run to their end.\<close>

theorem concurrent_sessions_finish:
  assumes "ready_to_serve cs st" and "leads P menv (serving st) y"
    and "lock_result menv = 0" and "unlock_result menv = 0" and "\<not> joining (at_main y)"
  shows "(\<forall>ts y'. run (env_of P) menv (map Step ts) y = Some (Inr y') \<longrightarrow>
      length ts \<le> work y \<and>
      (all_finished y' \<or> (\<exists>t y''. perform (env_of P) menv (Step t) y' = Some (Inr y'')))) \<and>
    (\<exists>ts y'. run (env_of P) menv (map Step ts) y = Some (Inr y') \<and> all_finished y')"
proof -
  have inv: "proc_inv P cs (sent (srv st)) y"
    using leads_inv [OF assms(2) serving_inv [OF assms(1)] assms(3,4)] .
  have "length ts \<le> work y \<and> (all_finished y' \<or> (\<exists>t y''. perform (env_of P) menv (Step t) y' = Some (Inr y'')))"
    if "run (env_of P) menv (map Step ts) y = Some (Inr y')" for ts y'
  proof -
    have "proc_inv P cs (sent (srv st)) y'" "length ts \<le> work y" "at_main y' = at_main y"
      using run_steps_work [OF inv that] by simp_all
    then show ?thesis using step_enabled [of P cs "sent (srv st)" y' menv] assms(5) by auto
  qed
  with steps_finish [OF inv assms(5)] show ?thesis by blast
qed

theorem concurrent_sessions_finish_witness:
  "\<exists>y ts y'. running y = [4 \<mapsto> (4, Starting [hi_line]), 5 \<mapsto> (5, Starting [hello_line])] \<and>
     run (env_of sample_plan) answering (map Step ts) y = Some (Inr y') \<and> all_finished y' \<and> length ts \<le> 18"
proof -
  obtain y where y: "leads sample_plan answering (serving started) y" "at_main y = Accepting"
      "running y = [4 \<mapsto> (4, Starting [hi_line]), 5 \<mapsto> (5, Starting [hello_line])]"
    using two_accepted by blast
  have "work y = 18" by (simp add: work_def y(3))
  then show ?thesis
    using concurrent_sessions_finish [OF started_ready y(1)] y(2,3)
    by (metis answering_sel joining.simps(4))
qed

end
