(* ===== verification/Server_Sequence.thy ===== *)
theory Server_Sequence
  imports Server_Order
begin

text \<open>
  The sessions of a plan run one after the other: each client sends its line or its seek command as
  one chunk, and the sequential model gives the device and the replies that the order of the turns
  says.
\<close>

section \<open>One turn\<close>

definition message :: "client_plan \<Rightarrow> nat \<Rightarrow> byte list" where
  "message P t = (case seek_of P t of None \<Rightarrow> line_of P t | Some (k, i) \<Rightarrow> seek_text k i @ [newline])"

text \<open>A line that is no seek command, and a buffer in which the command is followed by a NUL.\<close>

definition message_ok :: "client_plan \<Rightarrow> byte list \<Rightarrow> nat \<Rightarrow> bool" where
  "message_ok P junk t \<longleftrightarrow> (case seek_of P t of
      None \<Rightarrow> good_line (line_of P t) \<and> take 18 (line_of P t) \<noteq> ''AESDCHAR_IOCSEEKTO''
    | Some q \<Rightarrow> NUL \<in> set (drop (length (message P t)) junk))"

lemma one_turn:
  assumes ready: "session_ready env data sv" and unset: "node_unset env sv"
    and buffer: "thread_buffer env = Some junk" and sock: "socket_of sv data = fd_of P t"
    and msg: "message_ok P junk t" and seek: "can_seek P t ls"
    and rep: "represents (device sv) (ls, [])" and ls: "length ls \<le> 10" "NUL \<notin> set (concat ls)"
  shows "\<exists>ok s'. represents s' (keep_last 10 (ls @ stored_by P t), []) \<and>
    message_handler_thread env data [message P t] sv = Some (Inr (sv\<lparr>threads := completed data ok (threads sv),
      device := s', sent := sent sv @ answer_to P t (keep_last 10 (ls @ stored_by P t))\<rparr>))"
proof -
  obtain td where td: "tdata (threads sv) data = Some td"
    using ready by (auto simp: session_ready_def)
  have fd: "td_clientfd td = fd_of P t" using sock td by (simp add: socket_of_def)
  show ?thesis
  proof (cases "seek_of P t")
    case None
    let ?d = "line_of P t" and ?ls = "keep_last 10 (ls @ [line_of P t])"
    have d: "is_line ?d" "length ?d \<le> 1024" "NUL \<notin> set ?d" "take 18 ?d \<noteq> seek_prefix" "message P t = ?d"
      using msg None by (simp_all add: message_ok_def message_def good_line_def)
    then have nl: "newline \<in> set ?d" using last_in_set [of ?d] by (simp add: is_line_def)
    have out: "log_write ?d (ls, []) = (?ls, [])" using log_write_line [OF d(1), of ls "[]"] by simp
    have "NUL \<notin> set (concat ?ls)" using set_keep_last [of 10 "ls @ [?d]"] ls(2) d(3) by fastforce
    moreover have "take 18 (fst (recv_loop junk ([] @ ?d # []))) \<noteq> seek_prefix"
      using not_seek_prefix [OF d(1,4), of junk] nl by (simp add: Let_def)
    ultimately obtain s' where "represents s' (?ls, [])"
        "message_handler_thread env data [?d] sv = Some (Inr (sv\<lparr>threads := completed data True (threads sv),
           device := s', sent := sent sv @ [(td_clientfd td, concat ?ls)]\<rparr>))"
      using session_stores [OF ready unset buffer td rep nl, of "[]" "[]"] d(2) out by auto
    with None d(5) fd show ?thesis by (auto simp: stored_by_def answer_to_def)
  next
    case (Some q)
    obtain k i where q: "q = (k, i)" by (cases q)
    have k: "k < length ls" "\<forall>c \<in> set ls. i < length c \<and> length c \<le> 1023"
      using seek Some by (simp_all add: can_seek_def q)
    have m: "message P t = seek_text k i @ [newline]" "NUL \<in> set (drop (length (message P t)) junk)"
      using msg Some by (simp_all add: message_ok_def message_def q)
    have "keep_last 10 (ls @ stored_by P t) = ls" using Some ls(1) by (simp add: stored_by_def keep_last_short)
    with session_seeks [OF ready unset buffer td rep _ k(1) _ m] k Some rep fd show ?thesis
      by (intro exI [of _ "k = 0 \<and> i = 0"] exI [of _ "device sv"]) (cases sv, simp add: answer_to_def q)
  qed
qed

section \<open>All turns\<close>

lemma commands_Cons: "commands P cs (t # order) = commands P (commands P cs [t]) order"
  using keep_last_absorb [of 10 "cs @ stored_by P t" "concat (map (stored_by P) order)"]
  by (simp add: commands_def)

lemma commands_Nil: "length ls \<le> 10 \<Longrightarrow> commands P ls [] = ls"
  by (simp add: commands_def keep_last_short)

lemma replies_Cons:
  "replies P cs (t # order) = answer_to P t (commands P cs [t]) @ replies P (commands P cs [t]) order"
proof -
  have "[0..<length (t # order)] = 0 # map Suc [0..<length order]"
    by (metis length_Cons map_Suc_upt upt_conv_Cons zero_less_Suc)
  then show ?thesis
    by (simp add: replies_def comp_def commands_Cons [of P cs t "take _ order"] commands_Nil length_commands del: upt_Suc)
qed

lemma turns_ok_Cons:
  "turns_ok P cs (t # order) \<Longrightarrow> can_seek P t (commands P cs []) \<and> turns_ok P (commands P cs [t]) order"
  unfolding turns_ok_def by (auto simp: commands_Cons [of P cs t "take _ order"] dest: spec [of _ "Suc _"] spec [of _ 0])

lemma serve_turns:
  assumes "thread_buffer env = Some junk"
  shows "\<forall>t \<in> set order. session_ready env (arg t) sv \<and> socket_of sv (arg t) = fd_of P t \<and> message_ok P junk t \<Longrightarrow>
    turns_ok P cs order \<Longrightarrow> node_unset env sv \<Longrightarrow> represents (device sv) (cs, []) \<Longrightarrow> length cs \<le> 10 \<Longrightarrow>
    NUL \<notin> set (concat cs) \<Longrightarrow>
    \<exists>sv'. serve env (map (\<lambda>t. (arg t, message P t)) order) sv = Some (Inr sv') \<and>
      represents (device sv') (commands P cs order, []) \<and> sent sv' = sent sv @ replies P cs order"
proof (induction order arbitrary: sv cs)
  case Nil
  then show ?case by (simp add: commands_def keep_last_short)
next
  case (Cons t order)
  let ?cs = "commands P cs [t]"
  have t: "session_ready env (arg t) sv" "socket_of sv (arg t) = fd_of P t" "message_ok P junk t"
    using Cons.prems(1) by simp_all
  have turn: "can_seek P t cs" "turns_ok P ?cs order"
    using turns_ok_Cons [OF Cons.prems(2)] Cons.prems(5) by (simp_all add: commands_def keep_last_short)
  have cs: "keep_last 10 (cs @ stored_by P t) = ?cs" by (simp add: commands_def)
  from one_turn [OF t(1) Cons.prems(3) assms t(2,3) turn(1) Cons.prems(4-6), unfolded cs] obtain ok s' where
    s': "represents s' (?cs, [])" "message_handler_thread env (arg t) [message P t] sv =
      Some (Inr (sv\<lparr>threads := completed (arg t) ok (threads sv), device := s', sent := sent sv @ answer_to P t ?cs\<rparr>))"
    by blast
  let ?sv = "sv\<lparr>threads := completed (arg t) ok (threads sv), device := s', sent := sent sv @ answer_to P t ?cs\<rparr>"
  have sock: "socket_of ?sv = socket_of sv"
    by (rule socket_of_completed [of _ "arg t" ok]) simp
  have no_nul: "NUL \<notin> set (concat ?cs)"
  proof -
    have "NUL \<notin> set (concat (stored_by P t))"
      using t(3) by (auto simp: stored_by_def message_ok_def good_line_def split: option.splits)
    then show ?thesis
      using set_keep_last [of 10 "cs @ stored_by P t"] Cons.prems(6) unfolding cs by fastforce
  qed
  have "\<exists>sv'. serve env (map (\<lambda>t. (arg t, message P t)) order) ?sv = Some (Inr sv') \<and>
      represents (device sv') (commands P ?cs order, []) \<and> sent sv' = sent ?sv @ replies P ?cs order"
  proof (rule Cons.IH)
    show "\<forall>t \<in> set order. session_ready env (arg t) ?sv \<and> socket_of ?sv (arg t) = fd_of P t \<and> message_ok P junk t"
      unfolding sock using Cons.prems(1) by (simp add: session_ready_def completed_data)
    show "node_unset env ?sv"
      using Cons.prems(3) by (simp add: node_unset_def list_ok_def)
  qed (use turn(2) s'(1) length_commands no_nul in simp_all)
  then show ?case
    using s'(2) by (auto simp: commands_Cons [of P cs t order] replies_Cons)
qed

end
