(* ===== verification/Server_Shutdown.thy ===== *)
theory Server_Shutdown
  imports Server_Threads_Properties Server_Sequence
begin

text \<open>
  The end of the server with its threads: the shutdown that serves everybody and releases everything,
  the shutdown that never ends because a client is still being served, and the failures of memory
  and of \<open>fopen\<close> that end the process while threads run.
\<close>

section \<open>Shutdown\<close>

text \<open>C8: A server that accepted any number of clients can serve them all, take the signal and exit:
  the list is empty, every thread's data freed, every client socket and the server socket closed,
  and each client was sent its answer in the one order of the sessions.\<close>

theorem server_serves_and_exits:
  assumes "ready_to_serve cs st" and "leads P menv (serving st) y"
    and "lock_result menv = 0" and "unlock_result menv = 0" and "at_main y = Accepting"
  shows "\<exists>ts n y' order. run (env_of P) menv (map Step ts @ [Signal, Leave] @ replicate n Clean) y = Some (Inr y') \<and>
    at_main y' = Exited \<and> SLIST_EMPTY (threads (srv (prog y'))) \<and>
    \<not> listening (srv (prog y')) \<and> \<not> device_file (srv (prog y')) \<and>
    (\<forall>t data pc. running y t = Some (data, pc) \<longrightarrow> tdata (threads (srv (prog y'))) data = None \<and>
       fd_of P t \<notin> open_sockets (threads (srv (prog y')))) \<and>
    distinct order \<and> set order = dom (running y) \<and>
    sent (srv (prog y')) = sent (srv st) @ replies P cs order"
proof -
  have inv: "proc_inv P cs (sent (srv st)) y"
    using leads_inv [OF assms(2) serving_inv [OF assms(1)] assms(3,4)] .
  obtain ts y1 where y1: "run (env_of P) menv (map Step ts) y = Some (Inr y1)" "all_finished y1"
    using steps_finish [OF inv, of menv] assms(5) by auto
  note reach = leads_steps [OF assms(2) y1(1)]
  have same: "args y1 = args y" "at_main y1 = Accepting"
    using run_steps_args [OF y1(1)] run_steps_work [OF inv y1(1)] assms(5) by simp_all
  obtain order where o: "distinct order" "set order = dom (running y)"
      "sent (srv (prog y1)) = sent (srv st) @ replies P cs order"
    using order_when_finished [OF assms(1) reach assms(3,4) y1(2)] dom_args [OF same(1)] by auto
  let ?y = "y1\<lparr>prog := end_program_singal (prog y1), at_main := Main_cleaning Checking\<rparr>"
  have stop: "run (env_of P) menv [Signal, Leave] y1 = Some (Inr ?y)"
    using same(2) by (simp add: end_program_singal_def)
  from leads_run [OF reach stop] leads_inv [OF _ serving_inv [OF assms(1)] assms(3,4)]
  have "proc_inv P cs (sent (srv st)) ?y" by simp
  from main_ends [OF this, of menv] y1(2) assms(3,4) obtain n y' where y': "run (env_of P) menv (replicate n Clean) ?y = Some (Inr y')"
      "at_main y' = Exited" "SLIST_EMPTY (threads (srv (prog y')))" "\<not> listening (srv (prog y'))"
      "\<not> device_file (srv (prog y'))" "sent (srv (prog y')) = sent (srv (prog y1))"
      "\<forall>t data pc. running y1 t = Some (data, pc) \<longrightarrow> tdata (threads (srv (prog y'))) data = None \<and>
         fd_of P t \<notin> open_sockets (threads (srv (prog y')))"
    by (auto simp: all_finished_def end_program_singal_def)
  have "tdata (threads (srv (prog y'))) data = None \<and> fd_of P t \<notin> open_sockets (threads (srv (prog y')))"
    if "running y t = Some (data, pc)" for t data pc
  proof -
    have "args y1 t = Some data" using same(1) that by (simp add: args_def)
    then obtain pc1 where "running y1 t = Some (data, pc1)" by (auto simp: args_def)
    with y'(7) show ?thesis by blast
  qed
  moreover have "run (env_of P) menv (map Step ts @ [Signal, Leave] @ replicate n Clean) y = Some (Inr y')"
    unfolding run_append y1(1) using stop y'(1) by (simp add: run_append del: run.simps(2))
  ultimately show ?thesis
    using y'(2-6) o by (intro exI [of _ ts] exI [of _ n] exI [of _ y'] exI [of _ order]) simp
qed

theorem server_serves_and_exits_witness:
  "\<exists>y ts n y' order. running y = [4 \<mapsto> (4, Starting [hi_line]), 5 \<mapsto> (5, Starting [hello_line])] \<and>
     run (env_of sample_plan) answering (map Step ts @ [Signal, Leave] @ replicate n Clean) y = Some (Inr y') \<and>
     at_main y' = Exited \<and> 4 \<notin> open_sockets (threads (srv (prog y'))) \<and> set order = {4, 5} \<and>
     map fst (sent (srv (prog y'))) = map int order"
proof -
  obtain y where y: "leads sample_plan answering (serving started) y" "at_main y = Accepting"
      "running y = [4 \<mapsto> (4, Starting [hi_line]), 5 \<mapsto> (5, Starting [hello_line])]"
    using two_accepted by blast
  from server_serves_and_exits [OF started_ready y(1) answering_sel y(2)] obtain ts n y' order where
    r: "run (env_of sample_plan) answering (map Step ts @ [Signal, Leave] @ replicate n Clean) y = Some (Inr y')"
      "at_main y' = Exited" "\<forall>t data pc. running y t = Some (data, pc) \<longrightarrow>
         tdata (threads (srv (prog y'))) data = None \<and> fd_of sample_plan t \<notin> open_sockets (threads (srv (prog y')))"
      "set order = dom (running y)" "sent (srv (prog y')) = sent (srv started) @ replies sample_plan [] order"
    by blast
  have "fd_of sample_plan 4 \<notin> open_sockets (threads (srv (prog y')))"
    using r(3) [rule_format, of 4 4 "Starting [hi_line]"] y(3) by simp
  moreover have set: "set order = {4, 5}" using r(4) y(3) by auto
  moreover have "map fst (sent (srv (prog y'))) = map int order"
    unfolding r(5) using replies_lines [of order sample_plan "[]"] set
    by (intro nth_equalityI) (simp_all add: started_def)
  ultimately show ?thesis using y(3) r(1,2) by (intro exI [of _ y] exI) auto
qed

text \<open>C13: When \<open>main\<close> begins to join while a session still runs, the process never ends: \<open>main\<close> holds the
  list mutex and waits for the thread, and the thread needs that mutex before it can return.\<close>

theorem shutdown_never_ends_while_a_session_runs:
  assumes "ready_to_serve cs st" and "leads P menv (serving st) y"
    and "lock_result menv = 0" and "unlock_result menv = 0"
    and "at_main y = Main_cleaning Joining" and "running y t = Some (data, pc)" and "pc \<noteq> Finished"
    and "leads P menv y y'"
  shows "at_main y' = Main_cleaning Joining \<and> (\<exists>pc'. running y' t = Some (data, pc') \<and> pc' \<noteq> Finished)"
proof -
  have "proc_inv P cs (sent (srv st)) y"
    using leads_inv [OF assms(2) serving_inv [OF assms(1)] assms(3,4)] .
  then show ?thesis
    using stuck_for_good [OF assms(8) _ _ assms(3,4), of cs "sent (srv st)" t data] assms(5-7)
    by (auto simp: stuck_at_def)
qed

theorem shutdown_never_ends_while_a_session_runs_witness:
  "\<exists>y. leads sample_plan answering (serving started) y \<and> \<not> keep_running (prog y) \<and>
     (\<forall>y'. leads sample_plan answering y y' \<longrightarrow> at_main y' \<noteq> Exited)"
proof -
  obtain y where y: "leads sample_plan answering (serving started) y" "at_main y = Accepting"
      "running y = [4 \<mapsto> (4, Starting [hi_line])]"
      "srv (prog y) = (srv started)\<lparr>threads := \<lparr>node = [104 \<mapsto> \<lparr>thread_id = 4, node_clientfd = 4,
       node_complete = False, sle_next = NULL\<rparr>], slh_first = 104, list_mutex = Unlocked,
       tdata = [4 \<mapsto> \<lparr>td_complete = False, td_clientfd = 4\<rparr>], open_sockets = {4}\<rparr>\<rparr>"
    using one_accepted by blast
  have "\<exists>y1. run (env_of sample_plan) answering [Signal, Leave, Clean, Clean] y = Some (Inr y1) \<and>
      at_main y1 = Main_cleaning Joining \<and> running y1 4 = Some (4, Starting [hi_line]) \<and> \<not> keep_running (prog y1)"
    using y(2-4) by (simp add: end_program_singal_def SLIST_EMPTY_def check_completed_threads_def lock_list_def
        unlock_list_def check_loop.simps get_node_def)
  then obtain y1 where y1: "run (env_of sample_plan) answering [Signal, Leave, Clean, Clean] y = Some (Inr y1)"
      "at_main y1 = Main_cleaning Joining" "running y1 4 = Some (4, Starting [hi_line])" "\<not> keep_running (prog y1)"
    by blast
  have reach: "leads sample_plan answering (serving started) y1"
    using leads_run [OF y(1) y1(1)] by simp
  have "at_main y' \<noteq> Exited" if "leads sample_plan answering y1 y'" for y'
    using shutdown_never_ends_while_a_session_runs [OF started_ready reach answering_sel y1(2,3) _ that] by simp
  with reach y1(4) show ?thesis by blast
qed

section \<open>Failures while threads run\<close>

text \<open>C27: When the node of a new client cannot be allocated, \<open>main\<close> frees the thread's data while the
  thread it has just created still uses it: the second step of the thread, its first \<open>recv\<close>, reads
  a freed block.\<close>

theorem failed_node_allocation_frees_data_in_use:
  assumes "at_main y = Accepting" and "creates_thread e (prog y)" and "node_block e = NULL"
    and "thread_buffer (envs (new_thread e)) = Some junk"
  shows "\<exists>y'. perform envs menv (Accept e chunks) y = Some (Inr y') \<and>
    running y' (new_thread e) = Some (data_block e, Starting chunks) \<and>
    tdata (threads (srv (prog y'))) (data_block e) = None \<and>
    run envs menv [Step (new_thread e), Step (new_thread e)] y' = Some (Inl UseAfterFree)"
proof -
  let ?c = "close_socket (accepted e) (accept_client e (create_thread_data e (threads (srv (prog y)))))"
  let ?c' = "?c\<lparr>tdata := (tdata ?c)(data_block e := None)\<rparr>"
  let ?st = "(prog y)\<lparr>srv := (srv (prog y))\<lparr>threads := ?c'\<rparr>\<rparr>"
  have c: "data_block e \<noteq> 0" "keep_running (prog y)" "\<not> signalled e" "0 \<le> accepted e" "create_result e = 0"
    using assms(2) by (auto simp: creates_thread_def)
  have "tdata ?c (data_block e) = Some \<lparr>td_complete = False, td_clientfd = accepted e\<rparr>"
    using c(1) by (simp add: accept_client_def create_thread_data_def close_socket_def)
  then have "accept_round e (prog y) = Some (Inr ?st)"
    using c assms(3) by (simp add: accept_round_def Let_def drop_client_def free_tdata_def)
  moreover have "tdata ?c' (data_block e) = None" by simp
  ultimately show ?thesis
    using assms c by (cases chunks) (simp_all add: get_tdata_def)
qed

theorem failed_node_allocation_frees_data_in_use_witness:
  "\<exists>y'. perform (\<lambda>t. sample_session) answering (Accept ((fine_round 4 False)\<lparr>node_block := NULL\<rparr>) [hi_line])
      (serving started) = Some (Inr y') \<and>
    run (\<lambda>t. sample_session) answering [Step 4, Step 4] y' = Some (Inl UseAfterFree)"
  using failed_node_allocation_frees_data_in_use [of "serving started" "(fine_round 4 False)\<lparr>node_block := NULL\<rparr>"
      "\<lambda>t. sample_session" "replicate 1024 NUL" answering "[hi_line]"] sample_buffer
  by (auto simp: serving_def started_def fine_round_def creates_thread_def simp del: perform.simps run.simps)

text \<open>C28: A session whose \<open>fopen\<close> fails calls \<open>cleanup\<close> and there joins the threads of the list, its own
  included. With its node the first of the list, \<open>pthread_join\<close> returns the error of a thread that
  joins itself, and the pointer it should have set is NULL when the client's data is read.\<close>

theorem failed_fopen_crashes_the_server:
  assumes "running y t = Some (data, Opening d)" and "at_main y \<noteq> Exited" and "\<not> fopen_ok (envs t)"
    and "lock_result (pthreads (envs t)) = 0" and "unlock_result (pthreads (envs t)) = 0"
    and "list_ok (threads (srv (prog y))) (p # ps)" and "list_mutex (threads (srv (prog y))) = Unlocked"
    and "\<forall>q \<in> set (p # ps). \<forall>n. node (threads (srv (prog y))) q = Some n \<longrightarrow> \<not> node_complete n"
    and "node (threads (srv (prog y))) p = Some n" and "thread_id n = t"
  shows "run envs menv [Step t, Step t, Step t, Step t] y = Some (Inl NullDeref)"
proof -
  let ?c = "threads (srv (prog y))"
  have first: "slh_first ?c = p" "p \<noteq> 0" using assms(6) by (simp_all add: list_ok_def)
  have check: "check_completed_threads ((pthreads (envs t))\<lparr>join_result := j\<rparr>) ?c = Some (Inr ?c)" for j
    using assms(4,5) by (intro check_completed_none [OF assms(6,7) _ _ assms(8)]) simp_all
  have "reap ((pthreads (envs t))\<lparr>join_result := pthread_join rt (Some t)\<rparr>) NULL p (?c\<lparr>list_mutex := Locked\<rparr>) =
      Some (Inl NullDeref)" for rt
    using first assms(9,10)
    by (simp add: reap_def slist_simps SLIST_REMOVE_def free_node_def get_tdata_def pthread_join_def)
  then show ?thesis
    using assms(1-5,7) first check by (simp add: SLIST_EMPTY_def lock_list_def)
qed

theorem failed_fopen_crashes_the_server_witness:
  "\<exists>y. leads sample_plan answering (serving started) y \<and>
     run (\<lambda>t. sample_session\<lparr>fopen_ok := False\<rparr>) answering [Step 4, Step 4, Step 4, Step 4]
       (y\<lparr>running := [4 \<mapsto> (4, Opening hi_line)]\<rparr>) = Some (Inl NullDeref)"
proof -
  obtain y where y: "leads sample_plan answering (serving started) y" "at_main y = Accepting"
      "srv (prog y) = (srv started)\<lparr>threads := \<lparr>node = [104 \<mapsto> \<lparr>thread_id = 4, node_clientfd = 4,
       node_complete = False, sle_next = NULL\<rparr>], slh_first = 104, list_mutex = Unlocked,
       tdata = [4 \<mapsto> \<lparr>td_complete = False, td_clientfd = 4\<rparr>], open_sockets = {4}\<rparr>\<rparr>"
    using one_accepted by blast
  have "run (\<lambda>t. sample_session\<lparr>fopen_ok := False\<rparr>) answering [Step 4, Step 4, Step 4, Step 4]
       (y\<lparr>running := [4 \<mapsto> (4, Opening hi_line)]\<rparr>) = Some (Inl NullDeref)"
    using y(2,3)
    by (intro failed_fopen_crashes_the_server [of _ 4 4 hi_line _ 104 "[]"
          "\<lparr>thread_id = 4, node_clientfd = 4, node_complete = False, sle_next = NULL\<rparr>"])
      (simp_all add: sample_session_def sample_pthreads_def list_ok_def)
  with y(1) show ?thesis by blast
qed

section \<open>Steps and the sequential model\<close>

lemma joining_is_clean_loop:
  "clients_inv es (the_clients y) \<Longrightarrow> at_main y = Main_cleaning Joining \<Longrightarrow> unlock_result menv = 0 \<Longrightarrow>
   distinct (map data_block es) \<Longrightarrow> distinct (map accepted es) \<Longrightarrow>
   (\<forall>e \<in> set es. data_block e \<noteq> NULL \<and> returned y (new_thread e) = Some (data_block e)) \<Longrightarrow>
     \<exists>c. clean_loop (menv\<lparr>join_result := pthread_join (returned y) None\<rparr>) (the_clients y) = Some (Inr c) \<and>
       run envs menv (replicate (length es + 2) Clean) y = Some (Inr (y\<lparr>prog := (prog y)\<lparr>srv := (srv (prog y))
         \<lparr>threads := c\<lparr>list_mutex := Unlocked\<rparr>, device_file := False, listening := False\<rparr>\<rparr>, at_main := Exited\<rparr>))"
proof (induction es arbitrary: y)
  case Nil
  then have "SLIST_EMPTY (the_clients y)" by (simp add: clients_inv_def list_ok_def SLIST_EMPTY_def)
  with Nil.prems(2,3) show ?case
    by (simp add: numeral_2_eq_2 unlock_list_def clean_loop.simps)
next
  case (Cons e es)
  let ?env = "menv\<lparr>join_result := pthread_join (returned y) None\<rparr>"
  from reap_first [OF Cons.prems(1) _ _ Cons.prems(4,5), of ?env] Cons.prems(6) obtain c1 where
    c1: "reap ?env NULL (slh_first (the_clients y)) (the_clients y) = Some (Inr c1)" "clients_inv es c1"
    by (auto simp: pthread_join_def)
  have n: "slh_first (the_clients y) = node_block e" "node_block e \<noteq> 0"
    using Cons.prems(1) by (auto simp: clients_inv_def list_ok_def)
  let ?y = "y\<lparr>prog := (prog y)\<lparr>srv := (srv (prog y))\<lparr>threads := c1\<rparr>\<rparr>, at_main := Main_cleaning Joining\<rparr>"
  have step: "perform envs menv Clean y = Some (Inr ?y)"
    using n c1(1) Cons.prems(2) by (simp add: SLIST_EMPTY_def)
  have loop: "clean_loop ?env (the_clients y) = clean_loop ?env c1"
    using n c1(1) by (subst clean_loop.simps) (simp add: SLIST_EMPTY_def)
  have same: "returned ?y = returned y" by (simp add: returned_def fun_eq_iff)
  from Cons.IH [of ?y] c1(2) Cons.prems(3-6) same obtain c where
    "clean_loop ?env c1 = Some (Inr c)"
    "run envs menv (replicate (length es + 2) Clean) ?y = Some (Inr (?y\<lparr>prog := (prog ?y)\<lparr>srv :=
       (srv (prog ?y))\<lparr>threads := c\<lparr>list_mutex := Unlocked\<rparr>, device_file := False, listening := False\<rparr>\<rparr>, at_main := Exited\<rparr>))"
    by auto
  with step loop show ?case by (intro exI [of _ c]) (simp del: perform.simps)
qed

text \<open>When all threads of the list have returned, the steps of \<open>cleanup\<close>, with their locks and joins,
  do what \<open>cleanup\<close> of the sequential model does with the answers of those joins.\<close>

lemma cleanup_steps_are_cleanup:
  assumes "clients_inv es (threads (srv (prog y)))" and "list_mutex (threads (srv (prog y))) = Unlocked"
    and "at_main y = Main_cleaning Checking" and "lock_result menv = 0" and "unlock_result menv = 0"
    and "distinct (map data_block es)" and "distinct (map accepted es)"
    and "\<forall>e \<in> set es. data_block e \<noteq> NULL \<and> running y (new_thread e) = Some (data_block e, Finished)"
  shows "\<exists>sv. cleanup (menv\<lparr>join_result := pthread_join (returned y) None\<rparr>) (srv (prog y)) = Some (Inr sv) \<and>
    run envs menv (replicate (length es + 4) Clean) y =
      Some (Inr (y\<lparr>prog := (prog y)\<lparr>srv := sv\<rparr>, at_main := Exited\<rparr>))"
proof -
  let ?c = "the_clients y" and ?env = "menv\<lparr>join_result := pthread_join (returned y) None\<rparr>"
  let ?y = "y\<lparr>prog := (prog y)\<lparr>srv := (srv (prog y))\<lparr>threads := ?c\<lparr>list_mutex := Locked\<rparr>\<rparr>\<rparr>,
    at_main := Main_cleaning Joining\<rparr>"
  have check: "check_completed_threads ?env ?c = Some (Inr ?c)"
    using assms(1,2,4,5)
    by (intro check_completed_none [of _ "map node_block es"]) (auto simp: clients_inv_def)
  then have two: "run envs menv (replicate 2 Clean) y = Some (Inr ?y)"
    using assms(2-4) by (simp add: numeral_2_eq_2 lock_list_def)
  have ret: "\<forall>e \<in> set es. data_block e \<noteq> NULL \<and> returned ?y (new_thread e) = Some (data_block e)"
    using assms(8) by (simp add: returned_def)
  have same: "returned ?y = returned y" by (simp add: returned_def fun_eq_iff)
  from joining_is_clean_loop [of es ?y menv envs] assms(1,5-7) ret same obtain c where
    c: "clean_loop ?env (?c\<lparr>list_mutex := Locked\<rparr>) = Some (Inr c)"
      "run envs menv (replicate (length es + 2) Clean) ?y = Some (Inr (?y\<lparr>prog := (prog ?y)\<lparr>srv := (srv (prog ?y))
         \<lparr>threads := c\<lparr>list_mutex := Unlocked\<rparr>, device_file := False, listening := False\<rparr>\<rparr>, at_main := Exited\<rparr>))"
    by auto
  have ends: "cleanup ?env (srv (prog y)) = Some (Inr ((srv (prog y))
      \<lparr>threads := c\<lparr>list_mutex := Unlocked\<rparr>, device_file := False, listening := False\<rparr>))"
    using check c(1) assms(2,4,5) by (simp add: cleanup_def clean_threads_def lock_list_def unlock_list_def)
  have "length es + 4 = 2 + (length es + 2)" by simp
  then have "replicate (length es + 4) Clean = replicate 2 Clean @ replicate (length es + 2) Clean"
    by (simp only: replicate_add)
  then have steps: "run envs menv (replicate (length es + 4) Clean) y =
      run envs menv (replicate (length es + 2) Clean) ?y"
    by (simp only: run_append two option.case sum.case)
  show ?thesis unfolding steps c(2) using ends by (intro exI conjI) (assumption, simp)
qed

section \<open>Concurrent and sequential sessions\<close>

text \<open>C7: When all sessions have returned, the device and the replies are those of the same sessions run
  one after the other, in the order in which they had their turns.\<close>

theorem concurrent_sessions_equal_a_sequence:
  assumes "ready_to_serve cs st" and "leads P menv (serving st) y"
    and "lock_result menv = 0" and "unlock_result menv = 0" and "all_finished y"
    and "represents (device sv) (cs, [])" and "sent sv = sent (srv st)"
    and "thread_buffer env = Some junk" and "node_unset env sv"
    and "\<forall>t data. args y t = Some data \<longrightarrow> session_ready env data sv \<and> socket_of sv data = fd_of P t \<and>
      message_ok P junk t"
  shows "\<exists>order sv' ls. distinct order \<and> set order = dom (running y) \<and>
    serve env (map (\<lambda>t. (the (args y t), message P t)) order) sv = Some (Inr sv') \<and>
    sent sv' = sent (srv (prog y)) \<and>
    represents (device sv') (ls, []) \<and> represents (device (srv (prog y))) (ls, [])"
proof -
  obtain order where o: "distinct order" "set order = dom (running y)"
      "turns_ok P cs order" "represents (device (srv (prog y))) (commands P cs order, [])"
      "sent (srv (prog y)) = sent (srv st) @ replies P cs order"
    using order_when_finished [OF assms(1-5)] by blast
  have cs: "length cs \<le> 10" "NUL \<notin> set (concat cs)" using assms(1) by (simp_all add: ready_to_serve_def)
  have "\<forall>t \<in> set order. session_ready env (the (args y t)) sv \<and> socket_of sv (the (args y t)) = fd_of P t \<and>
      message_ok P junk t"
  proof
    fix t assume "t \<in> set order"
    then obtain data where "args y t = Some data" using o(2) by (auto simp: args_def)
    with assms(10) show "session_ready env (the (args y t)) sv \<and> socket_of sv (the (args y t)) = fd_of P t \<and>
      message_ok P junk t" by simp
  qed
  from serve_turns [OF assms(8) this o(3) assms(9,6) cs] obtain sv' where
    "serve env (map (\<lambda>t. (the (args y t), message P t)) order) sv = Some (Inr sv')"
    "represents (device sv') (commands P cs order, [])" "sent sv' = sent sv @ replies P cs order"
    by blast
  with o assms(7) show ?thesis by auto
qed

theorem concurrent_sessions_equal_a_sequence_witness:
  "\<exists>y order sv sv' cs'. leads sample_plan answering (serving started) y \<and> set order = {4, 5} \<and>
     serve sample_session (map (\<lambda>t. (t, message sample_plan t)) order) sv = Some (Inr sv') \<and>
     sent sv' = sent (srv (prog y)) \<and>
     represents (device sv') (cs', []) \<and> represents (device (srv (prog y))) (cs', [])"
proof -
  obtain y0 where y0: "leads sample_plan answering (serving started) y0" "at_main y0 = Accepting"
      "running y0 = [4 \<mapsto> (4, Starting [hi_line]), 5 \<mapsto> (5, Starting [hello_line])]"
    using two_accepted by blast
  have "proc_inv sample_plan [] (sent (srv started)) y0"
    using leads_inv [OF y0(1) serving_inv [OF started_ready]] by simp
  from steps_finish [OF this, of answering] y0(2) obtain ts y where
    y: "run (env_of sample_plan) answering (map Step ts) y0 = Some (Inr y)" "all_finished y" by auto
  have reach: "leads sample_plan answering (serving started) y"
    using leads_steps [OF y0(1) y(1)] .
  have args: "args y = [4 \<mapsto> 4, 5 \<mapsto> 5]"
    unfolding run_steps_args [OF y(1)] by (auto simp: args_def y0(3) fun_eq_iff)
  let ?c = "\<lparr>node = Map.empty, slh_first = NULL, list_mutex = Unlocked,
     tdata = [4 \<mapsto> \<lparr>td_complete = False, td_clientfd = 4\<rparr>, 5 \<mapsto> \<lparr>td_complete = False, td_clientfd = 5\<rparr>],
     open_sockets = {4, 5}\<rparr>"
  let ?sv = "(sample_server fresh_driver)\<lparr>threads := ?c\<rparr>"
  have ready: "\<forall>t data. args y t = Some data \<longrightarrow> session_ready sample_session data ?sv \<and>
      socket_of ?sv data = fd_of sample_plan t \<and> message_ok sample_plan (replicate 1024 NUL) t"
    using sample_session_ready [of fresh_driver] sample_good_lines
    by (auto simp: args message_ok_def session_ready_def socket_of_def hi_line_def hello_line_def split: if_splits)
  have unset: "node_unset sample_session ?sv"
    by (auto simp: node_unset_def list_ok_def intro!: exI [of _ "[]"])
  have rep: "represents (device ?sv) ([], [])" "sent ?sv = sent (srv started)"
    using fresh_represents by (simp_all add: started_def)
  obtain order sv' cs' where r: "set order = dom (running y)"
      "serve sample_session (map (\<lambda>t. (the (args y t), message sample_plan t)) order) ?sv = Some (Inr sv')"
      "sent sv' = sent (srv (prog y))" "represents (device sv') (cs', [])" "represents (device (srv (prog y))) (cs', [])"
    using concurrent_sessions_equal_a_sequence [OF started_ready reach answering_sel y(2) rep sample_buffer unset ready]
    by blast
  have set: "set order = {4, 5}"
    using r(1) dom_args [OF run_steps_args [OF y(1)]] y0(3) by auto
  then have m: "map (\<lambda>t. (the (args y t), message sample_plan t)) order = map (\<lambda>t. (t, message sample_plan t)) order"
    by (intro map_cong) (auto simp: args)
  show ?thesis
    using reach set r(2) [unfolded m] r(3-5) by blast
qed

end
