(* ===== verification/System_Calls.thy ===== *)
theory System_Calls
  imports Prelude
begin

unbundle bit_operations_syntax

text \<open>
  \<open>examples/systemcalls/systemcalls.c\<close>: running commands with \<open>system\<close>, and with
  \<open>fork\<close>, \<open>execv\<close> and \<open>waitpid\<close>, optionally with the output redirected to a file. A call is
  modelled from the parent's side together with what its child does to the standard output and
  to the file. What the system calls answer is the record \<open>process_env\<close>.
\<close>

section \<open>State and environment\<close>

text \<open>The bytes in the buffer of \<open>stdout\<close>, what the standard output has shown, the files, and how many
  descriptors the process has open.\<close>

record process =
  stdout_buf :: "byte list"
  shown :: "byte list"
  disk :: "string \<rightharpoonup> byte list"
  open_fds :: nat

text \<open>
  \<open>program\<close> is what becomes of \<open>execv\<close>: \<open>None\<close> when it returns, else the output of the
  program that replaced the child and the wait status it ends with. \<open>stale_status\<close> is the
  value of the uninitialised \<open>status\<close> when \<open>waitpid\<close> fails.
\<close>

record process_env =
  system_result :: "string \<Rightarrow> int"
  fork_pid :: int
  program :: "string list \<Rightarrow> (byte list \<times> 32 word) option"
  waitpid_ok :: bool
  stale_status :: "32 word"
  open_ok :: bool
  dup2_ok :: bool

definition WIFEXITED :: "32 word \<Rightarrow> bool" where
  "WIFEXITED status \<longleftrightarrow> status AND 0x7F = 0"

definition WEXITSTATUS :: "32 word \<Rightarrow> 32 word" where
  "WEXITSTATUS status = drop_bit 8 (status AND 0xFF00)"

text \<open>The wait status of a process that called \<open>exit(code)\<close>.\<close>

definition exit_status :: "32 word \<Rightarrow> 32 word" where
  "exit_status code = push_bit 8 (code AND 0xFF)"

section \<open>do_system\<close>

definition do_system :: "process_env \<Rightarrow> string \<Rightarrow> bool" where
  "do_system env cmd = (let res = system_result env cmd in if res = -1 then False else True)"

section \<open>do_exec\<close>

text \<open>The loop over \<open>va_arg\<close>: reading more arguments than were passed is undefined.\<close>

fun collect_args :: "nat \<Rightarrow> string list \<Rightarrow> string list cres" where
  "collect_args 0 args = Inr []"
| "collect_args (Suc count) [] = Inl OutOfBounds"
| "collect_args (Suc count) (a # args) = cbind (collect_args count args) (\<lambda>command. Inr (a # command))"

definition fflush_stdout :: "process \<Rightarrow> process" where
  "fflush_stdout p = p\<lparr>shown := shown p @ stdout_buf p, stdout_buf := []\<rparr>"

text \<open>
  The child: \<open>execv\<close> of an empty command fails; when \<open>execv\<close> returns, \<open>exit(1)\<close> writes out
  the child's copy of the buffer. The result is what goes to its standard output, and its status.
\<close>

definition child :: "process_env \<Rightarrow> process \<Rightarrow> string list \<Rightarrow> byte list \<times> 32 word" where
  "child env p command =
     (case (if command = [] then None else program env command) of
        Some (out, status) \<Rightarrow> (out, status)
      | None \<Rightarrow> (stdout_buf p, exit_status 1))"

text \<open>The parent's decision on the wait status.\<close>

definition child_succeeded :: "process_env \<Rightarrow> 32 word \<Rightarrow> bool" where
  "child_succeeded env st =
     (let status = (if waitpid_ok env then st else stale_status env) in
      if WIFEXITED status then (if WEXITSTATUS status \<noteq> 0 then False else True) else False)"

definition do_exec :: "process_env \<Rightarrow> nat \<Rightarrow> string list \<Rightarrow> process \<Rightarrow> (bool \<times> process) cres" where
  "do_exec env count args p =
     (let p1 = fflush_stdout p in
      cbind (collect_args count args) (\<lambda>command.
      if fork_pid env = -1 then Inr (False, p1)
      else
      let (out, st) = child env p1 command;
          p2 = p1\<lparr>shown := shown p1 @ out\<rparr> in
      Inr (child_succeeded env st, p2)))"

section \<open>do_exec_redirect\<close>

text \<open>
  The file is truncated when it is opened. A child whose \<open>dup2\<close> failed exits with its standard
  output still where it was.
\<close>

definition do_exec_redirect ::
    "process_env \<Rightarrow> string \<Rightarrow> nat \<Rightarrow> string list \<Rightarrow> process \<Rightarrow> (bool \<times> process) cres" where
  "do_exec_redirect env outputfile count args p =
     cbind (collect_args count args) (\<lambda>command.
     if \<not> open_ok env then Inr (False, p)
     else
     let p1 = p\<lparr>disk := (disk p)(outputfile \<mapsto> []), open_fds := Suc (open_fds p)\<rparr>;
         close_fd = (\<lambda>q. q\<lparr>open_fds := open_fds q - 1\<rparr>) in
     if fork_pid env = -1 then Inr (False, close_fd p1)
     else if \<not> dup2_ok env
     then Inr (child_succeeded env (exit_status 1), close_fd (p1\<lparr>shown := shown p1 @ stdout_buf p1\<rparr>))
     else
     let (out, st) = child env p1 command in
     Inr (child_succeeded env st, close_fd (p1\<lparr>disk := (disk p1)(outputfile \<mapsto> out)\<rparr>)))"

section \<open>Lemmas\<close>

lemma collect_args_enough: "count \<le> length args \<Longrightarrow> collect_args count args = Inr (take count args)"
  by (induction count args rule: collect_args.induct) auto

lemma collect_args_short: "length args < count \<Longrightarrow> collect_args count args = Inl OutOfBounds"
  by (induction count args rule: collect_args.induct) auto

lemma exit_status_one: "WIFEXITED (exit_status 1)" "WEXITSTATUS (exit_status 1) \<noteq> 0"
  by (simp_all add: WIFEXITED_def WEXITSTATUS_def exit_status_def)

lemma child_result:
  "child_succeeded env (snd (child env p command)) \<longleftrightarrow>
     (case (if command = [] then None else program env command) of
        None \<Rightarrow> \<not> waitpid_ok env \<and> WIFEXITED (stale_status env) \<and> WEXITSTATUS (stale_status env) = 0
      | Some (out, st) \<Rightarrow> let s = (if waitpid_ok env then st else stale_status env) in
          WIFEXITED s \<and> WEXITSTATUS s = 0)"
  using exit_status_one
  by (cases "if command = [] then None else program env command")
    (simp_all add: child_def child_succeeded_def Let_def split: prod.split)

lemma child_output:
  "fst (child env p command) =
     (case (if command = [] then None else program env command) of
        None \<Rightarrow> stdout_buf p | Some (out, st) \<Rightarrow> out)"
  by (simp add: child_def split: option.split prod.split)

section \<open>Properties\<close>

text \<open>C38: With enough arguments, a successful \<open>fork\<close> and a successful \<open>waitpid\<close>, \<open>do_exec\<close>
  shows the buffered output first, then what the command prints, and returns true exactly when the
  command could be executed and exited with a status that is 0 in its low eight bits.\<close>

theorem do_exec_true_iff_command_succeeds:
  assumes "count \<le> length args" and "fork_pid env \<noteq> -1" and "waitpid_ok env"
  shows "\<exists>ok p'. do_exec env count args p = Inr (ok, p') \<and> stdout_buf p' = [] \<and>
    (case (if count = 0 then None else program env (take count args)) of
       None \<Rightarrow> \<not> ok \<and> shown p' = shown p @ stdout_buf p
     | Some (out, st) \<Rightarrow> (ok \<longleftrightarrow> WIFEXITED st \<and> WEXITSTATUS st = 0) \<and>
         shown p' = shown p @ stdout_buf p @ out)"
proof -
  let ?c = "take count args"
  have "?c = [] \<longleftrightarrow> count = 0" using assms(1) by auto
  then show ?thesis
    using assms child_result [of env "fflush_stdout p" ?c] child_output [of env "fflush_stdout p" ?c]
    by (cases "child env (fflush_stdout p) ?c"; cases "if count = 0 then None else program env ?c")
      (auto simp: do_exec_def collect_args_enough fflush_stdout_def Let_def)
qed

definition ls_env :: process_env where
  "ls_env = \<lparr>system_result = (\<lambda>c. 256), fork_pid = 42,
     program = (\<lambda>c. if c = [''/bin/ls''] then Some (''a b'', exit_status 0) else None), waitpid_ok = True,
     stale_status = 0, open_ok = True, dup2_ok = True\<rparr>"

definition idle :: process where
  "idle = \<lparr>stdout_buf = ''say '', shown = [], disk = Map.empty, open_fds = 3\<rparr>"

theorem do_exec_true_iff_command_succeeds_witness:
  "\<exists>p'. do_exec ls_env 1 [''/bin/ls''] idle = Inr (True, p') \<and> shown p' = ''say a b''"
  using do_exec_true_iff_command_succeeds [of 1 "[''/bin/ls'']" ls_env idle]
  by (auto simp: ls_env_def idle_def exit_status_def WIFEXITED_def WEXITSTATUS_def)

text \<open>C39: \<open>do_exec_redirect\<close> leaves as many descriptors open as before and the output of the command
  in the file; it does not flush \<open>stdout\<close> before the fork, so when the command cannot be executed
  the file holds the caller's pending output instead, which is also still pending in the caller.\<close>

theorem do_exec_redirect_output:
  assumes "count \<le> length args" and "open_ok env" "dup2_ok env" "fork_pid env \<noteq> -1" "waitpid_ok env"
  shows "\<exists>ok p'. do_exec_redirect env outputfile count args p = Inr (ok, p') \<and>
    open_fds p' = open_fds p \<and> stdout_buf p' = stdout_buf p \<and> shown p' = shown p \<and>
    (case (if count = 0 then None else program env (take count args)) of
       None \<Rightarrow> \<not> ok \<and> disk p' outputfile = Some (stdout_buf p)
     | Some (out, st) \<Rightarrow> (ok \<longleftrightarrow> WIFEXITED st \<and> WEXITSTATUS st = 0) \<and> disk p' outputfile = Some out)"
proof -
  let ?c = "take count args"
  let ?p = "p\<lparr>disk := (disk p)(outputfile \<mapsto> []), open_fds := Suc (open_fds p)\<rparr>"
  have "?c = [] \<longleftrightarrow> count = 0" using assms(1) by auto
  then show ?thesis
    using assms child_result [of env ?p ?c] child_output [of env ?p ?c]
    by (cases "child env ?p ?c"; cases "if count = 0 then None else program env ?c")
      (auto simp: do_exec_redirect_def collect_args_enough Let_def)
qed

theorem do_exec_redirect_output_witness:
  "\<exists>p'. do_exec_redirect ls_env ''out'' 1 [''ls''] idle = Inr (False, p') \<and> disk p' ''out'' = Some ''say ''"
  using do_exec_redirect_output [of 1 "[''ls'']" ls_env "''out''" idle]
  by (auto simp: ls_env_def idle_def)

text \<open>\<open>do_system\<close> returns true for every command that could be run, whatever the command's exit
  status; only a failure of \<open>system\<close> itself gives false.\<close>

theorem do_system_ignores_exit_status:
  "do_system env cmd \<longleftrightarrow> system_result env cmd \<noteq> -1"
  by (simp add: do_system_def Let_def)

end
