(* ===== verification/Threading.thy ===== *)
theory Threading
  imports Kernel_Services
begin

text \<open>
  \<open>examples/threading/threading.c\<close> and \<open>threading.h\<close>: a thread that waits, takes a mutex,
  holds it for a while and releases it. The block \<open>malloc\<close> gives is not cleared, so
  \<open>thread_complete_success\<close> starts as whatever the memory held. The milliseconds are
  multiplied in a signed \<open>int\<close>, whose overflow is undefined.
\<close>

record mutex_thread_data =
  thread_complete_success :: bool
  wait_to_obtain_ms :: int
  wait_to_release_ms :: int

record thread_env =
  mutex_lock_result :: int
  mutex_unlock_result :: int

definition int_mult :: "int \<Rightarrow> int \<Rightarrow> int cres" where
  "int_mult x y = (if - (2 ^ 31) \<le> x * y \<and> x * y < 2 ^ 31 then Inr (x * y) else Inl SignedOverflow)"

text \<open>\<open>usleep\<close> takes an unsigned number of microseconds; the sleeps are listed in order.\<close>

definition usleep :: "int \<Rightarrow> nat list \<Rightarrow> nat list" where
  "usleep us sleeps = sleeps @ [unat (word_of_int us :: uint32_t)]"

definition threadfunc ::
    "thread_env \<Rightarrow> mutex_thread_data \<Rightarrow> mutex \<Rightarrow> (mutex_thread_data \<times> mutex \<times> nat list) cres" where
  "threadfunc env data m =
     cbind (int_mult (wait_to_obtain_ms data) 1000) (\<lambda>us1.
     let sleeps = usleep us1 [] in
     cbind (if mutex_lock_result env \<noteq> 0 then Inr (mutex_lock_result env, m)
            else case m of Unlocked \<Rightarrow> Inr (0, Locked) | Locked \<Rightarrow> Inl Deadlock) (\<lambda>(rc, m1).
     if rc \<noteq> 0 then Inr (data, m1, sleeps)
     else
     cbind (int_mult (wait_to_release_ms data) 1000) (\<lambda>us2.
     let sleeps2 = usleep us2 sleeps;
         rc2 = mutex_unlock_result env;
         m2 = (if rc2 = 0 then Unlocked else m1) in
     if rc2 \<noteq> 0 then Inr (data, m2, sleeps2)
     else Inr (data\<lparr>thread_complete_success := True\<rparr>, m2, sleeps2))))"

text \<open>
  \<open>block\<close> is the memory \<open>malloc\<close> returns, with what its first field holds. The result is
  the returned value and the data of the thread that was started; on failure the block is freed.
\<close>

definition start_thread_obtaining_mutex ::
    "bool option \<Rightarrow> int \<Rightarrow> int \<Rightarrow> int \<Rightarrow> bool \<times> mutex_thread_data option" where
  "start_thread_obtaining_mutex block create_result obtain_ms release_ms =
     (case block of None \<Rightarrow> (False, None)
      | Some junk \<Rightarrow>
          let new_data = \<lparr>thread_complete_success = junk, wait_to_obtain_ms = obtain_ms,
                          wait_to_release_ms = release_ms\<rparr> in
          if create_result \<noteq> 0 then (False, None) else (True, Some new_data))"

lemma int_mult_ok: "0 \<le> x \<Longrightarrow> x \<le> 2147483 \<Longrightarrow> int_mult x 1000 = Inr (x * 1000)"
  by (simp add: int_mult_def)

lemma usleep_ms:
  assumes "0 \<le> x" "x \<le> 2147483"
  shows "usleep (x * 1000) sleeps = sleeps @ [nat x * 1000]"
proof -
  have "unat (word_of_int y :: uint32_t) = nat y" if "0 \<le> y" "y < 2 ^ 32" for y
    using that by (simp add: unsigned_of_int take_bit_int_eq_self)
  from this [of "x * 1000"] have "unat (word_of_int (x * 1000) :: uint32_t) = nat (x * 1000)"
    using assms by simp
  with assms(1) show ?thesis by (simp add: usleep_def nat_mult_distrib)
qed

section \<open>Properties\<close>

text \<open>C40: A started thread sleeps for the first time, then takes the free mutex, sleeps for the second
  time and releases the mutex, and reports success. When locking or unlocking fails it returns the
  flag as \<open>malloc\<close> left it, which nothing has set to false.\<close>

theorem started_thread_reports:
  assumes "0 \<le> t1" "t1 \<le> 2147483" "0 \<le> t2" "t2 \<le> 2147483" and "start_thread_obtaining_mutex (Some junk) 0 t1 t2 = (True, Some data)"
  shows "threadfunc env data Unlocked = Inr
    (if mutex_lock_result env \<noteq> 0 then (data, Unlocked, [nat t1 * 1000])
     else if mutex_unlock_result env \<noteq> 0 then (data, Locked, [nat t1 * 1000, nat t2 * 1000])
     else (data\<lparr>thread_complete_success := True\<rparr>, Unlocked, [nat t1 * 1000, nat t2 * 1000])) \<and>
    thread_complete_success data = junk"
  using assms(5) int_mult_ok [OF assms(1,2)] int_mult_ok [OF assms(3,4)]
    usleep_ms [OF assms(1,2)] usleep_ms [OF assms(3,4)]
  by (auto simp: start_thread_obtaining_mutex_def threadfunc_def Let_def)

theorem started_thread_reports_witness:
  "\<exists>data. start_thread_obtaining_mutex (Some True) 0 2 3 = (True, Some data) \<and>
     threadfunc \<lparr>mutex_lock_result = 22, mutex_unlock_result = 0\<rparr> data Unlocked = Inr (data, Unlocked, [2000]) \<and>
     thread_complete_success data"
proof -
  let ?d = "\<lparr>thread_complete_success = True, wait_to_obtain_ms = 2, wait_to_release_ms = 3\<rparr>"
  have "start_thread_obtaining_mutex (Some True) 0 2 3 = (True, Some ?d)"
    by (simp add: start_thread_obtaining_mutex_def)
  then show ?thesis
    using started_thread_reports [of 2 3 True ?d "\<lparr>mutex_lock_result = 22, mutex_unlock_result = 0\<rparr>"] by simp
qed

text \<open>A wait of more than 2147483 milliseconds overflows the multiplication.\<close>

theorem long_wait_overflows:
  assumes "2147483 < wait_to_obtain_ms data"
  shows "threadfunc env data m = Inl SignedOverflow"
  using assms by (simp add: threadfunc_def int_mult_def)

theorem long_wait_overflows_witness:
  "threadfunc \<lparr>mutex_lock_result = 0, mutex_unlock_result = 0\<rparr>
     \<lparr>thread_complete_success = False, wait_to_obtain_ms = 2147484, wait_to_release_ms = 1\<rparr> Unlocked = Inl SignedOverflow"
  by (rule long_wait_overflows) simp

end
