(* ===== verification/Writer.thy ===== *)
theory Writer
  imports Prelude
begin

text \<open>
  \<open>finder-app/writer.c\<close>: a program that writes its second argument to the file named by its
  first. What the file system does is the record \<open>writer_env\<close>: whether the file can be opened,
  and how many of the bytes reach it.
\<close>

record writer_env =
  can_open :: "string \<Rightarrow> bool"
  room_on_disk :: nat

definition writer_main :: "writer_env \<Rightarrow> string list \<Rightarrow> (string \<rightharpoonup> byte list) \<Rightarrow> int \<times> (string \<rightharpoonup> byte list)" where
  "writer_main env argv disk =
     (if length argv \<noteq> 3 then (1, disk)
      else if \<not> can_open env (argv ! 1) then (1, disk)
      else (0, disk(argv ! 1 \<mapsto> take (room_on_disk env) (argv ! 2))))"

section \<open>Properties\<close>

text \<open>The exit status is 0 exactly when there are two arguments and the file can be opened; then
  the file holds the second argument if there was room for it. A write that fails is not noticed:
  the status is 0 and the file holds only a part.\<close>

theorem writer_status:
  "(fst (writer_main env argv disk) = 0 \<longleftrightarrow> length argv = 3 \<and> can_open env (argv ! 1)) \<and>
   snd (writer_main env argv disk) =
     (if fst (writer_main env argv disk) = 0
      then disk(argv ! 1 \<mapsto> take (room_on_disk env) (argv ! 2)) else disk)"
  by (simp add: writer_main_def)

end
