(* ===== verification/Autotest_Validate.thy ===== *)
theory Autotest_Validate
  imports Prelude
begin

text \<open>
  \<open>examples/autotest-validate\<close>: the functions that validate the set-up of the tests and the
  program that prints their results. The string of \<open>conf/username.txt\<close> is read by a function of
  the autotest submodule, which is not in the repository: it is an argument here.
\<close>

definition this_function_returns_true :: bool where
  "this_function_returns_true = True"

definition this_function_returns_false :: bool where
  "this_function_returns_false = False"

definition my_username :: string where
  "my_username = ''TFNeto''"

text \<open>The main program: the two lines on its standard output, and its exit status.\<close>

definition validate_main :: "int \<times> string" where
  "validate_main =
     (0, ''this_function_returns_true returned '' @
           (if this_function_returns_true then ''true'' else ''false'') @ [CHR 0x0A] @
         ''this_function_returns_false returned '' @
           (if this_function_returns_false then ''true'' else ''false'') @ [CHR 0x0A])"

text \<open>The test compares the user name with the one in the file; it fails when that is a null pointer.\<close>

definition test_validate_my_username :: "string option \<Rightarrow> bool" where
  "test_validate_my_username from_conf_file \<longleftrightarrow> from_conf_file = Some my_username"

lemma validate_results:
  "validate_main = (0, ''this_function_returns_true returned true'' @ [CHR 0x0A] @
     ''this_function_returns_false returned false'' @ [CHR 0x0A])"
  "test_validate_my_username (Some ''TFNeto'')"
  by (simp_all add: validate_main_def this_function_returns_true_def this_function_returns_false_def
      test_validate_my_username_def my_username_def)

end
