(* ===== verification/Spec2Isabelle.thy ===== *)
theory Spec2Isabelle
  imports Driver_Bounds Server_Shutdown System_Calls Threading Writer Autotest_Validate
begin

text \<open>
  A model of the programs of this repository in Isabelle/HOL and the theorems about them: the
  character device driver \<^verbatim>\<open>aesd-char-driver/\<close>, the socket server
  \<^verbatim>\<open>server/aesdsocket.c\<close> that stores what its clients send in that device, and the
  smaller programs of \<^verbatim>\<open>examples/\<close> and \<^verbatim>\<open>finder-app/\<close>.

  The parts and how they interact. A client of the server sends a line. The session of the client
  (\<^verbatim>\<open>message_handler_thread\<close>) writes it to \<^verbatim>\<open>/dev/aesdchar\<close> and sends the whole content of
  the device back; or the client sends a seek command, and gets the content from there. The driver
  (\<^verbatim>\<open>main.c\<close>) collects bytes until a newline and then pushes them as one command into a ring of
  ten (\<^verbatim>\<open>aesd-circular-buffer.c\<close>), freeing the command the ring displaces. The models are
  composed in the same way: sessions call the model of the driver, the driver the model of the ring.

  Theories.
  \<^item> \<open>Prelude\<close>: C types as words, the result type \<open>cres\<close> (\<open>Inl\<close> of a \<open>trap\<close> where C gives no
    result, or the call waits for good), checked array access, errno values, list and word lemmas.
  \<^item> \<open>Bounded_Log\<close>: the interface of the ring, the locales \<open>bounded_log\<close> (pushing keeps the last
    ten) and \<open>indexed_log\<close> (lookup by position), and what their users may conclude.
  \<^item> \<open>Circular_Buffer\<close>: \<^verbatim>\<open>aesd-circular-buffer.h\<close> and \<^verbatim>\<open>.c\<close>; the record of the struct, one
    function per C function, the invariant \<open>cb_inv\<close>, the abstraction \<open>cb_items\<close> (entries, oldest
    first) and the interpretation \<open>cb\<close> of \<open>indexed_log\<close>.
  \<^item> \<open>Kernel_Services\<close>: the heap, \<open>kmalloc\<close>, \<open>krealloc\<close>, \<open>kfree\<close>, copies to and from user space
    and the mutex. Where a block is placed, whether an allocation fails and whether a wait is
    interrupted is decided by a parameter, \<open>kernel_env\<close>; \<open>allocator_ok\<close> and \<open>memory_available\<close> state
    the documented behaviour and are satisfied by \<open>sample_env\<close>.
  \<^item> \<open>Char_Driver\<close>: \<^verbatim>\<open>aesdchar.h\<close>, \<^verbatim>\<open>aesd_ioctl.h\<close> and \<^verbatim>\<open>main.c\<close>: every file operation, loading
    and unloading, with the state \<open>driver\<close> (the device and the heap).
  \<^item> \<open>Driver_Memory\<close>: who owns which block, the invariant \<open>mem_inv\<close>, the view of a state (commands
    and pending bytes as memory cells), framing, and the stages of a write.
  \<^item> \<open>Driver_Write\<close>: the outcomes of a write (\<open>write_spec\<close>), the simulation for any allocator, and
    the refinement of the abstract log (\<open>log_write\<close>, \<open>represents\<close>) when memory is available.
  \<^item> \<open>Driver_Read\<close>, \<open>Driver_Seek\<close>: one read and reading to the end; llseek and the seek command.
  \<^item> \<open>Driver_System\<close>: the device under system calls in any order (\<open>exec\<close>, \<open>sys_step\<close>, \<open>reachable\<close>;
    besides the operations table of \<^verbatim>\<open>main.c\<close>, \<open>exec\<close> models what the virtual file system does for it,
    the table of open files and their positions) and the invariant of reachable states; \<open>Driver_Module\<close>: loading, runs of writes, the state with
    the mutex left locked, unloading; \<open>Driver_Lines\<close>: streams of bytes and their lines.
  \<^item> \<open>Driver_Properties\<close>, \<open>Driver_Bounds\<close>: the properties of the driver with their instances.
  \<^item> \<open>Server_Files\<close>: stdio streams over the device and the locale \<open>line_store\<close>, what a session relies
    on, interpreted on them as \<open>store\<close>. \<open>Client_List\<close>: the linked list of threads with explicit
    addresses. \<open>Server_Session\<close>: one session. \<open>Server_Main\<close>: setup, accept loop, end, time stamp.
  \<^item> \<open>Server_Replies\<close>, \<open>Server_Properties\<close>, \<open>Server_Clients\<close>, \<open>Server_Loop\<close>: the lemmas and properties
    of sessions, of sessions that follow each other, and of the list and the accept loop.
  \<^item> \<open>Server_Threads\<close>: the server with its threads running at the same time. \<open>thread_step\<close> cuts
    \<^verbatim>\<open>message_handler_thread\<close> and \<open>clean_step\<close> cuts \<^verbatim>\<open>cleanup\<close> where another thread may run; the steps
    are made of the definitions of the sequential model. The record \<open>process\<close> holds the program, the
    program counter of every thread and that of \<^verbatim>\<open>main\<close>; \<open>perform\<close> is what one event does to it (a
    round of the accept loop, the signal, a step of a thread, a step of \<^verbatim>\<open>cleanup\<close> in \<^verbatim>\<open>main\<close>).
    \<open>Server_Steps\<close>: the steps of one session alone are the session of \<open>Server_Session\<close>.
  \<^item> \<open>Server_Order\<close>: the invariant of the critical sections (who holds the file mutex, in which order
    the sessions have their turns, what was sent) and that each kind of step keeps it. What the clients
    send is a \<open>client_plan\<close>; \<open>commands\<close> and \<open>replies\<close> are the content of the device and the answers
    that an order of the turns gives. \<open>Server_Sequence\<close>: the sequential sessions in such an order
    give the same. \<open>Server_Concurrency\<close>:
    the events that may come next (\<open>event_ok\<close>), the states they lead to (\<open>leads\<close>), and the invariant
    of the process, which joins that order to the list of clients. \<open>Server_Process\<close>: every event keeps
    it. \<open>Server_Outcome\<close>: the start by \<^verbatim>\<open>main\<close> of the sequential model, progress, the end of
    \<^verbatim>\<open>main\<close>, and the state that has no end.
    \<open>Server_Threads_Properties\<close>, \<open>Server_Shutdown\<close>: the properties of the concurrent server.
  \<^item> \<open>System_Calls\<close>, \<open>Threading\<close>, \<open>Writer\<close>, \<open>Autotest_Validate\<close>: \<^verbatim>\<open>examples/systemcalls\<close>,
    \<^verbatim>\<open>examples/threading\<close>, \<^verbatim>\<open>finder-app/writer.c\<close> and \<^verbatim>\<open>examples/autotest-validate\<close>.

  What the lemmas show. For the ring: every addition keeps the last ten entries and hands back the
  displaced block, a lookup finds the byte at a position. For the driver: a call in a reachable
  state is memory safe unless it is a seek command whose signed index overflows on a full ring, which
  reads outside the array; the other calls leave the mutex locked on two error exits only; a write
  appends to the log, a read returns the bytes at its position, reading to the end ends and returns
  everything, seeks set the position they name, loading and unloading allocate and free in balance,
  and neither the ring's indices nor sizes nor positions wrap around.
  For the server: what each client is sent, what happens to the list of threads, the start and the
  end of the process. \<^verbatim>\<open>main\<close> ends exactly when every session it joins returns.
  For the server with concurrent sessions: at most one is in the critical section, the sessions have
  their turns in one order and each client is sent the last ten lines of it up to its own, or those
  from the place it seeks to, as if the sessions had run one after the other; the sessions are never
  stuck before \<^verbatim>\<open>main\<close> joins them, the process can then exit with everything released, and it never
  ends when \<^verbatim>\<open>main\<close> joins while a session is still running. Where the code does not do what it means
  to, the property states what it does (the mutex kept, the block leaked, the stale bytes sent, the
  freed node read).

  Bounds. A request above \<open>2 ^ 32\<close> bytes fails (no slab is that large), so ten commands stay below
  \<open>10 * 2 ^ 32\<close> bytes and no sum of sizes wraps around; \<open>memory_available\<close> asks for success on heaps
  of at most 32 blocks, more than the eleven commands and the two temporary blocks of a write.
  \<open>read_until_eof\<close> counts its calls: any number above the bytes left is enough, and
  \<open>max_reads\<close>, one more than the device can hold, always is. The loops over links of the client list
  and the loop that answers a seek command are partial functions, whose result \<open>None\<close> (no return) the
  theorems exclude. The loop of the seek command adds \<open>out_offs\<close> and its counter in \<open>int\<close>: a
  command number whose sum with \<open>out_offs\<close> is above \<open>2 ^ 31\<close> overflows on a full ring
  (\<open>seek_overflows\<close>), and the model computes the wrapped index with its C remainder, which is
  negative. Below that bound the numbers from ten up to \<open>2 ^ 31 - 1\<close> go round the ring.

  Joins. In the sequential model the answer to a \<^verbatim>\<open>pthread_join\<close> belongs to the environment:
  \<open>join_result\<close> is \<open>None\<close> when the thread does not return, and the caller then waits for good
  (\<open>Deadlock\<close>). In the model with running threads it is computed from them (\<open>pthread_join\<close>): a join
  has no result until the thread has returned, and its step is not enabled before.

  The events that the theorems on concurrent sessions admit are those of \<open>event_ok\<close>: the system
  gives addresses, descriptors and threads that are not in use, the calls of a created thread succeed
  and its client sends one line, or a seek command whose command is stored and whose offset is inside
  every command that may stand there when it has its turn. The failures that it leaves out are
  properties of their own: no memory for the node, a failed \<^verbatim>\<open>fopen\<close>, a client that goes away, a
  refused seek command.

  What is not modelled. Steps of the driver are not interleaved: a call of the driver runs to its end
  under the device mutex before the next begins, and the session that carries out a seek command goes
  from its lock of the file mutex to the unlock in one step. One round of the accept loop, from the
  new block of thread data over \<^verbatim>\<open>pthread_create\<close> to the insertion of the node and the check of the
  list, is one event: no thread runs between them. The timer of \<^verbatim>\<open>set_timer\<close> is
  compiled out, and its handler modelled as a function. A failed flush that stdio tries again, log
  messages, the text of error messages, \<^verbatim>\<open>send\<close> that fails or sends less, and the contents of user
  memory after a fault are left out. The shell scripts, which call external programs, are not modelled.
\<close>

section \<open>The server on the device\<close>

text \<open>C10: Clients that each send a line one after the other to a server on a freshly loaded device
  are all served, and each receives the last ten of the lines sent so far, its own included; the
  device ends up holding the last ten.\<close>

theorem clients_receive_last_ten_lines:
  assumes "thread_buffer env = Some junk" and "node_unset env sv" and "device sv = fresh_driver"
    and "\<forall>(data, d) \<in> set xs. session_ready env data sv \<and> is_line d \<and> take 18 d \<noteq> ''AESDCHAR_IOCSEEKTO'' \<and>
      NUL \<notin> set d \<and> length d \<le> 1024"
  shows "\<exists>sv'. serve env xs sv = Some (Inr sv') \<and>
    represents (device sv') (keep_last 10 (map snd xs), []) \<and>
    sent sv' = sent sv @ map (\<lambda>i. (socket_of sv (fst (xs ! i)),
      concat (keep_last 10 (map snd (take (Suc i) xs))))) [0..<length xs]"
  using serve_lines [OF assms(1,4,2), of "[]"] fresh_represents assms(3) by simp

theorem clients_receive_last_ten_lines_witness:
  "\<exists>sv'. serve sample_session [(1, hi_line), (1, hello_line)] (sample_server fresh_driver) = Some (Inr sv') \<and>
     sent sv' = [(7, hi_line), (7, hi_line @ hello_line)]"
proof -
  have fresh: "device (sample_server fresh_driver) = fresh_driver" by simp
  have lines: "is_line hi_line" "is_line hello_line"
    by (simp_all add: is_line_def hi_line_def hello_line_def)
  show ?thesis
    using clients_receive_last_ten_lines [OF sample_buffer sample_node_unset fresh,
        of "[(1, hi_line), (1, hello_line)]"] lines sample_session_ready [of fresh_driver]
    by (auto simp: socket_of_def sample_clients_def hi_line_def hello_line_def keep_last_def numeral_eq_Suc)
qed

end
